(* ===== verification/Prelude.thy ===== *)
theory Prelude
  imports Main "HOL-Library.Word" "HOL-Library.Multiset"
begin

text \<open>
  Shared vocabulary of the development: the machine types of the Go sources (\<open>uint64\<close>,
  \<open>byte\<close>, \<open>time.Time\<close>, \<open>time.Duration\<close>), Go's map reads with a zero default, and the
  generic facts on words, lists and majorities the component theories use.
\<close>

section \<open>Machine types\<close>

type_synonym u64 = "64 word"
type_synonym byte = "8 word"
type_synonym bytes = "byte list"

text \<open>\<open>uint64(len(xs))\<close>.\<close>

definition u64_len :: "'a list \<Rightarrow> u64" where
  "u64_len xs = of_nat (length xs)"

text \<open>
  \<open>m[k]\<close> on a Go map: a missing key reads as the zero value of the element type.
\<close>

definition go_read :: "('k \<rightharpoonup> 'v::zero) \<Rightarrow> 'k \<Rightarrow> 'v" where
  "go_read m k = (case m k of None \<Rightarrow> 0 | Some v \<Rightarrow> v)"

lemma go_read_upd [simp]: "go_read (m(k \<mapsto> v)) k' = (if k' = k then v else go_read m k')"
  by (simp add: go_read_def)

lemma go_read_empty [simp]: "go_read Map.empty k = 0"
  by (simp add: go_read_def)

section \<open>Words as natural numbers\<close>

named_theorems u64_nat \<open>comparisons and arithmetic of words moved to natural numbers\<close>

lemma unat_of_nat_u64: "n < 2 ^ 64 \<Longrightarrow> unat (of_nat n :: u64) = n"
  by (simp add: unat_of_nat)

lemmas [u64_nat] = word_less_nat_alt word_le_nat_alt unat_of_nat_u64

text \<open>The largest \<open>uint64\<close>; one more wraps to 0.\<close>

abbreviation u64_max :: u64 where
  "u64_max \<equiv> - 1"

lemma unat_u64_bound: "unat (x :: u64) < 18446744073709551616"
  using unsigned_less [of x] by simp

lemma unat_u64_max: "unat u64_max = 2 ^ 64 - 1"
  by (simp add: unsigned_minus_1_eq_mask mask_eq_exp_minus_1)

lemma unat_u64_plus1: "unat (x :: u64) + 1 < 2 ^ 64 \<Longrightarrow> unat (x + 1) = unat x + 1"
  using unat_add_lem [of x 1] by simp

lemma unat_less_max: "x \<noteq> u64_max \<Longrightarrow> unat x + 1 < 2 ^ 64"
proof -
  assume "x \<noteq> u64_max"
  then have "unat x \<noteq> 2 ^ 64 - 1"
    by (metis unat_u64_max word_unat_eq_iff)
  with unat_u64_bound [of x] show ?thesis by simp
qed

lemma u64_plus1_neq0: "x \<noteq> u64_max \<Longrightarrow> x + 1 \<noteq> 0"
  by (metis add_eq_0_iff2)

lemma u64_less_plus1: "x \<noteq> u64_max \<Longrightarrow> x < x + 1"
  using unat_less_max [of x] unat_u64_plus1 [of x] by (simp add: word_less_nat_alt)

lemma u64_max_wraps: "u64_max + 1 = 0"
  by simp

section \<open>Lists\<close>

lemma nth_append_drop:
  "k \<le> length xs \<Longrightarrow> (take k xs @ ys) ! i = (if i < k then xs ! i else ys ! (i - k))"
  by (simp add: nth_append min_def)

section \<open>Majorities of a descending sort\<close>

text \<open>
  The element at position \<open>m\<close> of a list sorted in descending order is the largest value that
  more than \<open>m\<close> elements reach.
\<close>

lemma rev_sort_nth_reached:
  fixes xs :: "'a::linorder list"
  assumes "m < length xs"
  shows "m < length (filter (\<lambda>x. rev (sort xs) ! m \<le> x) xs)"
proof -
  let ?ys = "rev (sort xs)" and ?P = "\<lambda>x. rev (sort xs) ! m \<le> x"
  have len: "length (filter ?P xs) = length (filter ?P ?ys)"
    by (metis filter_sort length_rev length_sort rev_filter)
  have "\<forall>x \<in> set (take (Suc m) ?ys). ?P x"
  proof
    fix x assume "x \<in> set (take (Suc m) ?ys)"
    then obtain i where "i \<le> m" "x = ?ys ! i"
      by (auto simp: in_set_conv_nth less_Suc_eq_le)
    then show "?P x"
      using assms by (simp add: rev_nth sorted_nth_mono)
  qed
  then have "length (filter ?P (take (Suc m) ?ys)) = Suc m"
    using assms by (simp add: filter_id_conv [THEN iffD2])
  moreover have "length (filter ?P (take (Suc m) ?ys)) \<le> length (filter ?P ?ys)"
    by (metis append_take_drop_id filter_append le_add1 length_append)
  ultimately show ?thesis
    using len by linarith
qed

lemma rev_sort_nth_maximal:
  fixes xs :: "'a::linorder list"
  assumes "m < length xs" "rev (sort xs) ! m < v"
  shows "length (filter (\<lambda>x. v \<le> x) xs) \<le> m"
proof -
  let ?ys = "rev (sort xs)"
  have len: "length (filter (\<lambda>x. v \<le> x) xs) = length (filter (\<lambda>x. v \<le> x) ?ys)"
    by (metis filter_sort length_rev length_sort rev_filter)
  have "\<not> v \<le> x" if x: "x \<in> set (drop m ?ys)" for x
  proof -
    from x obtain i where "i < length xs - m" "x = ?ys ! (m + i)"
      by (auto simp: in_set_conv_nth)
    then have "x \<le> ?ys ! m"
      by (simp add: rev_nth sorted_nth_mono)
    with assms(2) show ?thesis by auto
  qed
  then have "filter (\<lambda>x. v \<le> x) (drop m ?ys) = []"
    by (simp add: filter_empty_conv)
  then have "filter (\<lambda>x. v \<le> x) ?ys = filter (\<lambda>x. v \<le> x) (take m ?ys)"
    by (metis append_Nil2 append_take_drop_id filter_append)
  then show ?thesis
    using len by (metis length_filter_le length_take min.bounded_iff order_trans)
qed

section \<open>Concatenations without duplicates\<close>

lemma distinct_concat_disjoint:
  "distinct (concat xss) \<Longrightarrow> i < length xss \<Longrightarrow> j < length xss \<Longrightarrow> i \<noteq> j \<Longrightarrow> set (xss ! i) \<inter> set (xss ! j) = {}"
proof (induction xss arbitrary: i j)
  case (Cons xs xss)
  have rest: "set (xss ! k) \<subseteq> set (concat xss)" if "k < length xss" for k
    using that by (metis UN_upper nth_mem set_concat)
  show ?case
  proof (cases i)
    case 0
    then obtain k where "j = Suc k" using Cons.prems(4) by (cases j) auto
    then show ?thesis using 0 rest [of k] Cons.prems by auto
  next
    case (Suc m)
    then show ?thesis using rest [of m] Cons by (cases j) auto
  qed
qed simp

end
