(* ===== verification/RaftLog.thy ===== *)
theory RaftLog
  imports Prelude
begin

text \<open>
  The replicated log of one node, \<open>src/raft/log.go\<close>. The Go slice \<open>entries\<close> always holds the
  sentinel at position 0, so the model keeps it apart: \<open>log_entries l = sentinel l # tail l\<close>,
  and \<open>entries[0]\<close> and \<open>entries[len-1]\<close> are never out of range. Indices and terms are
  \<open>uint64\<close>; the subtraction \<open>index - offset\<close> and the comparison with \<open>uint64(len)\<close> are
  word operations as in the source. The contract of the log, in natural numbers, is the locale
  \<open>replicated_log\<close>.
\<close>

section \<open>Data\<close>

record LogEntry =
  le_Term :: u64
  le_Index :: u64
  le_Command :: bytes
  le_IsConfig :: bool
  le_ConfigOp :: string
  le_ConfigPeer :: string

text \<open>\<open>LogEntry{}\<close>, the zero value.\<close>

definition zero_entry :: LogEntry where
  "zero_entry = \<lparr>le_Term = 0, le_Index = 0, le_Command = [], le_IsConfig = False,
     le_ConfigOp = '''', le_ConfigPeer = ''''\<rparr>"

text \<open>\<open>LogEntry{Index: index, Term: term}\<close>.\<close>

definition mark_entry :: "u64 \<Rightarrow> u64 \<Rightarrow> LogEntry" where
  "mark_entry index trm = zero_entry\<lparr>le_Index := index, le_Term := trm\<rparr>"

record Log =
  log_sentinel :: LogEntry
  log_tail :: "LogEntry list"

definition log_entries :: "Log \<Rightarrow> LogEntry list" where
  "log_entries l = log_sentinel l # log_tail l"

section \<open>Operations\<close>

definition newLog :: Log where
  "newLog = \<lparr>log_sentinel = mark_entry 0 0, log_tail = []\<rparr>"

definition snapshotIndex :: "Log \<Rightarrow> u64" where
  "snapshotIndex l = le_Index (log_entries l ! 0)"

definition snapshotTerm :: "Log \<Rightarrow> u64" where
  "snapshotTerm l = le_Term (log_entries l ! 0)"

definition log_append :: "Log \<Rightarrow> LogEntry list \<Rightarrow> Log" where
  "log_append l es = l\<lparr>log_tail := log_tail l @ es\<rparr>"

definition log_get :: "Log \<Rightarrow> u64 \<Rightarrow> LogEntry" where
  "log_get l index =
     (let offset = le_Index (log_entries l ! 0) in
      if index < offset \<or> index - offset \<ge> u64_len (log_entries l) then zero_entry
      else log_entries l ! unat (index - offset))"

definition lastIndex :: "Log \<Rightarrow> u64" where
  "lastIndex l = le_Index (log_entries l ! 0) + u64_len (log_entries l) - 1"

definition lastTerm :: "Log \<Rightarrow> u64" where
  "lastTerm l = le_Term (log_entries l ! (length (log_entries l) - 1))"

text \<open>
  \<open>l.entries[:physical]\<close> keeps the sentinel, because \<open>physical \<ge> 1\<close> at that point.
\<close>

definition truncateFrom :: "Log \<Rightarrow> u64 \<Rightarrow> Log" where
  "truncateFrom l index =
     (let offset = le_Index (log_entries l ! 0) in
      if index \<le> offset then l
      else let physical = index - offset in
        if physical < u64_len (log_entries l)
        then l\<lparr>log_tail := tl (take (unat physical) (log_entries l))\<rparr>
        else l)"

definition compactTo :: "Log \<Rightarrow> u64 \<Rightarrow> u64 \<Rightarrow> Log" where
  "compactTo l index trm =
     (let offset = le_Index (log_entries l ! 0) in
      if index \<le> offset then l
      else let physical = index - offset in
        if physical \<ge> u64_len (log_entries l)
        then \<lparr>log_sentinel = mark_entry index trm, log_tail = []\<rparr>
        else \<lparr>log_sentinel = mark_entry index trm,
              log_tail = drop (unat physical + 1) (log_entries l)\<rparr>)"

fun first_index_in :: "LogEntry list \<Rightarrow> u64 \<Rightarrow> u64" where
  "first_index_in [] trm = 0"
| "first_index_in (e # es) trm = (if le_Term e = trm then le_Index e else first_index_in es trm)"

definition firstIndexForTerm :: "Log \<Rightarrow> u64 \<Rightarrow> u64" where
  "firstIndexForTerm l trm = first_index_in (log_entries l) trm"

definition log_slice :: "Log \<Rightarrow> u64 \<Rightarrow> u64 \<Rightarrow> LogEntry list" where
  "log_slice l from0 to =
     (let offset = le_Index (log_entries l ! 0);
          from = (if from0 \<le> offset then offset + 1 else from0) in
      if from \<ge> to then []
      else let physFrom = from - offset; physTo = to - offset in
        if physFrom \<ge> u64_len (log_entries l) then []
        else let physTo' = (if physTo > u64_len (log_entries l) then u64_len (log_entries l)
                            else physTo)
             in drop (unat physFrom) (take (unat physTo') (log_entries l)))"

section \<open>Well-formed logs and their abstract content\<close>

definition log_base :: "Log \<Rightarrow> nat" where
  "log_base l = unat (snapshotIndex l)"

definition log_top :: "Log \<Rightarrow> nat" where
  "log_top l = log_base l + length (log_tail l)"

text \<open>
  A well-formed log: positions carry consecutive indices, the index after the last one still fits
  in 64 bits (every caller computes \<open>lastIndex()+1\<close>), and a stored entry never has term 0, which
  the callers of \<open>get\<close> read as ``no entry''.
\<close>

definition contiguous :: "Log \<Rightarrow> bool" where
  "contiguous l \<longleftrightarrow> (\<forall>k < length (log_entries l).
     unat (le_Index (log_entries l ! k)) = log_base l + k)"

definition wf_log :: "Log \<Rightarrow> bool" where
  "wf_log l \<longleftrightarrow> contiguous l
     \<and> log_top l + 1 < 2 ^ 64
     \<and> (\<forall>e \<in> set (log_tail l). le_Term e \<noteq> 0)
     \<and> (snapshotIndex l \<noteq> 0 \<longrightarrow> snapshotTerm l \<noteq> 0)"

text \<open>The abstract content: a partial map from natural-number indices to entries.\<close>

definition log_map :: "Log \<Rightarrow> nat \<rightharpoonup> LogEntry" where
  "log_map l i = (if log_base l \<le> i \<and> i \<le> log_top l
                  then Some (log_entries l ! (i - log_base l)) else None)"

text \<open>A batch of entries numbered from \<open>n\<close> on, with the index after it still in range.\<close>

definition numbered :: "nat \<Rightarrow> LogEntry list \<Rightarrow> bool" where
  "numbered n es \<longleftrightarrow> n + length es < 2 ^ 64 \<and>
     (\<forall>k < length es. unat (le_Index (es ! k)) = n + k \<and> le_Term (es ! k) \<noteq> 0)"

lemma length_log_entries [simp]: "length (log_entries l) = Suc (length (log_tail l))"
  by (simp add: log_entries_def)

lemma log_entries_0 [simp]: "log_entries l ! 0 = log_sentinel l"
  by (simp add: log_entries_def)

lemma log_entries_Suc [simp]: "log_entries l ! Suc k = log_tail l ! k"
  by (simp add: log_entries_def)

lemma log_top_bound: "wf_log l \<Longrightarrow> log_top l + 1 < 2 ^ 64"
  by (simp add: wf_log_def)

lemma log_base_le_top [simp]: "log_base l \<le> log_top l"
  by (simp add: log_top_def)

lemma unat_snapshotIndex [simp]: "unat (snapshotIndex l) = log_base l"
  by (simp add: log_base_def)

lemma unat_sentinel_Index [simp]: "unat (le_Index (log_sentinel l)) = log_base l"
  by (simp add: log_base_def snapshotIndex_def)

lemma unat_u64_len: "wf_log l \<Longrightarrow> unat (u64_len (log_entries l)) = length (log_tail l) + 1"
  using log_top_bound [of l]
  by (auto simp: u64_len_def log_top_def u64_nat simp del: of_nat_Suc)

lemmas unat_u64_len_Cons = unat_u64_len [unfolded log_entries_def]

lemma dom_log_map: "dom (log_map l) = {log_base l..log_top l}"
  by (auto simp: log_map_def split: if_splits)

lemma log_map_None_iff: "log_map l i = None \<longleftrightarrow> i < log_base l \<or> log_top l < i"
  by (auto simp: log_map_def)

lemma log_map_nth: "k \<le> length (log_tail l) \<Longrightarrow> log_map l (log_base l + k) = Some (log_entries l ! k)"
  by (simp add: log_map_def log_top_def)

lemma log_map_top: "log_map l (log_top l) = Some (log_entries l ! length (log_tail l))"
  by (simp add: log_top_def log_map_nth)

lemma log_map_index: "wf_log l \<Longrightarrow> log_map l i = Some e \<Longrightarrow> unat (le_Index e) = i"
  by (auto simp: wf_log_def contiguous_def log_map_def log_top_def split: if_splits)

lemma unat_lastIndex: "wf_log l \<Longrightarrow> unat (lastIndex l) = log_top l"
proof -
  assume wf: "wf_log l"
  let ?n = "u64_len (log_entries l)" and ?o = "le_Index (log_sentinel l)"
  from log_top_bound [OF wf] unat_u64_len [OF wf] have "unat (?o + ?n) = log_top l + 1"
    by (simp add: unat_plus_if' log_top_def)
  then show ?thesis
    by (simp add: lastIndex_def unat_sub_if')
qed

lemma lastIndex_plus1: "wf_log l \<Longrightarrow> unat (lastIndex l + 1) = log_top l + 1"
  using unat_u64_plus1 [of "lastIndex l"] log_top_bound [of l] by (simp add: unat_lastIndex)

lemma log_get_map:
  "wf_log l \<Longrightarrow> log_get l i = (case log_map l (unat i) of None \<Rightarrow> zero_entry | Some e \<Rightarrow> e)"
  by (auto simp: log_get_def log_map_def Let_def u64_nat unat_u64_len log_top_def unat_sub_if'
      split: if_splits)

lemma lastTerm_map: "log_map l (log_top l) = Some e \<Longrightarrow> lastTerm l = le_Term e"
  by (simp add: lastTerm_def log_map_top)

text \<open>\<open>Term == 0\<close> is a sound and complete test for ``no entry at this index''.\<close>

lemma log_map_term_nonzero:
  "wf_log l \<Longrightarrow> log_map l i = Some e \<Longrightarrow> 0 < i \<Longrightarrow> le_Term e \<noteq> 0"
proof (cases "i = log_base l")
  case True
  then show "wf_log l \<Longrightarrow> log_map l i = Some e \<Longrightarrow> 0 < i \<Longrightarrow> le_Term e \<noteq> 0"
    by (auto simp: wf_log_def log_map_def snapshotTerm_def dest: arg_cong [where f = unat] split: if_splits)
next
  case False
  then show "wf_log l \<Longrightarrow> log_map l i = Some e \<Longrightarrow> 0 < i \<Longrightarrow> le_Term e \<noteq> 0"
    by (auto simp: wf_log_def log_map_def log_top_def log_entries_def nth_Cons'
        split: if_splits)
qed

lemma get_term_0_iff:
  "wf_log l \<Longrightarrow> 0 < unat i \<Longrightarrow> le_Term (log_get l i) = 0 \<longleftrightarrow> log_map l (unat i) = None"
  by (auto simp: log_get_map zero_entry_def dest: log_map_term_nonzero split: option.splits)

section \<open>The operations keep logs well-formed\<close>

lemma snapshotIndex_sentinel: "snapshotIndex l = le_Index (log_sentinel l)"
  by (simp add: snapshotIndex_def)

lemma snapshotTerm_sentinel: "snapshotTerm l = le_Term (log_sentinel l)"
  by (simp add: snapshotTerm_def)

lemma log_base_0_iff: "log_base l = 0 \<longleftrightarrow> snapshotIndex l = 0"
  by (simp add: log_base_def unat_eq_0 del: unat_snapshotIndex)

text \<open>Well-formedness, position by position.\<close>

lemma wf_log_alt:
  "wf_log l \<longleftrightarrow> log_top l + 1 < 2 ^ 64 \<and>
     (\<forall>k < length (log_tail l). unat (le_Index (log_tail l ! k)) = log_base l + Suc k
        \<and> le_Term (log_tail l ! k) \<noteq> 0) \<and>
     (log_base l \<noteq> 0 \<longrightarrow> snapshotTerm l \<noteq> 0)"
  by (auto simp: wf_log_def contiguous_def All_less_Suc2 all_set_conv_all_nth log_base_0_iff)

lemma log_base_simps [simp]:
  "log_base (log_append l es) = log_base l"
  "log_base (truncateFrom l i) = log_base l"
  "snapshotTerm (log_append l es) = snapshotTerm l"
  "snapshotTerm (truncateFrom l i) = snapshotTerm l"
  by (simp_all add: log_base_def snapshotIndex_def snapshotTerm_def log_append_def truncateFrom_def
      Let_def del: unat_snapshotIndex unat_sentinel_Index)

lemma log_top_append [simp]: "log_top (log_append l es) = log_top l + length es"
  by (simp add: log_top_def) (simp add: log_append_def)

lemma log_sentinel_append [simp]: "log_sentinel (log_append l es) = log_sentinel l"
  by (simp add: log_append_def)

lemma log_tail_append [simp]: "log_tail (log_append l es) = log_tail l @ es"
  by (simp add: log_append_def)

lemma log_tail_truncate:
  "wf_log l \<Longrightarrow> log_tail (truncateFrom l i) =
     (if unat i \<le> log_base l then log_tail l else take (unat i - log_base l - 1) (log_tail l))"
  by (auto simp: truncateFrom_def Let_def u64_nat unat_u64_len_Cons unat_sub_if' log_entries_def
      take_Cons' split: if_splits)

lemma log_top_truncate:
  "wf_log l \<Longrightarrow> log_top (truncateFrom l i) =
     (if unat i \<le> log_base l then log_top l else min (log_top l) (unat i - 1))"
  by (auto simp: log_top_def log_tail_truncate)

lemma wf_newLog [simp]: "wf_log newLog"
  by (simp add: wf_log_alt newLog_def mark_entry_def zero_entry_def log_base_def snapshotIndex_def
      log_top_def del: unat_snapshotIndex unat_sentinel_Index)

lemma wf_log_append: "wf_log l \<Longrightarrow> numbered (log_top l + 1) es \<Longrightarrow> wf_log (log_append l es)"
  by (auto simp: wf_log_alt numbered_def nth_append log_top_def)

lemma wf_truncateFrom: "wf_log l \<Longrightarrow> wf_log (truncateFrom l i)"
  by (auto simp: wf_log_alt [of "truncateFrom l i"] log_tail_truncate log_top_truncate
      wf_log_alt [of l])

lemma sentinel_compactTo:
  "log_sentinel (compactTo l i t) = (if unat i \<le> log_base l then log_sentinel l else mark_entry i t)"
  by (simp add: compactTo_def Let_def u64_nat)

lemma log_base_compactTo [simp]: "log_base (compactTo l i t) = max (log_base l) (unat i)"
  using sentinel_compactTo [of l i t]
  by (auto simp: log_base_def snapshotIndex_def mark_entry_def max_def
      simp del: unat_snapshotIndex unat_sentinel_Index)

lemma snapshotTerm_compactTo:
  "snapshotTerm (compactTo l i t) = (if unat i \<le> log_base l then snapshotTerm l else t)"
  using sentinel_compactTo [of l i t] by (simp add: snapshotTerm_def mark_entry_def)

lemma log_tail_compactTo:
  "wf_log l \<Longrightarrow> log_tail (compactTo l i t) = drop (unat i - log_base l) (log_tail l)"
  by (auto simp: compactTo_def Let_def u64_nat unat_u64_len_Cons unat_sub_if' log_entries_def)

lemma log_top_compactTo: "wf_log l \<Longrightarrow> log_top (compactTo l i t) = max (log_top l) (unat i)"
  by (auto simp: log_top_def log_tail_compactTo)

lemma wf_compactTo:
  "wf_log l \<Longrightarrow> t \<noteq> 0 \<Longrightarrow> i \<noteq> u64_max \<Longrightarrow> wf_log (compactTo l i t)"
  using unat_less_max [of i]
  by (auto simp: wf_log_alt [of "compactTo l i t"] log_tail_compactTo log_top_compactTo
      snapshotTerm_compactTo wf_log_alt [of l])

section \<open>Their effect on the content\<close>

lemma log_map_tail:
  "log_base l < i \<Longrightarrow> i \<le> log_top l \<Longrightarrow> log_map l i = Some (log_tail l ! (i - log_base l - 1))"
  by (auto simp: log_map_def log_entries_def nth_Cons')

lemma log_map_base: "log_map l (log_base l) = Some (log_sentinel l)"
  by (simp add: log_map_def)

lemma log_map_append:
  "log_map (log_append l es) i =
     (if log_top l < i \<and> i \<le> log_top l + length es then Some (es ! (i - log_top l - 1))
      else log_map l i)"
  by (auto simp: log_map_def log_entries_def nth_Cons' nth_append log_top_def)

lemma log_sentinel_truncate [simp]: "log_sentinel (truncateFrom l i) = log_sentinel l"
  by (simp add: truncateFrom_def Let_def)

lemma log_map_truncate:
  "wf_log l \<Longrightarrow> log_map (truncateFrom l i) j =
     (if log_base l < unat i \<and> unat i \<le> j then None else log_map l j)"
  by (auto simp: log_map_def log_top_truncate log_entries_def nth_Cons' log_tail_truncate
      log_top_def)

lemma log_map_compact:
  "wf_log l \<Longrightarrow> log_map (compactTo l i t) j =
     (if unat i \<le> log_base l then log_map l j
      else if j < unat i then None
      else if j = unat i then Some (mark_entry i t)
      else log_map l j)"
  by (auto simp: log_map_def log_top_compactTo log_entries_def nth_Cons' log_tail_compactTo
      sentinel_compactTo max_def log_top_def)

section \<open>Ranges and term search\<close>

lemma log_map_segment:
  "log_base l \<le> f \<Longrightarrow> t \<le> log_top l + 1 \<Longrightarrow>
     drop (f - log_base l) (take (t - log_base l) (log_entries l)) = map (\<lambda>i. the (log_map l i)) [f..<t]"
  by (intro nth_equalityI) (auto simp: log_map_def log_top_def simp del: upt_Suc)

lemma slice_map:
  assumes wf: "wf_log l"
  shows "log_slice l a b =
     map (\<lambda>i. the (log_map l i)) [max (unat a) (log_base l + 1)..<min (unat b) (log_top l + 1)]"
proof -
  let ?from = "if a \<le> le_Index (log_sentinel l) then le_Index (log_sentinel l) + 1 else a"
  from log_top_bound [OF wf] have "log_base l + 1 < 2 ^ 64"
    by (simp add: log_top_def)
  then have from_nat: "unat ?from = max (unat a) (log_base l + 1)"
    using unat_u64_plus1 [of "le_Index (log_sentinel l)"] by (auto simp: u64_nat max_def)
  have "log_slice l a b = drop (unat ?from - log_base l)
      (take (min (unat b) (log_top l + 1) - log_base l) (log_entries l))"
    using from_nat unat_u64_len [OF wf]
    by (simp add: log_slice_def Let_def u64_nat unat_sub_if') (auto simp: min_def max_def log_top_def)
  then show ?thesis
    using from_nat by (simp add: log_map_segment)
qed

lemma first_index_in_spec:
  "(\<exists>k < length es. le_Term (es ! k) = t \<and> (\<forall>j < k. le_Term (es ! j) \<noteq> t)
       \<and> first_index_in es t = le_Index (es ! k))
   \<or> (\<forall>k < length es. le_Term (es ! k) \<noteq> t) \<and> first_index_in es t = 0"
proof (induction es)
  case Nil
  then show ?case by simp
next
  case (Cons e es)
  then show ?case
    by (auto simp: All_less_Suc2 Ex_less_Suc2)
qed

lemma firstIndexForTerm_first:
  assumes wf: "wf_log l" and e: "log_map l i = Some e"
  shows "\<exists>f. log_map l (unat (firstIndexForTerm l (le_Term e))) = Some f \<and> le_Term f = le_Term e
           \<and> unat (firstIndexForTerm l (le_Term e)) \<le> i
           \<and> (\<forall>j g. j < unat (firstIndexForTerm l (le_Term e)) \<longrightarrow> log_map l j = Some g \<longrightarrow> le_Term g \<noteq> le_Term e)"
proof -
  let ?es = "log_entries l"
  from e have i: "i - log_base l < length ?es" "le_Term (?es ! (i - log_base l)) = le_Term e" "log_base l \<le> i"
    by (auto simp: log_map_def log_top_def split: if_splits)
  then obtain k where k: "k < length ?es" "le_Term (?es ! k) = le_Term e"
      "\<forall>j < k. le_Term (?es ! j) \<noteq> le_Term e" "firstIndexForTerm l (le_Term e) = le_Index (?es ! k)"
    using first_index_in_spec [of ?es "le_Term e"] by (auto simp: firstIndexForTerm_def)
  then have idx: "unat (firstIndexForTerm l (le_Term e)) = log_base l + k"
    using wf by (simp add: wf_log_def contiguous_def)
  have "k \<le> i - log_base l"
    using k(3) i(2) by (meson not_le)
  then show ?thesis
    using k i(3) idx by (auto simp: log_map_nth log_map_def log_top_def split: if_splits)
qed

section \<open>The contract of a log\<close>

text \<open>
  What the election, replication and snapshot code relies on, over indices read as natural
  numbers (\<open>num\<close>): where entries are, and what appending, cutting and compacting do to them.
\<close>

locale replicated_log =
  fixes wf :: "'l \<Rightarrow> bool"
    and base :: "'l \<Rightarrow> nat"
    and top :: "'l \<Rightarrow> nat"
    and look :: "'l \<Rightarrow> nat \<Rightarrow> 'e option"
    and batch :: "nat \<Rightarrow> 'e list \<Rightarrow> bool"
    and num :: "'i \<Rightarrow> nat"
    and app :: "'l \<Rightarrow> 'e list \<Rightarrow> 'l"
    and cut :: "'l \<Rightarrow> 'i \<Rightarrow> 'l"
    and compact :: "'l \<Rightarrow> 'i \<Rightarrow> 't \<Rightarrow> 'l"
    and mark :: "'i \<Rightarrow> 't \<Rightarrow> 'e"
  assumes look_dom: "wf l \<Longrightarrow> dom (look l) = {base l..top l}"
    and base_top: "base l \<le> top l"
    and app_wf: "wf l \<Longrightarrow> batch (top l + 1) es \<Longrightarrow> wf (app l es)"
    and app_base: "base (app l es) = base l"
    and app_top: "top (app l es) = top l + length es"
    and app_look: "wf l \<Longrightarrow> look (app l es) j =
          (if top l < j \<and> j \<le> top l + length es then Some (es ! (j - top l - 1)) else look l j)"
    and cut_wf: "wf l \<Longrightarrow> wf (cut l i)"
    and cut_base: "base (cut l i) = base l"
    and cut_top: "wf l \<Longrightarrow> base l < num i \<Longrightarrow> top (cut l i) = min (top l) (num i - 1)"
    and cut_look: "wf l \<Longrightarrow> look (cut l i) j =
          (if base l < num i \<and> num i \<le> j then None else look l j)"
    and compact_base: "wf l \<Longrightarrow> base (compact l i t) = max (base l) (num i)"
    and compact_top: "wf l \<Longrightarrow> top (compact l i t) = max (top l) (num i)"
    and compact_look: "wf l \<Longrightarrow> look (compact l i t) j =
          (if num i \<le> base l then look l j
           else if j < num i then None
           else if j = num i then Some (mark i t)
           else look l j)"
begin

lemma look_None_iff: "wf l \<Longrightarrow> look l j = None \<longleftrightarrow> j < base l \<or> top l < j"
  using look_dom [of l] by (metis atLeastAtMost_iff domIff not_le)

text \<open>Cutting at an index inside the log and appending from there replaces the suffix.\<close>

lemma cut_top_Suc:
  "wf l \<Longrightarrow> base l < num i \<Longrightarrow> num i \<le> top l + 1 \<Longrightarrow> top (cut l i) + 1 = num i"
  by (simp add: cut_top min_def) linarith

lemma replace_suffix_wf:
  "wf l \<Longrightarrow> base l < num i \<Longrightarrow> num i \<le> top l + 1 \<Longrightarrow> batch (num i) es \<Longrightarrow> wf (app (cut l i) es)"
  by (rule app_wf) (simp_all only: cut_wf cut_top_Suc)

lemma replace_suffix_top:
  "wf l \<Longrightarrow> base l < num i \<Longrightarrow> num i \<le> top l + 1 \<Longrightarrow> top (app (cut l i) es) + 1 = num i + length es"
  using cut_top_Suc [of l i] by (simp add: app_top)

lemma replace_suffix_look:
  assumes "wf l" and "base l < num i" and "num i \<le> top l + 1"
  shows "look (app (cut l i) es) j =
       (if j < num i then look l j
        else if j < num i + length es then Some (es ! (j - num i)) else None)"
proof -
  from cut_top_Suc [OF assms] have top: "top (cut l i) = num i - 1" and "0 < num i" by auto
  then show ?thesis
    using assms by (auto simp: app_look cut_wf cut_look)
qed

text \<open>A snapshot never changes what is stored above its index.\<close>

lemma compact_keeps_above:
  "wf l \<Longrightarrow> num i < j \<Longrightarrow> look (compact l i t) j = look l j"
  by (auto simp: compact_look)

end

interpretation rl: replicated_log wf_log log_base log_top log_map numbered unat log_append truncateFrom compactTo mark_entry
  by unfold_locales
    (auto simp: dom_log_map wf_log_append log_map_append wf_truncateFrom log_top_truncate
      log_map_truncate log_map_compact log_top_compactTo)

lemma newLog_simps [simp]: "log_base newLog = 0" "log_top newLog = 0"
  by (simp_all add: log_top_def newLog_def log_base_def snapshotIndex_def mark_entry_def zero_entry_def
      del: unat_snapshotIndex unat_sentinel_Index)

section \<open>The log as a map\<close>

text \<open>
  C11: the operations of the log refine operations of a partial map from indices to entries: reading
  (the zero entry outside the map), appending, cutting off a suffix and compacting a prefix, each
  of which keeps the log well-formed.
\<close>

theorem log_refines_map:
  assumes "wf_log l"
  shows "log_get l i = (case log_map l (unat i) of None \<Rightarrow> zero_entry | Some e \<Rightarrow> e)
     \<and> (numbered (log_top l + 1) es \<longrightarrow>
          wf_log (log_append l es)
          \<and> log_map (log_append l es) = (\<lambda>j. if log_top l < j \<and> j \<le> log_top l + length es
                                            then Some (es ! (j - log_top l - 1)) else log_map l j))
     \<and> wf_log (truncateFrom l i)
     \<and> (log_base l < unat i \<longrightarrow> log_map (truncateFrom l i) = (log_map l) |` {..<unat i})
     \<and> (log_base l < unat i \<and> i \<noteq> u64_max \<and> t \<noteq> 0 \<longrightarrow>
          wf_log (compactTo l i t)
          \<and> log_map (compactTo l i t) = ((log_map l) |` {unat i..})(unat i \<mapsto> mark_entry i t))"
  using assms
  by (auto simp: log_get_map wf_log_append log_map_append wf_truncateFrom log_map_truncate wf_compactTo
      log_map_compact fun_eq_iff restrict_map_def)

theorem log_refines_map_witness:
  "log_map (truncateFrom (log_append newLog [mark_entry 1 1, mark_entry 2 1]) 2)
     = log_map (log_append newLog [mark_entry 1 1, mark_entry 2 1]) |` {..<2}"
proof -
  let ?es = "[mark_entry 1 1, mark_entry 2 1]"
  have "numbered 1 ?es"
    by (simp add: numbered_def mark_entry_def zero_entry_def nth_Cons' less_Suc_eq)
  then have "wf_log (log_append newLog ?es)" using wf_log_append [of newLog ?es] by simp
  then show ?thesis using log_refines_map [of "log_append newLog ?es" 2] by simp
qed

text \<open>
  \<open>slice(from, to)\<close> returns exactly the stored entries with an index from \<open>from\<close> up to before
  \<open>to\<close>, in order, without the sentinel and without ever reading out of range.
\<close>

lemma log_slice_entries:
  assumes "wf_log l"
  shows "map Some (log_slice l a b) =
           map (log_map l) (filter (\<lambda>i. unat a \<le> i \<and> i < unat b) [log_base l + 1..<log_top l + 1])"
proof -
  have "filter (\<lambda>i. x \<le> i \<and> i < y) [m..<n] = [max x m..<min y n]" for x y m n :: nat
    by (induction n) (auto simp: min_def max_def le_Suc_eq)
  moreover have "log_map l i = Some (the (log_map l i))" if "log_base l < i" "i \<le> log_top l" for i
    using that by (simp add: log_map_def)
  ultimately show ?thesis
    using assms by (auto simp: slice_map simp del: upt_Suc)
qed

end
