(* ===== verification/Rpc.thy ===== *)
theory Rpc
  imports RaftLog
begin

text \<open>
  The message types of \<open>src/raft/rpc.go\<close>, one record per Go struct.
\<close>

record RequestVoteArgs =
  rv_Term :: u64
  rv_CandidateID :: string
  rv_LastLogIndex :: u64
  rv_LastLogTerm :: u64
  rv_IsPreVote :: bool

record RequestVoteReply =
  rvr_Term :: u64
  rvr_VoteGranted :: bool

record AppendEntriesArgs =
  ae_Term :: u64
  ae_LeaderID :: string
  ae_PrevLogIndex :: u64
  ae_PrevLogTerm :: u64
  ae_Entries :: "LogEntry list"
  ae_LeaderCommit :: u64

record AppendEntriesReply =
  aer_Term :: u64
  aer_Success :: bool
  aer_ConflictTerm :: u64
  aer_ConflictIndex :: u64

record InstallSnapshotArgs =
  is_Term :: u64
  is_LeaderID :: string
  is_LastIncludedIndex :: u64
  is_LastIncludedTerm :: u64
  is_Data :: bytes

record InstallSnapshotReply =
  isr_Term :: u64

text \<open>The zero values a transport returns beside an error.\<close>

definition zero_rv_reply :: RequestVoteReply where
  "zero_rv_reply = \<lparr>rvr_Term = 0, rvr_VoteGranted = False\<rparr>"

definition zero_ae_reply :: AppendEntriesReply where
  "zero_ae_reply = \<lparr>aer_Term = 0, aer_Success = False, aer_ConflictTerm = 0, aer_ConflictIndex = 0\<rparr>"

definition zero_is_reply :: InstallSnapshotReply where
  "zero_is_reply = \<lparr>isr_Term = 0\<rparr>"

end
