(* ===== verification/Files.thy ===== *)
theory Files
  imports Prelude
begin

text \<open>
  The part of \<open>os\<close> and of the file system that \<open>src/raft/persist.go\<close> and
  \<open>src/raft/snapshot.go\<close> use: create, encode into, fsync, rename and remove, with the page cache
  kept apart from the disk. A power cut keeps synced data, may tear unsynced data, and may bring
  back any directory version that was not yet on disk (the sources never fsync the directory). A
  crash of the process alone loses nothing of this state.

  The contents of a file are values of a type \<open>'c\<close> (what \<open>encoding/gob\<close> decodes again) or
  \<open>Torn\<close>, a file a decoder rejects.
\<close>

section \<open>File system\<close>

datatype 'c content = Torn | Whole 'c

text \<open>Outcome the environment scripts for one write-and-rename: success, or the call that fails.\<close>

datatype io_outcome = IoOk | IoCreateFails | IoEncodeFails | IoSyncFails | IoRenameFails

record 'c fs =
  fs_names :: "string \<rightharpoonup> nat"
  fs_older :: "(string \<rightharpoonup> nat) list"
  fs_data :: "nat \<Rightarrow> 'c content"
  fs_disk :: "nat \<Rightarrow> 'c content"
  fs_next :: nat
  fs_script :: "io_outcome list"

datatype 'c fs_op =
    OsCreate string
  | EncodeTo string 'c
  | FSync string
  | OsRename string string
  | OsRemove string

definition fs_link :: "(string \<rightharpoonup> nat) \<Rightarrow> 'c fs \<Rightarrow> 'c fs" where
  "fs_link d f = f\<lparr>fs_names := d, fs_older := fs_names f # fs_older f\<rparr>"

fun exec_op :: "'c fs_op \<Rightarrow> 'c fs \<Rightarrow> 'c fs" where
  "exec_op (OsCreate p) f =
     (case fs_names f p of
        Some i \<Rightarrow> f\<lparr>fs_data := (fs_data f)(i := Torn)\<rparr>
      | None \<Rightarrow> (fs_link ((fs_names f)(p \<mapsto> fs_next f)) f)
          \<lparr>fs_data := (fs_data f)(fs_next f := Torn), fs_disk := (fs_disk f)(fs_next f := Torn),
           fs_next := fs_next f + 1\<rparr>)"
| "exec_op (EncodeTo p c) f =
     (case fs_names f p of Some i \<Rightarrow> f\<lparr>fs_data := (fs_data f)(i := Whole c)\<rparr> | None \<Rightarrow> f)"
| "exec_op (FSync p) f =
     (case fs_names f p of Some i \<Rightarrow> f\<lparr>fs_disk := (fs_disk f)(i := fs_data f i)\<rparr> | None \<Rightarrow> f)"
| "exec_op (OsRename p q) f =
     (case fs_names f p of
        Some i \<Rightarrow> fs_link ((fs_names f)(q \<mapsto> i, p := None)) f
      | None \<Rightarrow> f)"
| "exec_op (OsRemove p) f = fs_link ((fs_names f)(p := None)) f"

definition run_ops :: "'c fs_op list \<Rightarrow> 'c fs \<Rightarrow> 'c fs" where
  "run_ops ops f = fold exec_op ops f"

text \<open>\<open>os.Open\<close> and decode, as the running system sees the file.\<close>

definition read_file :: "'c fs \<Rightarrow> string \<Rightarrow> 'c content option" where
  "read_file f p = map_option (fs_data f) (fs_names f p)"

text \<open>After a power cut: one of the directory versions, synced data, torn or cached unsynced data.\<close>

inductive power_cut :: "'c fs \<Rightarrow> 'c fs \<Rightarrow> bool" where
  "d \<in> insert (fs_names f) (set (fs_older f)) \<Longrightarrow>
   \<forall>i. x i = fs_disk f i \<or> fs_data f i \<noteq> fs_disk f i \<and> x i \<in> {fs_data f i, Torn} \<Longrightarrow>
   power_cut f (f\<lparr>fs_names := d, fs_older := [], fs_data := x, fs_disk := x\<rparr>)"

section \<open>Write to a temporary file, fsync, rename\<close>

definition tmp_of :: "string \<Rightarrow> string" where
  "tmp_of p = p @ ''.tmp''"

definition replace_ops :: "string \<Rightarrow> 'c \<Rightarrow> 'c fs_op list" where
  "replace_ops p c =
     [OsCreate (tmp_of p), EncodeTo (tmp_of p) c, FSync (tmp_of p), OsRename (tmp_of p) p]"

definition next_outcome :: "'c fs \<Rightarrow> io_outcome \<times> 'c fs" where
  "next_outcome f = (case fs_script f of [] \<Rightarrow> (IoOk, f) | x # xs \<Rightarrow> (x, f\<lparr>fs_script := xs\<rparr>))"

text \<open>
  The write pattern of \<open>persist\<close> and \<open>saveSnapshot\<close>, with every early return: a failed
  encode or fsync removes the temporary file, a failed rename leaves it behind.
\<close>

definition atomic_replace :: "string \<Rightarrow> 'c \<Rightarrow> 'c fs \<Rightarrow> bool \<times> 'c fs" where
  "atomic_replace p c f0 =
     (let (res, f) = next_outcome f0; tmp = tmp_of p in
      case res of
        IoCreateFails \<Rightarrow> (False, f)
      | IoEncodeFails \<Rightarrow> (False, run_ops [OsCreate tmp, OsRemove tmp] f)
      | IoSyncFails \<Rightarrow> (False, run_ops [OsCreate tmp, EncodeTo tmp c, OsRemove tmp] f)
      | IoRenameFails \<Rightarrow> (False, run_ops [OsCreate tmp, EncodeTo tmp c, FSync tmp] f)
      | IoOk \<Rightarrow> (True, run_ops (replace_ops p c) f))"

section \<open>Crash safety\<close>

text \<open>Every content a reader may find at \<open>p\<close> after a power cut.\<close>

definition after_cut :: "'c fs \<Rightarrow> string \<Rightarrow> 'c content option set" where
  "after_cut f p = {read_file g p | g. power_cut f g}"

text \<open>
  A set \<open>P\<close> of files kept by this pattern: each is whole and synced in every directory version,
  and its data is never that of a temporary file.
\<close>

definition fs_versions :: "'c fs \<Rightarrow> (string \<rightharpoonup> nat) set" where
  "fs_versions f = insert (fs_names f) (set (fs_older f))"

definition fs_safe :: "string set \<Rightarrow> 'c fs \<Rightarrow> bool" where
  "fs_safe P f \<longleftrightarrow>
     (\<forall>d \<in> fs_versions f.
        (\<forall>q i. d q = Some i \<longrightarrow> i < fs_next f)
        \<and> (\<forall>p \<in> P. \<forall>i. d p = Some i \<longrightarrow> fs_disk f i = fs_data f i \<and> fs_data f i \<noteq> Torn
             \<and> (\<forall>q \<in> P. fs_names f (tmp_of q) \<noteq> Some i \<and> d (tmp_of q) \<noteq> Some i)))"

text \<open>No temporary name is one of the files themselves.\<close>

definition tmp_free :: "string set \<Rightarrow> bool" where
  "tmp_free P \<longleftrightarrow> (\<forall>p \<in> P. \<forall>q \<in> P. tmp_of q \<noteq> p)"

lemma tmp_freeD [simp]: "tmp_free P \<Longrightarrow> p \<in> P \<Longrightarrow> q \<in> P \<Longrightarrow> tmp_of q \<noteq> p"
  "tmp_free P \<Longrightarrow> p \<in> P \<Longrightarrow> q \<in> P \<Longrightarrow> p \<noteq> tmp_of q"
  unfolding tmp_free_def by blast+

lemma tmp_of_inject [simp]: "tmp_of p = tmp_of q \<longleftrightarrow> p = q"
  by (simp add: tmp_of_def)

lemma tmp_of_neq [simp]: "tmp_of p \<noteq> p" "p \<noteq> tmp_of p"
  by (simp_all add: tmp_of_def)

lemma after_cut_iff:
  "r \<in> after_cut f p \<longleftrightarrow>
     (\<exists>d \<in> fs_versions f. case d p of None \<Rightarrow> r = None
        | Some i \<Rightarrow> r = Some (fs_disk f i)
            \<or> fs_data f i \<noteq> fs_disk f i \<and> (r = Some (fs_data f i) \<or> r = Some Torn))"
proof
  assume "r \<in> after_cut f p"
  then obtain g where "power_cut f g" and r: "r = read_file g p"
    by (auto simp: after_cut_def)
  then obtain d x where d: "d \<in> fs_versions f"
    and x: "\<forall>i. x i = fs_disk f i \<or> fs_data f i \<noteq> fs_disk f i \<and> x i \<in> {fs_data f i, Torn}"
    and g: "g = f\<lparr>fs_names := d, fs_older := [], fs_data := x, fs_disk := x\<rparr>"
    by (auto elim!: power_cut.cases simp: fs_versions_def)
  have "case d p of None \<Rightarrow> r = None
        | Some i \<Rightarrow> r = Some (fs_disk f i)
            \<or> fs_data f i \<noteq> fs_disk f i \<and> (r = Some (fs_data f i) \<or> r = Some Torn)"
    using x by (auto simp: r g read_file_def split: option.split)
  with d show "\<exists>d \<in> fs_versions f. case d p of None \<Rightarrow> r = None
        | Some i \<Rightarrow> r = Some (fs_disk f i)
            \<or> fs_data f i \<noteq> fs_disk f i \<and> (r = Some (fs_data f i) \<or> r = Some Torn)"
    by blast
next
  assume "\<exists>d \<in> fs_versions f. case d p of None \<Rightarrow> r = None
        | Some i \<Rightarrow> r = Some (fs_disk f i)
            \<or> fs_data f i \<noteq> fs_disk f i \<and> (r = Some (fs_data f i) \<or> r = Some Torn)"
  then obtain d where d: "d \<in> fs_versions f"
    and r: "case d p of None \<Rightarrow> r = None
        | Some i \<Rightarrow> r = Some (fs_disk f i)
            \<or> fs_data f i \<noteq> fs_disk f i \<and> (r = Some (fs_data f i) \<or> r = Some Torn)"
    by blast
  let ?x = "case d p of None \<Rightarrow> fs_disk f | Some i \<Rightarrow> (fs_disk f)(i := the r)"
  have "power_cut f (f\<lparr>fs_names := d, fs_older := [], fs_data := ?x, fs_disk := ?x\<rparr>)"
    using d r by (intro power_cut.intros) (auto simp: fs_versions_def split: option.splits)
  moreover have "read_file (f\<lparr>fs_names := d, fs_older := [], fs_data := ?x, fs_disk := ?x\<rparr>) p = r"
    using r by (auto simp: read_file_def split: option.splits)
  ultimately show "r \<in> after_cut f p"
    unfolding after_cut_def by (intro CollectI exI conjI) (erule sym)
qed

lemma fs_safeI:
  assumes "\<And>d q i. d \<in> fs_versions f \<Longrightarrow> d q = Some i \<Longrightarrow> i < fs_next f"
    and "\<And>d p i. d \<in> fs_versions f \<Longrightarrow> p \<in> P \<Longrightarrow> d p = Some i \<Longrightarrow> fs_disk f i = fs_data f i \<and> fs_data f i \<noteq> Torn"
    and "\<And>d p q i. d \<in> fs_versions f \<Longrightarrow> p \<in> P \<Longrightarrow> d p = Some i \<Longrightarrow> q \<in> P \<Longrightarrow>
           fs_names f (tmp_of q) \<noteq> Some i \<and> d (tmp_of q) \<noteq> Some i"
  shows "fs_safe P f"
  using assms unfolding fs_safe_def by blast

lemma fs_safeD1: "fs_safe P f \<Longrightarrow> d \<in> fs_versions f \<Longrightarrow> d q = Some i \<Longrightarrow> i < fs_next f"
  unfolding fs_safe_def by blast

lemma fs_safeD2:
  "fs_safe P f \<Longrightarrow> d \<in> fs_versions f \<Longrightarrow> p \<in> P \<Longrightarrow> d p = Some i \<Longrightarrow>
     fs_disk f i = fs_data f i \<and> fs_data f i \<noteq> Torn"
  unfolding fs_safe_def by blast

lemma fs_safeD3:
  "fs_safe P f \<Longrightarrow> d \<in> fs_versions f \<Longrightarrow> p \<in> P \<Longrightarrow> d p = Some i \<Longrightarrow> q \<in> P \<Longrightarrow>
     fs_names f (tmp_of q) \<noteq> Some i \<and> d (tmp_of q) \<noteq> Some i"
  unfolding fs_safe_def by blast

lemma after_cut_safe:
  assumes safe: "fs_safe P f" and p: "p \<in> P"
  shows "after_cut f p = (\<lambda>d. map_option (fs_data f) (d p)) ` fs_versions f"
proof -
  have "(case d p of None \<Rightarrow> r = None
        | Some i \<Rightarrow> r = Some (fs_disk f i)
            \<or> fs_data f i \<noteq> fs_disk f i \<and> (r = Some (fs_data f i) \<or> r = Some Torn))
        \<longleftrightarrow> r = map_option (fs_data f) (d p)" if "d \<in> fs_versions f" for d r
    using fs_safeD2 [OF safe that p] by (cases "d p") auto
  then show ?thesis
    by (auto simp: after_cut_iff cong: bex_cong)
qed

lemma fs_versions_link [simp]: "fs_versions (fs_link d f) = insert d (fs_versions f)"
  by (auto simp: fs_versions_def fs_link_def)

lemma fs_link_simps [simp]:
  "fs_names (fs_link d f) = d" "fs_data (fs_link d f) = fs_data f" "fs_disk (fs_link d f) = fs_disk f"
  "fs_next (fs_link d f) = fs_next f" "fs_script (fs_link d f) = fs_script f"
  by (simp_all add: fs_link_def)

lemma fs_versions_upd [simp]:
  "fs_versions (f\<lparr>fs_data := x\<rparr>) = fs_versions f"
  "fs_versions (f\<lparr>fs_disk := x\<rparr>) = fs_versions f"
  "fs_versions (f\<lparr>fs_next := n\<rparr>) = fs_versions f"
  "fs_versions (f\<lparr>fs_script := sc\<rparr>) = fs_versions f"
  by (simp_all add: fs_versions_def)

lemma fs_names_version [simp]: "fs_names f \<in> fs_versions f"
  by (simp add: fs_versions_def)

lemma cut_frame:
  assumes "fs_safe P f" and "fs_safe P g" and p: "p \<in> P"
    and vers: "(\<lambda>d. d p) ` fs_versions g = (\<lambda>d. d p) ` fs_versions f"
    and data: "\<And>d i. d \<in> fs_versions f \<Longrightarrow> d p = Some i \<Longrightarrow> fs_data g i = fs_data f i"
  shows "after_cut g p = after_cut f p"
proof -
  have "after_cut g p = map_option (fs_data g) ` (\<lambda>d. d p) ` fs_versions g"
    by (simp add: after_cut_safe [OF assms(2) p] image_image)
  also have "\<dots> = map_option (fs_data g) ` (\<lambda>d. d p) ` fs_versions f"
    by (simp only: vers)
  also have "\<dots> = map_option (fs_data f) ` (\<lambda>d. d p) ` fs_versions f"
    using data by (intro image_cong refl) (auto intro!: option.map_cong0)
  also have "\<dots> = after_cut f p"
    by (simp add: after_cut_safe [OF assms(1) p] image_image)
  finally show ?thesis .
qed

text \<open>Creating, writing, syncing and removing a temporary file touch only its own data.\<close>

lemma safe_create:
  assumes safe: "fs_safe P f" and tf: "tmp_free P" and q: "q \<in> P"
  shows "fs_safe P (exec_op (OsCreate (tmp_of q)) f)"
    and "p \<in> P \<Longrightarrow> after_cut (exec_op (OsCreate (tmp_of q)) f) p = after_cut f p"
proof -
  note D = fs_safeD1 [OF safe] fs_safeD2 [OF safe] fs_safeD3 [OF safe]
  have fresh: "i \<noteq> fs_next f" if "d \<in> fs_versions f" "d r = Some i" for d r i
    using D(1) [OF that] by simp
  show safe': "fs_safe P (exec_op (OsCreate (tmp_of q)) f)"
  proof (cases "fs_names f (tmp_of q)")
    case None
    show ?thesis
    proof (rule fs_safeI)
      fix d r i
      assume "d \<in> fs_versions (exec_op (OsCreate (tmp_of q)) f)" "d r = Some i"
      with None show "i < fs_next (exec_op (OsCreate (tmp_of q)) f)"
        using D(1) [of "fs_names f" r i] D(1) [of d r i] by (auto split: if_splits)
    next
      fix d p i
      assume "d \<in> fs_versions (exec_op (OsCreate (tmp_of q)) f)" "p \<in> P" "d p = Some i"
      with None tf q show "fs_disk (exec_op (OsCreate (tmp_of q)) f) i = fs_data (exec_op (OsCreate (tmp_of q)) f) i
          \<and> fs_data (exec_op (OsCreate (tmp_of q)) f) i \<noteq> Torn"
        using D(2) [of "fs_names f" p i] D(2) [of d p i] fresh [of "fs_names f" p i] fresh [of d p i]
        by (auto split: if_splits)
    next
      fix d p r i
      assume "d \<in> fs_versions (exec_op (OsCreate (tmp_of q)) f)" "p \<in> P" "d p = Some i" "r \<in> P"
      with None tf q show "fs_names (exec_op (OsCreate (tmp_of q)) f) (tmp_of r) \<noteq> Some i \<and> d (tmp_of r) \<noteq> Some i"
        using D(3) [of "fs_names f" p i r] D(3) [of d p i r] fresh [of "fs_names f" p i] fresh [of d p i]
        by (auto split: if_splits)
    qed
  next
    case (Some j)
    with q show ?thesis
      using D by (intro fs_safeI) auto
  qed
  assume p: "p \<in> P"
  show "after_cut (exec_op (OsCreate (tmp_of q)) f) p = after_cut f p"
  proof (rule cut_frame [OF safe safe' p])
    show "(\<lambda>d. d p) ` fs_versions (exec_op (OsCreate (tmp_of q)) f) = (\<lambda>d. d p) ` fs_versions f"
      using tf p q by (auto simp: image_iff split: option.split)
  next
    fix d i
    assume "d \<in> fs_versions f" "d p = Some i"
    with D(3) [of d p i q] fresh [of d p i] p q show "fs_data (exec_op (OsCreate (tmp_of q)) f) i = fs_data f i"
      by (auto split: option.split)
  qed
qed

lemma safe_encode:
  assumes safe: "fs_safe P f" and q: "q \<in> P"
  shows "fs_safe P (exec_op (EncodeTo (tmp_of q) c) f)"
    and "p \<in> P \<Longrightarrow> after_cut (exec_op (EncodeTo (tmp_of q) c) f) p = after_cut f p"
proof -
  note D = fs_safeD1 [OF safe] fs_safeD2 [OF safe] fs_safeD3 [OF safe]
  show safe': "fs_safe P (exec_op (EncodeTo (tmp_of q) c) f)"
    using D q by (intro fs_safeI) (auto split: option.splits)
  assume p: "p \<in> P"
  show "after_cut (exec_op (EncodeTo (tmp_of q) c) f) p = after_cut f p"
    using D(3) p q by (intro cut_frame [OF safe safe' p]) (force split: option.splits)+
qed

lemma safe_fsync:
  assumes safe: "fs_safe P f" and q: "q \<in> P"
  shows "fs_safe P (exec_op (FSync (tmp_of q)) f)"
    and "p \<in> P \<Longrightarrow> after_cut (exec_op (FSync (tmp_of q)) f) p = after_cut f p"
proof -
  note D = fs_safeD1 [OF safe] fs_safeD2 [OF safe] fs_safeD3 [OF safe]
  show safe': "fs_safe P (exec_op (FSync (tmp_of q)) f)"
    using D q by (intro fs_safeI) (auto split: option.splits)
  assume p: "p \<in> P"
  show "after_cut (exec_op (FSync (tmp_of q)) f) p = after_cut f p"
    by (intro cut_frame [OF safe safe' p]) (auto split: option.splits)
qed

lemma safe_remove:
  assumes safe: "fs_safe P f" and tf: "tmp_free P" and q: "q \<in> P"
  shows "fs_safe P (exec_op (OsRemove (tmp_of q)) f)"
    and "p \<in> P \<Longrightarrow> after_cut (exec_op (OsRemove (tmp_of q)) f) p = after_cut f p"
proof -
  note D = fs_safeD1 [OF safe] fs_safeD2 [OF safe] fs_safeD3 [OF safe]
    fs_safeD2 [OF safe fs_names_version] fs_safeD1 [OF safe fs_names_version]
    fs_safeD3 [OF safe fs_names_version]
  show safe': "fs_safe P (exec_op (OsRemove (tmp_of q)) f)"
    using D tf q by (intro fs_safeI) (auto split: if_splits)
  assume p: "p \<in> P"
  show "after_cut (exec_op (OsRemove (tmp_of q)) f) p = after_cut f p"
    using tf p q by (intro cut_frame [OF safe safe' p]) (auto simp: image_iff)
qed

text \<open>The rename publishes a synced temporary file.\<close>

lemma safe_rename:
  assumes safe: "fs_safe P f" and tf: "tmp_free P" and q: "q \<in> P"
    and tmp: "fs_names f (tmp_of q) = Some i" "fs_data f i = Whole c" "fs_disk f i = Whole c"
    and inj: "\<And>r. fs_names f r = Some i \<Longrightarrow> r = tmp_of q"
  shows "fs_safe P (exec_op (OsRename (tmp_of q) q) f)"
    and "p \<in> P \<Longrightarrow> after_cut (exec_op (OsRename (tmp_of q) q) f) p =
           (if p = q then insert (Some (Whole c)) (after_cut f p) else after_cut f p)"
proof -
  let ?g = "exec_op (OsRename (tmp_of q) q) f" and ?d = "(fs_names f)(q \<mapsto> i, tmp_of q := None)"
  have vers: "fs_versions ?g = insert ?d (fs_versions f)" and names: "fs_names ?g = ?d"
    and same: "fs_data ?g = fs_data f" "fs_disk ?g = fs_disk f" "fs_next ?g = fs_next f"
    using tmp(1) by simp_all
  note D = fs_safeD1 [OF safe] fs_safeD2 [OF safe] fs_safeD3 [OF safe]
  have qtmp: "q \<noteq> tmp_of r" if "r \<in> P" for r
    using tf q that by simp
  have new: "?d (tmp_of r) \<noteq> Some j" if "d \<in> fs_versions f" "p \<in> P" "d p = Some j" "r \<in> P" for d p j r
    using D(3) [OF that] qtmp [OF that(4)] by (auto split: if_splits)
  show safe': "fs_safe P ?g"
  proof (rule fs_safeI)
    fix d r j
    assume "d \<in> fs_versions ?g" "d r = Some j"
    with tmp(1) show "j < fs_next ?g"
      using D(1) [of "fs_names f" r j] D(1) [of d r j] D(1) [of "fs_names f" "tmp_of q" i]
      unfolding vers same by (auto split: if_splits)
  next
    fix d p j
    assume "d \<in> fs_versions ?g" "p \<in> P" "d p = Some j"
    with tmp show "fs_disk ?g j = fs_data ?g j \<and> fs_data ?g j \<noteq> Torn"
      using D(2) [of "fs_names f" p j] D(2) [of d p j]
      unfolding vers same by (auto split: if_splits)
  next
    fix d p r j
    assume d: "d \<in> fs_versions ?g" and pj: "p \<in> P" "d p = Some j" and r: "r \<in> P"
    show "fs_names ?g (tmp_of r) \<noteq> Some j \<and> d (tmp_of r) \<noteq> Some j"
    proof (cases "d \<in> fs_versions f")
      case True
      with new D(3) pj r show ?thesis unfolding names by blast
    next
      case False
      with d have d: "d = ?d" unfolding vers by simp
      have "?d (tmp_of r) \<noteq> Some j"
      proof (cases "p = q")
        case True
        with pj(2) d have "j = i" by (simp split: if_splits)
        with inj [of "tmp_of r"] qtmp [OF r] show ?thesis by auto
      next
        case False
        with pj(2) d have "fs_names f p = Some j" by (simp split: if_splits)
        with new [OF fs_names_version pj(1) _ r] show ?thesis by blast
      qed
      with d names show ?thesis by simp
    qed
  qed
  assume p: "p \<in> P"
  show "after_cut ?g p = (if p = q then insert (Some (Whole c)) (after_cut f p) else after_cut f p)"
    unfolding after_cut_safe [OF safe' p] after_cut_safe [OF safe p] vers same
    using tmp tf q p by (auto simp: image_iff intro!: bexI [of _ "fs_names f"])
qed

section \<open>Independence of different files\<close>

definition fs_sep :: "'c fs \<Rightarrow> bool" where
  "fs_sep f \<longleftrightarrow> (\<forall>q i. fs_names f q = Some i \<longrightarrow> i < fs_next f)
     \<and> (\<forall>q r i. fs_names f q = Some i \<longrightarrow> fs_names f r = Some i \<longrightarrow> q = r)"

fun op_touches :: "'c fs_op \<Rightarrow> string set" where
  "op_touches (OsCreate p) = {p}"
| "op_touches (EncodeTo p c) = {p}"
| "op_touches (FSync p) = {p}"
| "op_touches (OsRename p q) = {p, q}"
| "op_touches (OsRemove p) = {p}"

lemma fs_sepI:
  "(\<And>q i. fs_names f q = Some i \<Longrightarrow> i < fs_next f) \<Longrightarrow>
   (\<And>q r i. fs_names f q = Some i \<Longrightarrow> fs_names f r = Some i \<Longrightarrow> q = r) \<Longrightarrow> fs_sep f"
  unfolding fs_sep_def by blast

lemma fs_sepD:
  "fs_sep f \<Longrightarrow> fs_names f q = Some i \<Longrightarrow> i < fs_next f"
  "fs_sep f \<Longrightarrow> fs_names f q = Some i \<Longrightarrow> fs_names f r = Some i \<Longrightarrow> q = r"
  unfolding fs_sep_def by blast+

lemma exec_op_sep: "fs_sep f \<Longrightarrow> fs_sep (exec_op x f)"
proof (cases x)
  case (OsCreate p)
  assume sep: "fs_sep f"
  show ?thesis
  proof (cases "fs_names f p")
    case None
    have "i \<noteq> fs_next f" if "fs_names f q = Some i" for q i
      using fs_sepD(1) [OF sep that] by simp
    with None OsCreate show ?thesis
      by (intro fs_sepI)
        (auto dest: fs_sepD(2) [OF sep] less_SucI [OF fs_sepD(1) [OF sep]] split: if_splits)
  next
    case (Some i)
    with OsCreate sep show ?thesis by (simp add: fs_sep_def)
  qed
next
  case (OsRename p q)
  assume sep: "fs_sep f"
  show ?thesis
    using OsRename sep
    by (cases "fs_names f p")
      (auto intro!: fs_sepI dest: fs_sepD(1) [OF sep] fs_sepD(2) [OF sep] split: if_splits)
next
  case (OsRemove p)
  assume sep: "fs_sep f"
  show ?thesis
    using OsRemove by (auto intro!: fs_sepI dest: fs_sepD(1) [OF sep] fs_sepD(2) [OF sep] split: if_splits)
qed (simp_all add: fs_sep_def split: option.split)

lemma exec_op_frame:
  assumes sep: "fs_sep f" and q: "q \<notin> op_touches x"
  shows "read_file (exec_op x f) q = read_file f q"
proof (cases "fs_names f q")
  case None
  with q show ?thesis
    by (cases x) (simp_all add: read_file_def split: option.split)
next
  case (Some j)
  have "i \<noteq> j" if "fs_names f p = Some i" "p \<noteq> q" for p i
    using fs_sepD(2) [OF sep Some, of p] that by auto
  moreover have "j \<noteq> fs_next f"
    using fs_sepD(1) [OF sep Some] by simp
  ultimately show ?thesis
    using q Some by (cases x) (auto simp: read_file_def split: option.split)
qed

lemma run_ops_frame:
  "fs_sep f \<Longrightarrow> \<forall>x \<in> set xs. q \<notin> op_touches x \<Longrightarrow>
     fs_sep (run_ops xs f) \<and> read_file (run_ops xs f) q = read_file f q"
  unfolding run_ops_def
  by (induction xs arbitrary: f) (auto simp: exec_op_sep exec_op_frame simp del: exec_op.simps)

lemma sep_script [simp]: "fs_sep (f\<lparr>fs_script := xs\<rparr>) = fs_sep f"
  by (simp add: fs_sep_def)

lemma run_ops_sep: "fs_sep f \<Longrightarrow> fs_sep (run_ops xs f)"
  unfolding run_ops_def
  by (induction xs arbitrary: f) (auto simp: exec_op_sep simp del: exec_op.simps)

lemma next_outcome_cases:
  obtains res xs where "next_outcome f = (res, f\<lparr>fs_script := xs\<rparr>)"
proof (cases "fs_script f")
  case Nil
  then have "next_outcome f = (IoOk, f\<lparr>fs_script := []\<rparr>)" by (simp add: next_outcome_def)
  then show ?thesis by (rule that)
next
  case (Cons x xs)
  then show ?thesis by (intro that) (simp add: next_outcome_def)
qed

lemma safe_script [simp]: "fs_safe P (f\<lparr>fs_script := xs\<rparr>) = fs_safe P f"
  by (simp add: fs_safe_def)

lemma after_cut_script [simp]: "after_cut (f\<lparr>fs_script := xs\<rparr>) p = after_cut f p"
  by (intro set_eqI) (simp add: after_cut_iff cong: option.case_cong)

lemma read_script [simp]: "read_file (f\<lparr>fs_script := xs\<rparr>) p = read_file f p"
  by (simp add: read_file_def)

section \<open>The write-and-rename sequence\<close>

lemma create_tmp: "\<exists>i. fs_names (exec_op (OsCreate t) f) t = Some i"
  by (simp split: option.split)

text \<open>Every prefix of the sequence is safe: a power cut shows an old value or the new one.\<close>

lemma replace_prefix:
  assumes safe: "fs_safe P f" and sep: "fs_sep f" and tf: "tmp_free P" and q: "q \<in> P" and p: "p \<in> P"
  shows "fs_safe P (run_ops (take k (replace_ops q c)) f)
     \<and> after_cut (run_ops (take k (replace_ops q c)) f) p
         \<subseteq> (if p = q then insert (Some (Whole c)) (after_cut f p) else after_cut f p)"
proof -
  define f1 where "f1 = exec_op (OsCreate (tmp_of q)) f"
  define f2 where "f2 = exec_op (EncodeTo (tmp_of q) c) f1"
  define f3 where "f3 = exec_op (FSync (tmp_of q)) f2"
  define f4 where "f4 = exec_op (OsRename (tmp_of q) q) f3"
  have s1: "fs_safe P f1" "after_cut f1 p = after_cut f p"
    using safe_create [OF safe tf q] p by (simp_all only: f1_def)
  have s2: "fs_safe P f2" "after_cut f2 p = after_cut f p"
    using safe_encode [OF s1(1) q] s1(2) p by (simp_all only: f2_def)
  have s3: "fs_safe P f3" "after_cut f3 p = after_cut f p"
    using safe_fsync [OF s2(1) q] s2(2) p by (simp_all only: f3_def)
  obtain i where "fs_names f1 (tmp_of q) = Some i"
    using create_tmp by (auto simp: f1_def)
  then have tmp: "fs_names f3 (tmp_of q) = Some i" "fs_data f3 i = Whole c" "fs_disk f3 i = Whole c"
    by (simp_all add: f2_def f3_def)
  have "fs_sep f3"
    unfolding f1_def f2_def f3_def by (intro exec_op_sep sep)
  then have "\<And>r. fs_names f3 r = Some i \<Longrightarrow> r = tmp_of q"
    using fs_sepD(2) tmp(1) by blast
  from safe_rename [OF s3(1) tf q tmp this]
  have s4: "fs_safe P f4" "after_cut f4 p =
      (if p = q then insert (Some (Whole c)) (after_cut f p) else after_cut f p)"
    using s3(2) p by (simp_all only: f4_def)
  have "run_ops (take k (replace_ops q c)) f \<in> {f, f1, f2, f3, f4}"
    by (auto simp: run_ops_def replace_ops_def take_Cons' f1_def f2_def f3_def f4_def
        simp del: exec_op.simps)
  then show ?thesis
    using safe s1 s2 s3 s4 by auto
qed

lemma read_replace: "read_file (run_ops (replace_ops p c) f) p = Some (Whole c)"
  by (auto simp: run_ops_def replace_ops_def read_file_def split: option.split)

text \<open>\<open>atomic_replace\<close> keeps all files safe and reads back the new value exactly when it succeeds.\<close>

lemma atomic_replace_sep: "fs_sep f \<Longrightarrow> fs_sep (snd (atomic_replace p c f))"
proof -
  assume "fs_sep f"
  obtain res xs where no: "next_outcome f = (res, f\<lparr>fs_script := xs\<rparr>)" by (rule next_outcome_cases)
  with \<open>fs_sep f\<close> show ?thesis
    by (cases res) (simp_all add: atomic_replace_def no Let_def run_ops_sep)
qed

lemma atomic_replace_safe:
  assumes "fs_safe P f" and "fs_sep f" and tf: "tmp_free P" and q: "q \<in> P" and p: "p \<in> P"
  shows "fs_safe P (snd (atomic_replace q c f))
     \<and> after_cut (snd (atomic_replace q c f)) p
         \<subseteq> (if p = q then insert (Some (Whole c)) (after_cut f p) else after_cut f p)"
proof -
  obtain res xs where no: "next_outcome f = (res, f\<lparr>fs_script := xs\<rparr>)" by (rule next_outcome_cases)
  define g where "g = f\<lparr>fs_script := xs\<rparr>"
  have sg: "fs_safe P g" "fs_sep g" and cg: "after_cut g p = after_cut f p"
    using assms(1,2) by (simp_all add: g_def)
  note create = safe_create [OF sg(1) tf q]
  note enc = safe_encode [OF create(1) q, where c = c]
  from replace_prefix [OF sg tf q p, of 4 c] replace_prefix [OF sg tf q p, of 3 c]
    safe_remove [OF create(1) tf q] safe_remove [OF enc(1) tf q] create enc sg cg p
  show ?thesis
    by (cases res; cases "p = q")
      (simp_all add: atomic_replace_def no run_ops_def replace_ops_def Let_def subset_insertI
        del: exec_op.simps flip: g_def)
qed

lemma atomic_replace_frame:
  assumes "fs_sep f" and "q \<notin> {p, tmp_of p}"
  shows "read_file (snd (atomic_replace p c f)) q = read_file f q"
proof -
  obtain res xs where no: "next_outcome f = (res, f\<lparr>fs_script := xs\<rparr>)" by (rule next_outcome_cases)
  then show ?thesis
    using assms
    by (cases res) (simp_all add: atomic_replace_def Let_def replace_ops_def run_ops_frame)
qed

lemma atomic_replace_read:
  assumes "fs_sep f"
  shows "read_file (snd (atomic_replace p c f)) p =
           (if fst (atomic_replace p c f) then Some (Whole c) else read_file f p)"
proof -
  obtain res xs where no: "next_outcome f = (res, f\<lparr>fs_script := xs\<rparr>)" by (rule next_outcome_cases)
  then show ?thesis
    using assms
    by (cases res) (simp_all add: atomic_replace_def Let_def read_replace run_ops_frame)
qed

text \<open>With an empty script no write fails.\<close>

lemma atomic_replace_no_faults:
  "fs_script f = [] \<Longrightarrow> fst (atomic_replace p c f)"
  by (simp add: atomic_replace_def next_outcome_def)

lemma exec_op_script [simp]: "fs_script (exec_op x f) = fs_script f"
  by (cases x) (simp_all split: option.split)

lemma run_ops_script [simp]: "fs_script (run_ops xs f) = fs_script f"
  unfolding run_ops_def by (induction xs arbitrary: f) (simp_all del: exec_op.simps)

lemma atomic_replace_script: "fs_script f = [] \<Longrightarrow> fs_script (snd (atomic_replace p c f)) = []"
  by (simp add: atomic_replace_def next_outcome_def)

section \<open>The contract of a crash-safe file\<close>

text \<open>
  What the node relies on: a store either takes effect or leaves the old value, and a power cut at
  any time shows one of the values that were stored.
\<close>

locale atomic_file =
  fixes inv :: "'f \<Rightarrow> bool"
    and store :: "'c \<Rightarrow> 'f \<Rightarrow> bool \<times> 'f"
    and load :: "'f \<Rightarrow> 'c content option"
    and cuts :: "'f \<Rightarrow> 'c content option set"
  assumes store_inv: "inv f \<Longrightarrow> inv (snd (store c f))"
    and store_load: "inv f \<Longrightarrow>
          load (snd (store c f)) = (if fst (store c f) then Some (Whole c) else load f)"
    and store_cuts: "inv f \<Longrightarrow> cuts (snd (store c f)) \<subseteq> insert (Some (Whole c)) (cuts f)"
begin

lemma stores_inv: "inv f \<Longrightarrow> inv (fold (\<lambda>c f. snd (store c f)) cs f)"
  by (induction cs arbitrary: f) (auto simp: store_inv)

lemma stores_cuts:
  "inv f \<Longrightarrow> cuts (fold (\<lambda>c f. snd (store c f)) cs f) \<subseteq> (\<lambda>c. Some (Whole c)) ` set cs \<union> cuts f"
proof (induction cs arbitrary: f)
  case Nil
  then show ?case by simp
next
  case (Cons c cs)
  from Cons.IH [OF store_inv [OF Cons.prems]] store_cuts [OF Cons.prems, of c] show ?case
    by auto
qed

lemma stores_never_torn:
  "inv f \<Longrightarrow> Some Torn \<notin> cuts f \<Longrightarrow> Some Torn \<notin> cuts (fold (\<lambda>c f. snd (store c f)) cs f)"
  using stores_cuts [of f cs] by auto

end

section \<open>An empty file system\<close>

definition fs_empty :: "'c fs" where
  "fs_empty = \<lparr>fs_names = Map.empty, fs_older = [], fs_data = (\<lambda>_. Torn), fs_disk = (\<lambda>_. Torn),
               fs_next = 0, fs_script = []\<rparr>"

lemma fs_empty_ok [simp]: "fs_safe P fs_empty" "fs_sep fs_empty" "fs_script fs_empty = []"
    "read_file fs_empty p = None"
  by (simp_all add: fs_empty_def fs_safe_def fs_versions_def fs_sep_def read_file_def)

end
