(* ===== verification/Node.thy ===== *)
theory Node
  imports Rpc Files
begin

text \<open>
  The state of a node (\<open>src/raft/node.go\<close>), its persistent state (\<open>src/raft/persist.go\<close>,
  \<open>saveSnapshot\<close> and \<open>loadSnapshotFile\<close> of \<open>src/raft/snapshot.go\<close>) and the state
  transitions of \<open>src/raft/election.go\<close>. Every operation that the sources run with \<open>n.mu\<close> held is
  one function from node to node. Channels of capacity 1 are a flag or an option; the clock is an
  argument; files are the component \<open>disk\<close>, whose script decides which writes fail.
\<close>

section \<open>Time\<close>

text \<open>Instants in nanoseconds of the Unix epoch; \<open>time.Time{}\<close> is the year 1.\<close>

type_synonym instant = int
type_synonym duration = int

definition zero_time :: instant where
  "zero_time = - 62135596800 * 10 ^ 9"

definition wrap64 :: "int \<Rightarrow> int" where
  "wrap64 x = (x + 2 ^ 63) mod 2 ^ 64 - 2 ^ 63"

text \<open>\<open>time.Duration(ms) * time.Millisecond\<close>.\<close>

definition millis :: "int \<Rightarrow> duration" where
  "millis ms = wrap64 (ms * 1000000)"

text \<open>\<open>a.Sub(b)\<close>: the difference, saturated at the ends of \<open>time.Duration\<close>.\<close>

definition time_sub :: "instant \<Rightarrow> instant \<Rightarrow> duration" where
  "time_sub a b = max (- (2 ^ 63)) (min (2 ^ 63 - 1) (a - b))"

section \<open>Data\<close>

datatype NodeState = Follower | Candidate | Leader

fun NodeState_String :: "NodeState \<Rightarrow> string" where
  "NodeState_String Follower = ''follower''"
| "NodeState_String Candidate = ''candidate''"
| "NodeState_String Leader = ''leader''"

record Config =
  cfg_ID :: string
  cfg_Peers :: "string list"
  cfg_ElectionTimeoutMinMs :: int
  cfg_ElectionTimeoutMaxMs :: int
  cfg_HeartbeatIntervalMs :: int
  cfg_SelfAddr :: string

record PersistedState =
  ps_CurrentTerm :: u64
  ps_VotedFor :: string
  ps_Entries :: "LogEntry list"

record snapshotFile =
  sf_Index :: u64
  sf_Term :: u64
  sf_Data :: bytes

record snapshotToApply =
  sta_index :: u64
  sta_term :: u64
  sta_data :: bytes

text \<open>What the two files of the data directory hold.\<close>

datatype blob = StateBlob PersistedState | SnapBlob snapshotFile

record RaftNode =
  node_id :: string
  peers :: "string list"
  currentTerm :: u64
  votedFor :: string
  rlog :: Log
  nstate :: NodeState
  commitIndex :: u64
  lastApplied :: u64
  nextIndex :: "string \<rightharpoonup> u64"
  matchIndex :: "string \<rightharpoonup> u64"
  lastHeardFrom :: "(string \<rightharpoonup> instant) option"
  config :: Config
  leaderID :: string
  lastLeaderContact :: instant
  snapshotData :: bytes
  snapshotNotifyC :: "snapshotToApply option"
  stopCh_closed :: bool
  heartbeatC :: bool
  commitNotifyC :: bool
  heartbeatsRecv :: u64
  heartbeatsSent :: u64
  disk :: "blob fs"

text \<open>Zero timeouts of the configuration mean the defaults.\<close>

definition cfg_defaults :: "Config \<Rightarrow> Config" where
  "cfg_defaults cfg =
     (let c1 = (if cfg_ElectionTimeoutMinMs cfg = 0 then cfg\<lparr>cfg_ElectionTimeoutMinMs := 150\<rparr> else cfg);
          c2 = (if cfg_ElectionTimeoutMaxMs c1 = 0 then c1\<lparr>cfg_ElectionTimeoutMaxMs := 300\<rparr> else c1)
      in if cfg_HeartbeatIntervalMs c2 = 0 then c2\<lparr>cfg_HeartbeatIntervalMs := 50\<rparr> else c2)"

text \<open>A new node on a data directory; the files it finds there are the second argument.\<close>

definition NewRaftNode :: "Config \<Rightarrow> blob fs \<Rightarrow> RaftNode" where
  "NewRaftNode cfg0 d =
     (let cfg = cfg_defaults cfg0 in
      \<lparr>node_id = cfg_ID cfg, peers = cfg_Peers cfg, currentTerm = 0, votedFor = '''',
       rlog = newLog, nstate = Follower, commitIndex = 0, lastApplied = 0,
       nextIndex = Map.empty, matchIndex = Map.empty, lastHeardFrom = None,
       config = cfg, leaderID = '''', lastLeaderContact = zero_time,
       snapshotData = [], snapshotNotifyC = None, stopCh_closed = False,
       heartbeatC = False, commitNotifyC = False, heartbeatsRecv = 0, heartbeatsSent = 0,
       disk = d\<rparr>)"

section \<open>Persistent state\<close>

definition state_path :: string where
  "state_path = ''raft-state.bin''"

definition snapshot_path :: string where
  "snapshot_path = ''raft-snapshot.bin''"

definition persisted_of :: "RaftNode \<Rightarrow> PersistedState" where
  "persisted_of n = \<lparr>ps_CurrentTerm = currentTerm n, ps_VotedFor = votedFor n,
                     ps_Entries = log_entries (rlog n)\<rparr>"

text \<open>Every failure of \<open>persist\<close> is a silent return.\<close>

definition persist :: "RaftNode \<Rightarrow> RaftNode" where
  "persist n = n\<lparr>disk := snd (atomic_replace state_path (StateBlob (persisted_of n)) (disk n))\<rparr>"

definition saveSnapshot :: "u64 \<Rightarrow> u64 \<Rightarrow> bytes \<Rightarrow> RaftNode \<Rightarrow> bool \<times> RaftNode" where
  "saveSnapshot index trm data n =
     (let (ok, d) = atomic_replace snapshot_path
                      (SnapBlob \<lparr>sf_Index = index, sf_Term = trm, sf_Data = data\<rparr>) (disk n)
      in (ok, n\<lparr>disk := d\<rparr>))"

text \<open>
  \<open>loadState\<close>: a missing file is a fresh node; a file the decoder rejects is an error that \<open>Run\<close>
  ignores. \<open>LoadPanics\<close>: a decoded state without entries would leave \<open>entries[0]\<close> out of range
  at the next use of the log.
\<close>

datatype load_result = LoadFresh | LoadError | Loaded | LoadPanics

definition loadState :: "RaftNode \<Rightarrow> load_result \<times> RaftNode" where
  "loadState n =
     (case read_file (disk n) state_path of
        None \<Rightarrow> (LoadFresh, n)
      | Some (Whole (StateBlob st)) \<Rightarrow>
          (case ps_Entries st of
             [] \<Rightarrow> (LoadPanics, n\<lparr>currentTerm := ps_CurrentTerm st, votedFor := ps_VotedFor st\<rparr>)
           | e # es \<Rightarrow> (Loaded, n\<lparr>currentTerm := ps_CurrentTerm st, votedFor := ps_VotedFor st,
                           rlog := \<lparr>log_sentinel = e, log_tail = es\<rparr>\<rparr>))
      | Some _ \<Rightarrow> (LoadError, n))"

text \<open>\<open>index = 0\<close> and no error when there is no file; \<open>None\<close> is an error.\<close>

definition loadSnapshotFile :: "RaftNode \<Rightarrow> (u64 \<times> u64 \<times> bytes) option" where
  "loadSnapshotFile n =
     (case read_file (disk n) snapshot_path of
        None \<Rightarrow> Some (0, 0, [])
      | Some (Whole (SnapBlob sf)) \<Rightarrow> Some (sf_Index sf, sf_Term sf, sf_Data sf)
      | Some _ \<Rightarrow> None)"

text \<open>The two files of the data directory, both written by \<open>atomic_replace\<close>.\<close>

definition kept_files :: "string set" where
  "kept_files = {state_path, snapshot_path}"

definition disk_ok :: "'c fs \<Rightarrow> bool" where
  "disk_ok f \<longleftrightarrow> fs_safe kept_files f \<and> fs_sep f"

lemma kept_files_paths [simp]:
  "tmp_free kept_files" "state_path \<in> kept_files" "snapshot_path \<in> kept_files"
  "state_path \<noteq> snapshot_path" "snapshot_path \<noteq> state_path"
  "state_path \<noteq> tmp_of snapshot_path" "snapshot_path \<noteq> tmp_of state_path"
  by (simp_all add: tmp_free_def kept_files_def state_path_def snapshot_path_def tmp_of_def)

lemma disk_ok_replace: "disk_ok f \<Longrightarrow> p \<in> kept_files \<Longrightarrow> disk_ok (snd (atomic_replace p c f))"
  by (auto simp: disk_ok_def atomic_replace_sep dest: atomic_replace_safe [of kept_files f p p c])

lemma kept_cuts:
  "disk_ok f \<Longrightarrow> p \<in> kept_files \<Longrightarrow> after_cut (snd (atomic_replace p c f)) p \<subseteq> insert (Some (Whole c)) (after_cut f p)"
  using atomic_replace_safe [of kept_files f p p c] by (simp add: disk_ok_def)

lemma kept_read:
  "disk_ok f \<Longrightarrow> read_file (snd (atomic_replace p c f)) p =
     (if fst (atomic_replace p c f) then Some (Whole c) else read_file f p)"
  by (rule atomic_replace_read) (simp add: disk_ok_def)

interpretation state_file: atomic_file disk_ok "atomic_replace state_path"
    "\<lambda>f. read_file f state_path" "\<lambda>f. after_cut f state_path"
  by unfold_locales (simp_all only: disk_ok_replace kept_cuts kept_read kept_files_paths)

interpretation snapshot_file: atomic_file disk_ok "atomic_replace snapshot_path"
    "\<lambda>f. read_file f snapshot_path" "\<lambda>f. after_cut f snapshot_path"
  by unfold_locales (simp_all only: disk_ok_replace kept_cuts kept_read kept_files_paths)

section \<open>Signals and state transitions\<close>

text \<open>Non-blocking sends on channels of capacity 1.\<close>

definition notifyHeartbeat :: "RaftNode \<Rightarrow> RaftNode" where
  "notifyHeartbeat n = n\<lparr>heartbeatC := True\<rparr>"

definition notifyCommit :: "RaftNode \<Rightarrow> RaftNode" where
  "notifyCommit n = n\<lparr>commitNotifyC := True\<rparr>"

definition becomeFollower :: "u64 \<Rightarrow> RaftNode \<Rightarrow> RaftNode" where
  "becomeFollower trm n =
     persist (n\<lparr>nstate := Follower, currentTerm := trm, votedFor := '''', leaderID := ''''\<rparr>)"

definition becomeCandidate :: "RaftNode \<Rightarrow> RaftNode" where
  "becomeCandidate n =
     persist (n\<lparr>nstate := Candidate, currentTerm := currentTerm n + 1, votedFor := node_id n,
                leaderID := ''''\<rparr>)"

text \<open>\<open>n.lastHeardFrom[peer] = t\<close>, allocating the map first when it is nil.\<close>

definition heard_from :: "string \<Rightarrow> instant \<Rightarrow> RaftNode \<Rightarrow> RaftNode" where
  "heard_from peer t n =
     n\<lparr>lastHeardFrom := Some ((case lastHeardFrom n of None \<Rightarrow> Map.empty | Some m \<Rightarrow> m)(peer \<mapsto> t))\<rparr>"

definition becomeLeader :: "instant \<Rightarrow> RaftNode \<Rightarrow> RaftNode" where
  "becomeLeader now n =
     (let last = lastIndex (rlog n);
          n1 = n\<lparr>nstate := Leader, leaderID := node_id n,
                 lastHeardFrom := Some (case lastHeardFrom n of None \<Rightarrow> Map.empty | Some m \<Rightarrow> m)\<rparr>
      in fold (\<lambda>peer m. heard_from peer now
                 (m\<lparr>nextIndex := (nextIndex m)(peer \<mapsto> last + 1),
                    matchIndex := (matchIndex m)(peer \<mapsto> 0)\<rparr>)) (peers n) n1)"

text \<open>\<open>(len(peers)+1)/2 + 1\<close>.\<close>

definition majority_of :: "string list \<Rightarrow> nat" where
  "majority_of ps = (length ps + 1) div 2 + 1"

section \<open>Frame facts\<close>

text \<open>What each transition leaves alone and what it sets.\<close>

lemma persist_simps [simp]:
  "node_id (persist n) = node_id n"
  "peers (persist n) = peers n"
  "currentTerm (persist n) = currentTerm n"
  "votedFor (persist n) = votedFor n"
  "rlog (persist n) = rlog n"
  "nstate (persist n) = nstate n"
  "commitIndex (persist n) = commitIndex n"
  "lastApplied (persist n) = lastApplied n"
  "nextIndex (persist n) = nextIndex n"
  "matchIndex (persist n) = matchIndex n"
  "lastHeardFrom (persist n) = lastHeardFrom n"
  "config (persist n) = config n"
  "leaderID (persist n) = leaderID n"
  "lastLeaderContact (persist n) = lastLeaderContact n"
  "snapshotData (persist n) = snapshotData n"
  "snapshotNotifyC (persist n) = snapshotNotifyC n"
  "stopCh_closed (persist n) = stopCh_closed n"
  "heartbeatC (persist n) = heartbeatC n"
  "commitNotifyC (persist n) = commitNotifyC n"
  "heartbeatsRecv (persist n) = heartbeatsRecv n"
  "heartbeatsSent (persist n) = heartbeatsSent n"
  by (simp_all add: persist_def)

lemma notifyHeartbeat_simps [simp]:
  "node_id (notifyHeartbeat n) = node_id n"
  "peers (notifyHeartbeat n) = peers n"
  "currentTerm (notifyHeartbeat n) = currentTerm n"
  "votedFor (notifyHeartbeat n) = votedFor n"
  "rlog (notifyHeartbeat n) = rlog n"
  "nstate (notifyHeartbeat n) = nstate n"
  "commitIndex (notifyHeartbeat n) = commitIndex n"
  "lastApplied (notifyHeartbeat n) = lastApplied n"
  "nextIndex (notifyHeartbeat n) = nextIndex n"
  "matchIndex (notifyHeartbeat n) = matchIndex n"
  "lastHeardFrom (notifyHeartbeat n) = lastHeardFrom n"
  "config (notifyHeartbeat n) = config n"
  "leaderID (notifyHeartbeat n) = leaderID n"
  "lastLeaderContact (notifyHeartbeat n) = lastLeaderContact n"
  "snapshotData (notifyHeartbeat n) = snapshotData n"
  "snapshotNotifyC (notifyHeartbeat n) = snapshotNotifyC n"
  "stopCh_closed (notifyHeartbeat n) = stopCh_closed n"
  "heartbeatC (notifyHeartbeat n) = True"
  "commitNotifyC (notifyHeartbeat n) = commitNotifyC n"
  "heartbeatsRecv (notifyHeartbeat n) = heartbeatsRecv n"
  "heartbeatsSent (notifyHeartbeat n) = heartbeatsSent n"
  "disk (notifyHeartbeat n) = disk n"
  by (simp_all add: notifyHeartbeat_def)

lemma notifyCommit_simps [simp]:
  "node_id (notifyCommit n) = node_id n"
  "peers (notifyCommit n) = peers n"
  "currentTerm (notifyCommit n) = currentTerm n"
  "votedFor (notifyCommit n) = votedFor n"
  "rlog (notifyCommit n) = rlog n"
  "nstate (notifyCommit n) = nstate n"
  "commitIndex (notifyCommit n) = commitIndex n"
  "lastApplied (notifyCommit n) = lastApplied n"
  "nextIndex (notifyCommit n) = nextIndex n"
  "matchIndex (notifyCommit n) = matchIndex n"
  "lastHeardFrom (notifyCommit n) = lastHeardFrom n"
  "config (notifyCommit n) = config n"
  "leaderID (notifyCommit n) = leaderID n"
  "lastLeaderContact (notifyCommit n) = lastLeaderContact n"
  "snapshotData (notifyCommit n) = snapshotData n"
  "snapshotNotifyC (notifyCommit n) = snapshotNotifyC n"
  "stopCh_closed (notifyCommit n) = stopCh_closed n"
  "heartbeatC (notifyCommit n) = heartbeatC n"
  "commitNotifyC (notifyCommit n) = True"
  "heartbeatsRecv (notifyCommit n) = heartbeatsRecv n"
  "heartbeatsSent (notifyCommit n) = heartbeatsSent n"
  "disk (notifyCommit n) = disk n"
  by (simp_all add: notifyCommit_def)

lemma becomeFollower_simps [simp]:
  "node_id (becomeFollower trm n) = node_id n"
  "peers (becomeFollower trm n) = peers n"
  "currentTerm (becomeFollower trm n) = trm"
  "votedFor (becomeFollower trm n) = ''''"
  "rlog (becomeFollower trm n) = rlog n"
  "nstate (becomeFollower trm n) = Follower"
  "commitIndex (becomeFollower trm n) = commitIndex n"
  "lastApplied (becomeFollower trm n) = lastApplied n"
  "nextIndex (becomeFollower trm n) = nextIndex n"
  "matchIndex (becomeFollower trm n) = matchIndex n"
  "lastHeardFrom (becomeFollower trm n) = lastHeardFrom n"
  "config (becomeFollower trm n) = config n"
  "leaderID (becomeFollower trm n) = ''''"
  "lastLeaderContact (becomeFollower trm n) = lastLeaderContact n"
  "snapshotData (becomeFollower trm n) = snapshotData n"
  "snapshotNotifyC (becomeFollower trm n) = snapshotNotifyC n"
  "stopCh_closed (becomeFollower trm n) = stopCh_closed n"
  "heartbeatC (becomeFollower trm n) = heartbeatC n"
  "commitNotifyC (becomeFollower trm n) = commitNotifyC n"
  "heartbeatsRecv (becomeFollower trm n) = heartbeatsRecv n"
  "heartbeatsSent (becomeFollower trm n) = heartbeatsSent n"
  by (simp_all add: becomeFollower_def)

lemma becomeCandidate_simps [simp]:
  "node_id (becomeCandidate n) = node_id n"
  "peers (becomeCandidate n) = peers n"
  "currentTerm (becomeCandidate n) = currentTerm n + 1"
  "votedFor (becomeCandidate n) = node_id n"
  "rlog (becomeCandidate n) = rlog n"
  "nstate (becomeCandidate n) = Candidate"
  "commitIndex (becomeCandidate n) = commitIndex n"
  "lastApplied (becomeCandidate n) = lastApplied n"
  "nextIndex (becomeCandidate n) = nextIndex n"
  "matchIndex (becomeCandidate n) = matchIndex n"
  "lastHeardFrom (becomeCandidate n) = lastHeardFrom n"
  "config (becomeCandidate n) = config n"
  "leaderID (becomeCandidate n) = ''''"
  "lastLeaderContact (becomeCandidate n) = lastLeaderContact n"
  "snapshotData (becomeCandidate n) = snapshotData n"
  "snapshotNotifyC (becomeCandidate n) = snapshotNotifyC n"
  "stopCh_closed (becomeCandidate n) = stopCh_closed n"
  "heartbeatC (becomeCandidate n) = heartbeatC n"
  "commitNotifyC (becomeCandidate n) = commitNotifyC n"
  "heartbeatsRecv (becomeCandidate n) = heartbeatsRecv n"
  "heartbeatsSent (becomeCandidate n) = heartbeatsSent n"
  by (simp_all add: becomeCandidate_def)

lemma heard_from_simps [simp]:
  "node_id (heard_from peer t n) = node_id n"
  "peers (heard_from peer t n) = peers n"
  "currentTerm (heard_from peer t n) = currentTerm n"
  "votedFor (heard_from peer t n) = votedFor n"
  "rlog (heard_from peer t n) = rlog n"
  "nstate (heard_from peer t n) = nstate n"
  "commitIndex (heard_from peer t n) = commitIndex n"
  "lastApplied (heard_from peer t n) = lastApplied n"
  "nextIndex (heard_from peer t n) = nextIndex n"
  "matchIndex (heard_from peer t n) = matchIndex n"
  "config (heard_from peer t n) = config n"
  "leaderID (heard_from peer t n) = leaderID n"
  "lastLeaderContact (heard_from peer t n) = lastLeaderContact n"
  "snapshotData (heard_from peer t n) = snapshotData n"
  "snapshotNotifyC (heard_from peer t n) = snapshotNotifyC n"
  "stopCh_closed (heard_from peer t n) = stopCh_closed n"
  "heartbeatC (heard_from peer t n) = heartbeatC n"
  "commitNotifyC (heard_from peer t n) = commitNotifyC n"
  "heartbeatsRecv (heard_from peer t n) = heartbeatsRecv n"
  "heartbeatsSent (heard_from peer t n) = heartbeatsSent n"
  "disk (heard_from peer t n) = disk n"
  by (simp_all add: heard_from_def)

text \<open>The node's term, vote and log are the ones on disk.\<close>

definition in_sync :: "RaftNode \<Rightarrow> bool" where
  "in_sync n \<longleftrightarrow> read_file (disk n) state_path = Some (Whole (StateBlob (persisted_of n)))"

text \<open>The disk works: no write is going to fail.\<close>

definition disk_works :: "RaftNode \<Rightarrow> bool" where
  "disk_works n \<longleftrightarrow> disk_ok (disk n) \<and> fs_script (disk n) = []"

lemma persisted_of_upd [simp]:
  "persisted_of (n\<lparr>disk := d\<rparr>) = persisted_of n"
  by (simp add: persisted_of_def)

lemma persisted_of_persist [simp]: "persisted_of (persist n) = persisted_of n"
  by (simp add: persisted_of_def)

lemma disk_works_persist: "disk_works n \<Longrightarrow> disk_works (persist n)"
  by (simp add: disk_works_def persist_def disk_ok_replace atomic_replace_script)

lemma in_sync_persist: "disk_works n \<Longrightarrow> in_sync (persist n)"
  by (simp add: disk_works_def in_sync_def persist_def kept_read atomic_replace_no_faults)

lemma persist_keeps_snapshot:
  "disk_ok (disk n) \<Longrightarrow> read_file (disk (persist n)) snapshot_path = read_file (disk n) snapshot_path"
  by (simp add: persist_def atomic_replace_frame disk_ok_def)

lemma disk_works_upd:
  "disk m = disk n \<Longrightarrow> disk_works m = disk_works n"
  by (simp add: disk_works_def)

lemma disk_works_follower: "disk_works n \<Longrightarrow> disk_works (becomeFollower t n)"
  by (simp add: becomeFollower_def disk_works_persist disk_works_upd [of "n\<lparr>nstate := _, currentTerm := _, votedFor := _, leaderID := _\<rparr>" n])

section \<open>A fresh node\<close>

text \<open>A node with default timeouts on an empty data directory, used in examples.\<close>

definition fresh_node :: "string \<Rightarrow> string \<Rightarrow> string list \<Rightarrow> RaftNode" where
  "fresh_node ident self ps = NewRaftNode
     \<lparr>cfg_ID = ident, cfg_Peers = ps, cfg_ElectionTimeoutMinMs = 0, cfg_ElectionTimeoutMaxMs = 0,
      cfg_HeartbeatIntervalMs = 0, cfg_SelfAddr = self\<rparr> fs_empty"

lemma disk_works_fresh [simp]: "disk_works (fresh_node i s ps)"
  by (simp add: disk_works_def disk_ok_def fresh_node_def NewRaftNode_def Let_def)

lemma fresh_node_simps [simp]:
  "node_id (fresh_node i s ps) = i" "peers (fresh_node i s ps) = ps"
  "currentTerm (fresh_node i s ps) = 0" "votedFor (fresh_node i s ps) = ''''"
  "rlog (fresh_node i s ps) = newLog" "nstate (fresh_node i s ps) = Follower"
  "commitIndex (fresh_node i s ps) = 0" "lastApplied (fresh_node i s ps) = 0"
  "nextIndex (fresh_node i s ps) = Map.empty" "matchIndex (fresh_node i s ps) = Map.empty"
  "lastHeardFrom (fresh_node i s ps) = None" "lastLeaderContact (fresh_node i s ps) = zero_time"
  "snapshotData (fresh_node i s ps) = []" "disk (fresh_node i s ps) = fs_empty"
  "cfg_SelfAddr (config (fresh_node i s ps)) = s"
  "cfg_ElectionTimeoutMinMs (config (fresh_node i s ps)) = 150"
  "cfg_ElectionTimeoutMaxMs (config (fresh_node i s ps)) = 300"
  by (simp_all add: fresh_node_def NewRaftNode_def cfg_defaults_def Let_def)

section \<open>Invariant of a running node\<close>

text \<open>
  The log is well-formed, and the compacted, the applied, the committed and the stored part of it
  are nested in this order.
\<close>

definition wf_node :: "RaftNode \<Rightarrow> bool" where
  "wf_node n \<longleftrightarrow> wf_log (rlog n) \<and> log_base (rlog n) \<le> unat (lastApplied n)
     \<and> lastApplied n \<le> commitIndex n \<and> unat (commitIndex n) \<le> log_top (rlog n)"

lemma wf_node_cong:
  "rlog m = rlog n \<Longrightarrow> lastApplied m = lastApplied n \<Longrightarrow> commitIndex m = commitIndex n \<Longrightarrow>
     wf_node m = wf_node n"
  by (simp add: wf_node_def)

lemma wf_node_fresh [simp]: "wf_node (fresh_node i s ps)"
  by (simp add: wf_node_def)

section \<open>Crash safety of the state file\<close>

text \<open>
  C10: a power cut at any moment of writing the state file, or after it with whatever write failing,
  finds a file that decodes: the new state or one that could be found before. The snapshot file is
  not affected.
\<close>

theorem persist_crash_safe:
  assumes "disk_ok (disk n)"
  shows "after_cut (run_ops (take k (replace_ops state_path (StateBlob (persisted_of n)))) (disk n)) state_path
       \<subseteq> insert (Some (Whole (StateBlob (persisted_of n)))) (after_cut (disk n) state_path)
     \<and> after_cut (disk (persist n)) state_path
       \<subseteq> insert (Some (Whole (StateBlob (persisted_of n)))) (after_cut (disk n) state_path)
     \<and> after_cut (disk (persist n)) snapshot_path \<subseteq> after_cut (disk n) snapshot_path
     \<and> Some Torn \<notin> after_cut (disk (persist n)) state_path"
proof -
  let ?b = "StateBlob (persisted_of n)"
  have ok: "fs_safe kept_files (disk n)" "fs_sep (disk n)" using assms by (simp_all add: disk_ok_def)
  have safe: "fs_safe kept_files (disk (persist n))"
    using disk_ok_replace [OF assms kept_files_paths(2)] by (simp add: persist_def disk_ok_def)
  then have "Some Torn \<notin> after_cut (disk (persist n)) state_path"
    using after_cut_safe [OF safe kept_files_paths(2)] fs_safeD2 [OF safe _ kept_files_paths(2)]
    by (auto simp: eq_commute [of "Some Torn"])
  then show ?thesis
    using replace_prefix [OF ok kept_files_paths(1,2,2), of k ?b] state_file.store_cuts [OF assms, of ?b]
      atomic_replace_safe [OF ok kept_files_paths(1,2,3), of ?b]
    by (simp add: persist_def)
qed

theorem persist_crash_safe_witness:
  "Some Torn \<notin> after_cut (disk (persist (fresh_node ''n1'' ''a'' [''b'']))) state_path"
  using persist_crash_safe [of "fresh_node ''n1'' ''a'' [''b'']" 0]
  by (simp add: disk_ok_def)

text \<open>
  A state that was written may still be lost: the directory is not synced after the rename, so
  a power cut right after a vote was recorded may bring back a directory without the file.
\<close>

lemma persist_not_durable:
  "in_sync (becomeFollower 5 (fresh_node ident self ps))
   \<and> None \<in> after_cut (disk (becomeFollower 5 (fresh_node ident self ps))) state_path"
proof -
  let ?m = "(fresh_node ident self ps)\<lparr>nstate := Follower, currentTerm := 5, votedFor := '''', leaderID := ''''\<rparr>"
  have "disk_works ?m" using disk_works_fresh [of ident self ps] by (simp add: disk_works_def)
  then have "in_sync (persist ?m)" by (rule in_sync_persist)
  moreover have "fs_older (disk (persist ?m)) \<noteq> [] \<and> last (fs_older (disk (persist ?m))) = Map.empty"
    by (simp add: persist_def atomic_replace_def next_outcome_def fs_empty_def replace_ops_def run_ops_def
        fs_link_def Let_def)
  then have "Map.empty \<in> fs_versions (disk (persist ?m))"
    by (metis fs_versions_def insertCI last_in_set)
  then have "None \<in> after_cut (disk (persist ?m)) state_path"
    unfolding after_cut_iff by (intro bexI [of _ Map.empty]) simp_all
  ultimately show ?thesis by (simp add: becomeFollower_def)
qed

end
