(* ===== verification/Election.thy ===== *)
theory Election
  imports Node
begin

text \<open>
  \<open>src/raft/election.go\<close>: pre-vote, elections and the RequestVote handler. A goroutine that
  releases the lock is split where it does: \<open>startPreVote\<close> and \<open>startElection\<close> into the part under
  the lock that builds the arguments, and the code that runs for each reply.
\<close>

section \<open>Up-to-date check\<close>

definition candidateUpToDate :: "RequestVoteArgs \<Rightarrow> RaftNode \<Rightarrow> bool" where
  "candidateUpToDate args n \<longleftrightarrow>
     rv_LastLogTerm args > lastTerm (rlog n)
     \<or> rv_LastLogTerm args = lastTerm (rlog n) \<and> rv_LastLogIndex args \<ge> lastIndex (rlog n)"

section \<open>Pre-vote\<close>

text \<open>The arguments and the peer list copied under the lock.\<close>

definition startPreVote_args :: "RaftNode \<Rightarrow> RequestVoteArgs \<times> string list" where
  "startPreVote_args n =
     (\<lparr>rv_Term = currentTerm n + 1, rv_CandidateID = node_id n,
       rv_LastLogIndex = lastIndex (rlog n), rv_LastLogTerm = lastTerm (rlog n),
       rv_IsPreVote = True\<rparr>, peers n)"

text \<open>
  The collecting loop, over the results in the order they arrive on \<open>ch\<close>. A transport error is a
  refusal.
\<close>

fun preVote_collect :: "nat \<Rightarrow> nat \<Rightarrow> RequestVoteReply option list \<Rightarrow> bool" where
  "preVote_collect majority votes [] = False"
| "preVote_collect majority votes (r # rs) =
     (if (case r of None \<Rightarrow> False | Some reply \<Rightarrow> rvr_VoteGranted reply)
      then (if votes + 1 \<ge> majority then True else preVote_collect majority (votes + 1) rs)
      else preVote_collect majority votes rs)"

definition startPreVote_result :: "string list \<Rightarrow> RequestVoteReply option list \<Rightarrow> bool" where
  "startPreVote_result ps results =
     (if length ps = 0 then False else preVote_collect (majority_of ps) 1 results)"

section \<open>Elections\<close>

text \<open>The variables \<open>startElection\<close> shares between its goroutines.\<close>

record Election =
  el_term :: u64
  el_votes :: nat
  el_majority :: nat

definition startElection_begin :: "RaftNode \<Rightarrow> Election \<times> RequestVoteArgs \<times> string list" where
  "startElection_begin n =
     (\<lparr>el_term = currentTerm n, el_votes = 1, el_majority = majority_of (peers n)\<rparr>,
      \<lparr>rv_Term = currentTerm n, rv_CandidateID = node_id n,
       rv_LastLogIndex = lastIndex (rlog n), rv_LastLogTerm = lastTerm (rlog n),
       rv_IsPreVote = False\<rparr>, peers n)"

text \<open>What the goroutine of one peer does with the reply, the lock held.\<close>

definition startElection_reply ::
    "instant \<Rightarrow> RequestVoteReply \<Rightarrow> Election \<Rightarrow> RaftNode \<Rightarrow> Election \<times> RaftNode" where
  "startElection_reply now reply el n =
     (if rvr_Term reply > currentTerm n then (el, becomeFollower (rvr_Term reply) n)
      else if nstate n \<noteq> Candidate \<or> currentTerm n \<noteq> el_term el then (el, n)
      else if \<not> rvr_VoteGranted reply then (el, n)
      else let el' = el\<lparr>el_votes := el_votes el + 1\<rparr> in
        if el_votes el' \<ge> el_majority el' then (el', becomeLeader now n) else (el', n))"

section \<open>The RequestVote handler\<close>

definition HandleRequestVote ::
    "instant \<Rightarrow> RequestVoteArgs \<Rightarrow> RaftNode \<Rightarrow> RequestVoteReply \<times> RaftNode" where
  "HandleRequestVote now args n =
     (if rv_IsPreVote args then
        let reply = \<lparr>rvr_Term = currentTerm n, rvr_VoteGranted = False\<rparr>;
            threshold = millis (cfg_ElectionTimeoutMinMs (config n)) in
        if time_sub now (lastLeaderContact n) < threshold then (reply, n)
        else (reply\<lparr>rvr_VoteGranted := candidateUpToDate args n\<rparr>, n)
      else
        let n1 = (if rv_Term args > currentTerm n then becomeFollower (rv_Term args) n else n);
            reply = \<lparr>rvr_Term = currentTerm n1, rvr_VoteGranted = False\<rparr> in
        if rv_Term args < currentTerm n1 then (reply, n1)
        else
          let canVote = (votedFor n1 = '''' \<or> votedFor n1 = rv_CandidateID args) in
          if canVote \<and> candidateUpToDate args n1
          then (reply\<lparr>rvr_VoteGranted := True\<rparr>,
                notifyHeartbeat (persist (n1\<lparr>votedFor := rv_CandidateID args\<rparr>)))
          else (reply, n1))"

section \<open>Terms and votes\<close>

text \<open>
  What a step may do to the term and the vote: the term never falls, and within a term a vote that
  was cast stays.
\<close>

definition vote_kept :: "RaftNode \<Rightarrow> RaftNode \<Rightarrow> bool" where
  "vote_kept n n' \<longleftrightarrow> currentTerm n \<le> currentTerm n'
     \<and> (currentTerm n' = currentTerm n \<longrightarrow> votedFor n \<noteq> '''' \<longrightarrow> votedFor n' = votedFor n)"

named_theorems vote_kept_intros \<open>operations that keep the vote\<close>

lemma vote_kept_refl [simp, vote_kept_intros]: "vote_kept n n"
  by (auto simp: vote_kept_def)

lemma vote_kept_trans: "vote_kept a b \<Longrightarrow> vote_kept b c \<Longrightarrow> vote_kept a c"
  by (auto simp: vote_kept_def)

lemma vote_kept_same [vote_kept_intros]:
  "currentTerm n' = currentTerm n \<Longrightarrow> votedFor n' = votedFor n \<Longrightarrow> vote_kept n n'"
  by (auto simp: vote_kept_def)

lemma vote_kept_follower [vote_kept_intros]:
  "currentTerm n < t \<Longrightarrow> vote_kept n (becomeFollower t n)"
  by (auto simp: vote_kept_def)

lemma vote_kept_candidate [vote_kept_intros]:
  "currentTerm n \<noteq> u64_max \<Longrightarrow> vote_kept n (becomeCandidate n)"
  using u64_less_plus1 [of "currentTerm n"] by (simp add: vote_kept_def)

definition leader_init :: "instant \<Rightarrow> u64 \<Rightarrow> string \<Rightarrow> RaftNode \<Rightarrow> RaftNode" where
  "leader_init now next peer m = heard_from peer now
     (m\<lparr>nextIndex := (nextIndex m)(peer \<mapsto> next), matchIndex := (matchIndex m)(peer \<mapsto> 0)\<rparr>)"

lemma becomeLeader_fold:
  "becomeLeader now n = fold (leader_init now (lastIndex (rlog n) + 1)) (peers n)
     (n\<lparr>nstate := Leader, leaderID := node_id n,
        lastHeardFrom := Some (case lastHeardFrom n of None \<Rightarrow> Map.empty | Some m \<Rightarrow> m)\<rparr>)"
  by (simp add: becomeLeader_def Let_def leader_init_def [abs_def])

lemma leader_init_frame:
  "\<exists>a b c. fold (leader_init now x) ps m = m\<lparr>nextIndex := a, matchIndex := b, lastHeardFrom := c\<rparr>"
proof (induction ps arbitrary: m)
  case Nil
  have "m = m\<lparr>nextIndex := nextIndex m, matchIndex := matchIndex m, lastHeardFrom := lastHeardFrom m\<rparr>"
    by simp
  then show ?case by (metis fold_simps(1))
next
  case (Cons p ps)
  obtain c where "leader_init now x p m = m\<lparr>nextIndex := (nextIndex m)(p \<mapsto> x),
      matchIndex := (matchIndex m)(p \<mapsto> 0), lastHeardFrom := c\<rparr>"
    by (simp add: leader_init_def heard_from_def)
  with Cons [of "leader_init now x p m"] show ?case
    by (auto intro: exI)
qed

lemma becomeLeader_frame:
  "\<exists>a b c. becomeLeader now n = n\<lparr>nstate := Leader, leaderID := node_id n,
     nextIndex := a, matchIndex := b, lastHeardFrom := c\<rparr>"
proof -
  obtain a b c where "becomeLeader now n = n\<lparr>nstate := Leader, leaderID := node_id n,
      lastHeardFrom := Some (case lastHeardFrom n of None \<Rightarrow> Map.empty | Some m \<Rightarrow> m)\<rparr>
      \<lparr>nextIndex := a, matchIndex := b, lastHeardFrom := c\<rparr>"
    using leader_init_frame unfolding becomeLeader_fold by blast
  then show ?thesis by auto
qed

lemma becomeLeader_simps [simp]:
  "node_id (becomeLeader now n) = node_id n" "peers (becomeLeader now n) = peers n"
  "currentTerm (becomeLeader now n) = currentTerm n" "votedFor (becomeLeader now n) = votedFor n"
  "rlog (becomeLeader now n) = rlog n" "nstate (becomeLeader now n) = Leader"
  "commitIndex (becomeLeader now n) = commitIndex n" "lastApplied (becomeLeader now n) = lastApplied n"
  "config (becomeLeader now n) = config n" "disk (becomeLeader now n) = disk n"
  "snapshotData (becomeLeader now n) = snapshotData n" "leaderID (becomeLeader now n) = node_id n"
  using becomeLeader_frame [of now n] by auto

lemma leader_init_indices:
  "nextIndex (fold (leader_init now x) ps m) p = (if p \<in> set ps then Some x else nextIndex m p)"
  "matchIndex (fold (leader_init now x) ps m) p = (if p \<in> set ps then Some 0 else matchIndex m p)"
  by (induction ps arbitrary: m) (simp_all add: leader_init_def)

lemma leader_init_heard:
  "lastHeardFrom m = Some h \<Longrightarrow>
     \<exists>h'. lastHeardFrom (fold (leader_init now x) ps m) = Some h'
          \<and> h' p = (if p \<in> set ps then Some now else h p)"
proof (induction ps arbitrary: m h)
  case (Cons q ps)
  from Cons.prems have "lastHeardFrom (leader_init now x q m) = Some (h(q \<mapsto> now))"
    by (simp add: leader_init_def heard_from_def)
  from Cons.IH [OF this] show ?case by auto
qed simp

lemma becomeLeader_indices:
  "nextIndex (becomeLeader now n) p =
     (if p \<in> set (peers n) then Some (lastIndex (rlog n) + 1) else nextIndex n p)"
  "matchIndex (becomeLeader now n) p = (if p \<in> set (peers n) then Some 0 else matchIndex n p)"
  by (simp_all add: becomeLeader_fold leader_init_indices)

lemma vote_kept_HandleRequestVote [vote_kept_intros]:
  "vote_kept n (snd (HandleRequestVote now args n))"
  by (auto simp: HandleRequestVote_def Let_def vote_kept_def)

lemma vote_kept_startElection_reply [vote_kept_intros]:
  "vote_kept n (snd (startElection_reply now reply el n))"
  by (auto simp: startElection_reply_def Let_def vote_kept_def)

section \<open>What the handler promises\<close>

lemma disk_works_vote:
  "disk_works n \<Longrightarrow> disk_works (n\<lparr>votedFor := c\<rparr>)"
  by (simp add: disk_works_def)

lemma in_sync_notifyHeartbeat [simp]: "in_sync (notifyHeartbeat n) = in_sync n"
  by (simp add: in_sync_def persisted_of_def)

lemma candidateUpToDate_log: "rlog m = rlog n \<Longrightarrow> candidateUpToDate args m = candidateUpToDate args n"
  by (simp add: candidateUpToDate_def)

lemma HandleRequestVote_iff:
  "\<not> rv_IsPreVote args \<Longrightarrow>
     rvr_VoteGranted (fst (HandleRequestVote now args n)) \<longleftrightarrow>
       currentTerm n \<le> rv_Term args
       \<and> (currentTerm n < rv_Term args \<or> votedFor n \<in> {'''', rv_CandidateID args})
       \<and> candidateUpToDate args n"
  by (auto simp: HandleRequestVote_def Let_def candidateUpToDate_log [of "becomeFollower t n" n for t])

lemma HandleRequestVote_frame [simp]:
  "rlog (snd (HandleRequestVote now args n)) = rlog n"
  "node_id (snd (HandleRequestVote now args n)) = node_id n"
  "peers (snd (HandleRequestVote now args n)) = peers n"
  "config (snd (HandleRequestVote now args n)) = config n"
  "rvr_Term (fst (HandleRequestVote now args n)) = currentTerm (snd (HandleRequestVote now args n))"
  by (auto simp: HandleRequestVote_def Let_def)

lemma HandleRequestVote_term:
  "\<not> rv_IsPreVote args \<Longrightarrow>
     currentTerm (snd (HandleRequestVote now args n)) = max (currentTerm n) (rv_Term args)"
  by (auto simp: HandleRequestVote_def Let_def max_def)

lemma HandleRequestVote_granted:
  assumes "\<not> rv_IsPreVote args" "rvr_VoteGranted (fst (HandleRequestVote now args n))"
  shows "\<exists>m. snd (HandleRequestVote now args n)
             = notifyHeartbeat (persist (m\<lparr>votedFor := rv_CandidateID args\<rparr>))
           \<and> currentTerm m = rv_Term args \<and> (disk_works n \<longrightarrow> disk_works m)"
  using assms
  by (auto simp: HandleRequestVote_def Let_def disk_works_follower split: if_splits
      intro: exI [of _ n] exI [of _ "becomeFollower (rv_Term args) n"])

lemma candidateUpToDate_iff:
  "candidateUpToDate args n \<longleftrightarrow> lastTerm (rlog n) < rv_LastLogTerm args
     \<or> lastTerm (rlog n) = rv_LastLogTerm args \<and> lastIndex (rlog n) \<le> rv_LastLogIndex args"
  by (auto simp: candidateUpToDate_def)

text \<open>
  C8: a RequestVote is granted exactly when its term is not old, no other candidate has the node's
  vote in that term, and the candidate's log is at least as up to date: its last entry is of a later
  term, or of the same term and at the same or a later index. A vote that is granted has
  then been written to disk together with its term, and the node's log is untouched.
\<close>

theorem HandleRequestVote_grants:
  assumes "\<not> rv_IsPreVote args" and "disk_works n"
    and "HandleRequestVote now args n = (reply, n')"
  shows "(rvr_VoteGranted reply \<longleftrightarrow>
            currentTerm n \<le> rv_Term args
            \<and> (currentTerm n < rv_Term args \<or> votedFor n \<in> {'''', rv_CandidateID args})
            \<and> (lastTerm (rlog n) < rv_LastLogTerm args
               \<or> lastTerm (rlog n) = rv_LastLogTerm args \<and> lastIndex (rlog n) \<le> rv_LastLogIndex args))
         \<and> (rvr_VoteGranted reply \<longrightarrow>
              in_sync n' \<and> currentTerm n' = rv_Term args \<and> votedFor n' = rv_CandidateID args)
         \<and> rlog n' = rlog n \<and> currentTerm n' = max (currentTerm n) (rv_Term args)
         \<and> rvr_Term reply = currentTerm n'"
proof -
  have r: "reply = fst (HandleRequestVote now args n)" "n' = snd (HandleRequestVote now args n)"
    using assms(3) by simp_all
  show ?thesis
    using HandleRequestVote_granted [OF assms(1), of now n] HandleRequestVote_iff [OF assms(1), of now n]
      HandleRequestVote_term [OF assms(1), of now n] assms(2)
    unfolding r candidateUpToDate_iff by (auto simp: in_sync_persist disk_works_vote)
qed

theorem HandleRequestVote_grants_witness:
  "\<exists>reply n'. HandleRequestVote 0 \<lparr>rv_Term = 3, rv_CandidateID = ''n2'', rv_LastLogIndex = 0,
       rv_LastLogTerm = 0, rv_IsPreVote = False\<rparr> (fresh_node ''n1'' ''a'' [''b'', ''c'']) = (reply, n')
     \<and> rvr_VoteGranted reply \<and> in_sync n' \<and> votedFor n' = ''n2''"
proof -
  let ?args = "\<lparr>rv_Term = 3, rv_CandidateID = ''n2'', rv_LastLogIndex = 0,
       rv_LastLogTerm = 0, rv_IsPreVote = False\<rparr>"
  obtain reply n' where r: "HandleRequestVote 0 ?args (fresh_node ''n1'' ''a'' [''b'', ''c'']) = (reply, n')"
    by fastforce
  have "candidateUpToDate ?args (fresh_node ''n1'' ''a'' [''b'', ''c''])" by code_simp
  then show ?thesis
    using r HandleRequestVote_grants [OF _ disk_works_fresh r] by (simp add: candidateUpToDate_iff)
qed

text \<open>
  C31: a pre-vote request changes nothing at the node that answers it, and is granted exactly when
  the node has not heard from a leader for the minimum election timeout and the log of the sender
  is at least as up to date, by last term and then by length.
\<close>

theorem HandleRequestVote_prevote:
  assumes "rv_IsPreVote args"
  shows "snd (HandleRequestVote now args n) = n
         \<and> (rvr_VoteGranted (fst (HandleRequestVote now args n)) \<longleftrightarrow>
           millis (cfg_ElectionTimeoutMinMs (config n)) \<le> time_sub now (lastLeaderContact n)
           \<and> (lastTerm (rlog n) < rv_LastLogTerm args
              \<or> lastTerm (rlog n) = rv_LastLogTerm args \<and> lastIndex (rlog n) \<le> rv_LastLogIndex args))"
  using assms unfolding candidateUpToDate_iff [symmetric] by (auto simp: HandleRequestVote_def Let_def)

theorem HandleRequestVote_prevote_witness:
  "snd (HandleRequestVote 0 \<lparr>rv_Term = 1, rv_CandidateID = ''n2'', rv_LastLogIndex = 0,
     rv_LastLogTerm = 0, rv_IsPreVote = True\<rparr> (fresh_node ''n1'' ''a'' [''b''])) = fresh_node ''n1'' ''a'' [''b'']"
  using HandleRequestVote_prevote by simp

definition granted :: "RequestVoteReply option \<Rightarrow> bool" where
  "granted r = (case r of None \<Rightarrow> False | Some reply \<Rightarrow> rvr_VoteGranted reply)"

lemma preVote_collect_count:
  "votes < m \<Longrightarrow> preVote_collect m votes rs \<longleftrightarrow> m \<le> votes + length (filter granted rs)"
  by (induction m votes rs rule: preVote_collect.induct) (auto simp: granted_def)

text \<open>
  A pre-vote succeeds exactly when there are peers and the granted answers, with the node's own
  vote, are a majority of the cluster, in whatever order the answers arrive.
\<close>

lemma startPreVote_majority:
  "startPreVote_result ps results \<longleftrightarrow>
     ps \<noteq> [] \<and> length ps + 1 < 2 * (1 + length (filter granted results))"
proof (cases "ps = []")
  case False
  then have "1 < majority_of ps" by (cases ps) (simp_all add: majority_of_def)
  then show ?thesis
    using False by (simp add: startPreVote_result_def preVote_collect_count) (auto simp: majority_of_def)
qed (simp add: startPreVote_result_def)

text \<open>
  A node that becomes leader expects every peer to need only what follows its own last entry,
  claims no replicated entry for any of them, and starts its quorum check with every peer heard
  from now.
\<close>

lemma becomeLeader_peers:
  assumes "p \<in> set (peers n)"
  shows "nextIndex (becomeLeader now n) p = Some (lastIndex (rlog n) + 1)
         \<and> matchIndex (becomeLeader now n) p = Some 0
         \<and> (\<exists>h. lastHeardFrom (becomeLeader now n) = Some h \<and> h p = Some now)"
  using leader_init_heard [of "n\<lparr>nstate := Leader, leaderID := node_id n,
        lastHeardFrom := Some (case lastHeardFrom n of None \<Rightarrow> Map.empty | Some m \<Rightarrow> m)\<rparr>" _ now
        "lastIndex (rlog n) + 1" "peers n" p] assms
  by (auto simp: becomeLeader_indices) (auto simp: becomeLeader_fold)

end
