(* ===== verification/Replication.thy ===== *)
theory Replication
  imports Node
begin

text \<open>
  \<open>src/raft/replication.go\<close>: building AppendEntries requests, processing their replies,
  advancing the commit index, and the AppendEntries handler.
\<close>

section \<open>Requests\<close>

definition buildArgsLocked :: "RaftNode \<Rightarrow> string \<Rightarrow> AppendEntriesArgs" where
  "buildArgsLocked n peer =
     (let nextIdx = go_read (nextIndex n) peer;
          prevIdx = nextIdx - 1;
          prevTerm = le_Term (log_get (rlog n) prevIdx);
          entries = log_slice (rlog n) nextIdx (lastIndex (rlog n) + 1)
      in \<lparr>ae_Term = currentTerm n, ae_LeaderID = node_id n, ae_PrevLogIndex = prevIdx,
          ae_PrevLogTerm = prevTerm, ae_Entries = entries, ae_LeaderCommit = commitIndex n\<rparr>)"

definition buildSnapshotArgsLocked :: "RaftNode \<Rightarrow> InstallSnapshotArgs" where
  "buildSnapshotArgsLocked n =
     \<lparr>is_Term = currentTerm n, is_LeaderID = node_id n,
      is_LastIncludedIndex = snapshotIndex (rlog n), is_LastIncludedTerm = snapshotTerm (rlog n),
      is_Data = snapshotData n\<rparr>"

text \<open>The goroutines that carry requests: \<open>go n.sendToPeer(...)\<close>, \<open>go n.sendSnapshotToPeer(...)\<close>.\<close>

datatype Spawn =
    SendToPeer string u64 AppendEntriesArgs
  | SendSnapshotToPeer string u64 InstallSnapshotArgs

text \<open>
  The choice made for each peer in \<open>sendHeartbeats\<close>, \<open>Submit\<close> and \<open>submitConfigLocked\<close>: a
  snapshot when the peer needs compacted entries, AppendEntries otherwise.
\<close>

definition replicate_to :: "RaftNode \<Rightarrow> string \<Rightarrow> Spawn" where
  "replicate_to n peer =
     (if go_read (nextIndex n) peer \<le> snapshotIndex (rlog n)
      then SendSnapshotToPeer peer (currentTerm n) (buildSnapshotArgsLocked n)
      else SendToPeer peer (currentTerm n) (buildArgsLocked n peer))"

definition sendHeartbeats :: "RaftNode \<Rightarrow> RaftNode \<times> Spawn list" where
  "sendHeartbeats n =
     (let spawned = map (replicate_to n) (peers n)
      in (n\<lparr>heartbeatsSent := heartbeatsSent n + 1\<rparr>, spawned))"

section \<open>Commit index of the leader\<close>

text \<open>\<open>indices[majority-1]\<close> after the descending sort.\<close>

definition quorum_index :: "RaftNode \<Rightarrow> u64" where
  "quorum_index n =
     (let indices = lastIndex (rlog n) # map (go_read (matchIndex n)) (peers n)
      in rev (sort indices) ! (majority_of (peers n) - 1))"

definition maybeCommit :: "RaftNode \<Rightarrow> RaftNode" where
  "maybeCommit n =
     (let quorumIdx = quorum_index n in
      if quorumIdx > commitIndex n \<and> le_Term (log_get (rlog n) quorumIdx) = currentTerm n
      then notifyCommit (n\<lparr>commitIndex := quorumIdx\<rparr>)
      else n)"

section \<open>Replies\<close>

text \<open>\<open>for i := lastIndex; i >= 1; i--\<close>: the last index that holds a term, 0 if none.\<close>

fun last_index_with_term :: "Log \<Rightarrow> u64 \<Rightarrow> nat \<Rightarrow> u64" where
  "last_index_with_term l trm 0 = 0"
| "last_index_with_term l trm (Suc i) =
     (if le_Term (log_get l (of_nat (Suc i))) = trm then of_nat (Suc i)
      else last_index_with_term l trm i)"

definition conflict_next :: "RaftNode \<Rightarrow> AppendEntriesReply \<Rightarrow> u64" where
  "conflict_next n reply =
     (if aer_ConflictTerm reply = 0 then aer_ConflictIndex reply
      else let found = last_index_with_term (rlog n) (aer_ConflictTerm reply) (unat (lastIndex (rlog n)))
           in if found > 0 then found + 1 else aer_ConflictIndex reply)"

definition sendToPeer_reply ::
    "instant \<Rightarrow> string \<Rightarrow> u64 \<Rightarrow> AppendEntriesArgs \<Rightarrow> AppendEntriesReply \<Rightarrow> RaftNode \<Rightarrow> RaftNode" where
  "sendToPeer_reply now peer trm args reply n =
     (if aer_Term reply > currentTerm n then becomeFollower (aer_Term reply) n
      else if nstate n \<noteq> Leader \<or> currentTerm n \<noteq> trm then n
      else
        let n1 = heard_from peer now n in
        if aer_Success reply then
          let newMatch = ae_PrevLogIndex args + u64_len (ae_Entries args);
              n2 = (if newMatch > go_read (matchIndex n1) peer
                    then n1\<lparr>matchIndex := (matchIndex n1)(peer \<mapsto> newMatch)\<rparr> else n1);
              n3 = n2\<lparr>nextIndex := (nextIndex n2)(peer \<mapsto> go_read (matchIndex n2) peer + 1)\<rparr>
          in maybeCommit n3
        else
          let n2 = n1\<lparr>nextIndex := (nextIndex n1)(peer \<mapsto> conflict_next n1 reply)\<rparr>
          in if go_read (nextIndex n2) peer < 1
             then n2\<lparr>nextIndex := (nextIndex n2)(peer \<mapsto> 1)\<rparr> else n2)"

section \<open>The AppendEntries handler\<close>

text \<open>
  The loop over the incoming entries: skip compacted and matching ones, append at the end of the
  log, cut at the first conflict and append the rest.
\<close>

fun merge_entries :: "Log \<Rightarrow> LogEntry list \<Rightarrow> Log" where
  "merge_entries l [] = l"
| "merge_entries l (e # es) =
     (if le_Index e \<le> snapshotIndex l then merge_entries l es
      else
        let existing = log_get l (le_Index e) in
        if le_Term existing = 0 then log_append l (e # es)
        else if le_Term existing \<noteq> le_Term e then log_append (truncateFrom l (le_Index e)) (e # es)
        else merge_entries l es)"

text \<open>The reply of the consistency check, \<open>None\<close> when the check passes.\<close>

definition consistency_reject :: "AppendEntriesArgs \<Rightarrow> RaftNode \<Rightarrow> AppendEntriesReply option" where
  "consistency_reject args n =
     (if ae_PrevLogIndex args > 0 then
        let prev = log_get (rlog n) (ae_PrevLogIndex args);
            reply = \<lparr>aer_Term = currentTerm n, aer_Success = False, aer_ConflictTerm = 0,
                     aer_ConflictIndex = 0\<rparr> in
        if le_Term prev = 0
        then Some (reply\<lparr>aer_ConflictIndex := lastIndex (rlog n) + 1, aer_ConflictTerm := 0\<rparr>)
        else if le_Term prev \<noteq> ae_PrevLogTerm args
        then Some (reply\<lparr>aer_ConflictTerm := le_Term prev,
                         aer_ConflictIndex := firstIndexForTerm (rlog n) (le_Term prev)\<rparr>)
        else None
      else None)"

text \<open>\<open>commitIndex\<close> follows the leader's, never past the last entry.\<close>

definition follow_commit :: "u64 \<Rightarrow> RaftNode \<Rightarrow> RaftNode" where
  "follow_commit leaderCommit n =
     (if leaderCommit > commitIndex n then
        let last = lastIndex (rlog n) in
        notifyCommit (n\<lparr>commitIndex := (if leaderCommit < last then leaderCommit else last)\<rparr>)
      else n)"

definition HandleAppendEntries ::
    "instant \<Rightarrow> AppendEntriesArgs \<Rightarrow> RaftNode \<Rightarrow> AppendEntriesReply \<times> RaftNode" where
  "HandleAppendEntries now args n =
     (let n1 = (if ae_Term args > currentTerm n then becomeFollower (ae_Term args) n
                else if ae_Term args = currentTerm n \<and> nstate n = Candidate
                then n\<lparr>nstate := Follower\<rparr> else n);
          reply = \<lparr>aer_Term = currentTerm n1, aer_Success = False, aer_ConflictTerm = 0,
                   aer_ConflictIndex = 0\<rparr>
      in if ae_Term args < currentTerm n1 then (reply, n1)
         else
           let n2 = notifyHeartbeat (n1\<lparr>leaderID := ae_LeaderID args, lastLeaderContact := now\<rparr>)
           in case consistency_reject args n2 of
                Some rej \<Rightarrow> (rej, n2)
              | None \<Rightarrow>
                  let n3 = n2\<lparr>rlog := merge_entries (rlog n2) (ae_Entries args)\<rparr>;
                      n4 = persist (follow_commit (ae_LeaderCommit args) n3);
                      n5 = (if ae_Entries args = []
                            then n4\<lparr>heartbeatsRecv := heartbeatsRecv n4 + 1\<rparr> else n4)
                  in (reply\<lparr>aer_Success := True\<rparr>, n5))"

section \<open>Merging entries\<close>

text \<open>The log holds, at the index of the \<open>k\<close>th entry of a batch that follows \<open>p\<close>, its term.\<close>

definition agrees :: "Log \<Rightarrow> nat \<Rightarrow> LogEntry list \<Rightarrow> nat \<Rightarrow> bool" where
  "agrees l p es k \<longleftrightarrow> (\<exists>e. log_map l (p + 1 + k) = Some e \<and> le_Term e = le_Term (es ! k))"

text \<open>
  The effect of the merge loop on a batch numbered from \<open>p + 1\<close>: nothing when every entry
  is compacted or agrees; otherwise the first entry that does neither replaces, with the entries
  after it, everything the log held from its index on.
\<close>

definition merged_at :: "Log \<Rightarrow> nat \<Rightarrow> LogEntry list \<Rightarrow> nat \<Rightarrow> Log \<Rightarrow> bool" where
  "merged_at l p es k l' \<longleftrightarrow>
     k < length es \<and> log_base l < p + 1 + k \<and> p + 1 + k \<le> log_top l + 1
     \<and> \<not> agrees l p es k \<and> (\<forall>m < k. log_base l < p + 1 + m \<longrightarrow> agrees l p es m)
     \<and> (\<forall>j. log_map l' j = (if j < p + 1 + k then log_map l j
                            else if j \<le> p + length es then Some (es ! (j - p - 1)) else None))"

definition merge_result :: "Log \<Rightarrow> nat \<Rightarrow> LogEntry list \<Rightarrow> Log \<Rightarrow> bool" where
  "merge_result l p es l' \<longleftrightarrow>
     wf_log l' \<and> log_sentinel l' = log_sentinel l
     \<and> (l' = l \<and> (\<forall>k < length es. log_base l < p + 1 + k \<longrightarrow> agrees l p es k)
        \<or> (\<exists>k. merged_at l p es k l'))"

lemma numbered_Cons:
  "numbered p (e # es) \<longleftrightarrow> unat (le_Index e) = p \<and> le_Term e \<noteq> 0 \<and> numbered (p + 1) es"
  if "p + 1 + length es < 2 ^ 64"
  using that by (auto simp: numbered_def All_less_Suc2)

lemma agrees_Cons: "agrees l p (e # es) (Suc k) = agrees l (p + 1) es k"
  by (simp add: agrees_def)

lemma merged_at_Cons:
  assumes "merged_at l (p + 1) es k l'" and "log_base l < p + 1 \<longrightarrow> agrees l p (e # es) 0"
  shows "merged_at l p (e # es) (Suc k) l'"
proof -
  have "(e # es) ! (j - p - 1) = es ! (j - (p + 1) - 1)" if "p + 1 + 1 + k \<le> j" for j
    using that by (cases "j - p - 1") auto
  then show ?thesis
    using assms by (auto simp: merged_at_def agrees_Cons All_less_Suc2)
qed

lemma merge_result_Cons:
  assumes "merge_result l (p + 1) es l'" and "log_base l < p + 1 \<longrightarrow> agrees l p (e # es) 0"
  shows "merge_result l p (e # es) l'"
proof -
  have "\<forall>k < length (e # es). log_base l < p + 1 + k \<longrightarrow> agrees l p (e # es) k"
    if "\<forall>k < length es. log_base l < p + 1 + 1 + k \<longrightarrow> agrees l (p + 1) es k"
    using that assms(2) by (auto simp: All_less_Suc2 agrees_Cons)
  then show ?thesis
    using assms merged_at_Cons [of l p es _ l' e] unfolding merge_result_def by blast
qed

lemma merge_result_replace:
  assumes wf: "wf_log l" and num: "numbered (p + 1) (e # es)" and i: "unat (le_Index e) = p + 1"
    and rng: "log_base l < p + 1" "p \<le> log_top l" and no: "\<not> agrees l p (e # es) 0"
  shows "merge_result l p (e # es) (log_append (truncateFrom l (le_Index e)) (e # es))"
proof -
  have w: "wf_log (log_append (truncateFrom l (le_Index e)) (e # es))"
    using rl.replace_suffix_wf [OF wf, of "le_Index e" "e # es"] num rng i by simp
  have "log_map (log_append (truncateFrom l (le_Index e)) (e # es)) j =
      (if j < p + 1 + 0 then log_map l j
       else if j \<le> p + length (e # es) then Some ((e # es) ! (j - p - 1)) else None)" for j
    using rl.replace_suffix_look [OF wf, of "le_Index e" "e # es" j] rng i by simp
  with no rng have "merged_at l p (e # es) 0 (log_append (truncateFrom l (le_Index e)) (e # es))"
    unfolding merged_at_def by simp
  with w show ?thesis
    unfolding merge_result_def by auto
qed

lemma truncateFrom_past: "wf_log l \<Longrightarrow> log_top l < unat i \<Longrightarrow> truncateFrom l i = l"
  by (auto simp: truncateFrom_def Let_def u64_nat unat_u64_len unat_sub_if' log_top_def)

lemma merge_entries_result:
  assumes "wf_log l" and "numbered (p + 1) es" and "p \<le> log_top l"
  shows "merge_result l p es (merge_entries l es)"
  using assms(2,3)
proof (induction es arbitrary: p)
  case Nil
  then show ?case
    using assms(1) by (simp add: merge_result_def)
next
  case (Cons e es)
  have "p + 1 + 1 + length es < 2 ^ 64"
    using Cons.prems(1) by (simp add: numbered_def)
  with Cons.prems(1) have i: "unat (le_Index e) = p + 1" and t: "le_Term e \<noteq> 0"
      and num: "numbered (p + 1 + 1) es"
    by (simp_all add: numbered_Cons)
  have idx: "le_Index e \<le> snapshotIndex l \<longleftrightarrow> p + 1 \<le> log_base l"
    using i by (simp add: u64_nat)
  have get: "le_Term (log_get l (le_Index e)) = 0 \<longleftrightarrow> log_map l (p + 1) = None"
    using get_term_0_iff [OF assms(1), of "le_Index e"] i by simp
  have ag: "agrees l p (e # es) 0 \<longleftrightarrow>
      log_map l (p + 1) \<noteq> None \<and> le_Term (log_get l (le_Index e)) = le_Term e"
    using i by (auto simp: agrees_def log_get_map [OF assms(1)])
  consider "p + 1 \<le> log_base l" | "log_base l < p + 1" "agrees l p (e # es) 0"
    | "log_base l < p + 1" "\<not> agrees l p (e # es) 0" by linarith
  then show ?case
  proof cases
    case 1
    then have "merge_result l (p + 1) es (merge_entries l es)"
      using num by (intro Cons.IH) (auto intro: le_trans [OF _ log_base_le_top])
    then show ?thesis
      using 1 idx by (simp add: merge_result_Cons)
  next
    case 2
    then have "p + 1 \<le> log_top l"
      using log_map_None_iff [of l "p + 1"] ag by auto
    then have "merge_result l (p + 1) es (merge_entries l es)"
      using num by (intro Cons.IH) simp_all
    then show ?thesis
      using 2 idx get ag t by (auto simp: merge_result_Cons)
  next
    case 3
    have "log_map l (p + 1) = None \<Longrightarrow> truncateFrom l (le_Index e) = l"
      using 3 Cons.prems(2) i by (intro truncateFrom_past [OF assms(1)]) (auto simp: log_map_None_iff)
    then have "merge_entries l (e # es) = log_append (truncateFrom l (le_Index e)) (e # es)"
      using 3 idx get ag by auto
    then show ?thesis
      using merge_result_replace [OF assms(1) Cons.prems(1) i] 3 Cons.prems(2) by simp
  qed
qed

text \<open>What the callers use of it.\<close>

lemma merge_result_below: "merge_result l p es l' \<Longrightarrow> j \<le> p \<Longrightarrow> log_map l' j = log_map l j"
  by (auto simp: merge_result_def merged_at_def)

lemma merge_result_agrees:
  "merge_result l p es l' \<Longrightarrow> k < length es \<Longrightarrow> log_base l < p + 1 + k \<Longrightarrow> agrees l' p es k"
proof -
  assume m: "merge_result l p es l'" and k: "k < length es" "log_base l < p + 1 + k"
  { fix c assume c: "merged_at l p es c l'"
    have "agrees l' p es k"
    proof (cases "k < c")
      case True
      with c k have "agrees l p es k" by (simp add: merged_at_def)
      with c True show ?thesis by (simp add: merged_at_def agrees_def)
    next
      case False
      with c k show ?thesis by (simp add: merged_at_def agrees_def)
    qed }
  with m k show ?thesis unfolding merge_result_def by blast
qed

text \<open>An entry of the batch is stored as it is, unless one of its term was there already.\<close>

lemma merge_result_stored:
  assumes "merge_result l p es l'" and "k < length es" "log_base l < p + 1 + k"
  shows "log_map l' (p + 1 + k) = Some (es ! k)
     \<or> agrees l p es k \<and> log_map l' (p + 1 + k) = log_map l (p + 1 + k)"
proof -
  have "?thesis" if c: "merged_at l p es c l'" for c
    using c assms(2,3) by (cases "k < c") (auto simp: merged_at_def)
  then show ?thesis using assms unfolding merge_result_def by blast
qed

lemma merge_result_keeps:
  "merge_result l p es l' \<Longrightarrow>
     (\<forall>k < length es. log_base l < p + 1 + k \<longrightarrow> p + 1 + k \<le> c \<longrightarrow> agrees l p es k) \<Longrightarrow>
     j \<le> c \<Longrightarrow> log_map l' j = log_map l j"
  by (auto simp: merge_result_def merged_at_def)

lemma merge_result_base: "merge_result l p es l' \<Longrightarrow> log_base l' = log_base l"
  by (simp add: merge_result_def log_base_def snapshotIndex_def
      del: unat_snapshotIndex unat_sentinel_Index)

lemma merge_result_top:
  assumes "merge_result l p es l'" and "p \<le> log_top l"
  shows "p + length es \<le> log_top l'"
proof (cases "es = [] \<or> p + length es \<le> log_base l")
  case True
  have "log_map l p = log_map l' p"
    using merge_result_below [OF assms(1)] by simp
  then show ?thesis
    using True assms merge_result_base [OF assms(1)] log_base_le_top [of l'] log_map_None_iff [of l p]
      log_map_None_iff [of l' p] by (metis add_0_right dual_order.trans le_eq_less_or_eq list.size(3) not_le)
next
  case False
  then have "agrees l' p es (length es - 1)"
    by (intro merge_result_agrees [OF assms(1)]) (auto simp: Suc_le_eq neq_Nil_conv)
  then have "log_map l' (p + length es) \<noteq> None"
    using False by (auto simp: agrees_def Suc_le_eq neq_Nil_conv)
  then show ?thesis
    by (simp add: log_map_None_iff)
qed

lemmas merge_result_facts =
  merge_result_below merge_result_agrees merge_result_keeps merge_result_base merge_result_top

text \<open>
  C12: merging a batch that continues the log at \<open>p\<close> leaves a well-formed log that holds every entry
  of the batch above the snapshot, nothing at or below \<open>p\<close> changes, and up to any index where the
  log already agreed with the batch nothing is lost: entries are removed only from the first
  conflict on.
\<close>

theorem merge_entries_spec:
  assumes "wf_log l" and "numbered (p + 1) es" and "p \<le> log_top l"
  shows "wf_log (merge_entries l es)
     \<and> (\<forall>k < length es. log_base l < p + 1 + k \<longrightarrow> agrees (merge_entries l es) p es k)
     \<and> (\<forall>j \<le> p. log_map (merge_entries l es) j = log_map l j)
     \<and> (\<forall>c. (\<forall>k < length es. log_base l < p + 1 + k \<longrightarrow> p + 1 + k \<le> c \<longrightarrow> agrees l p es k) \<longrightarrow>
            (\<forall>j \<le> c. log_map (merge_entries l es) j = log_map l j))"
  using merge_entries_result [OF assms] merge_result_facts(1-3) [OF merge_entries_result [OF assms]]
  by (auto simp: merge_result_def [of l p es "merge_entries l es"])

text \<open>A two-entry log used in examples.\<close>

definition two_entries :: Log where
  "two_entries = log_append newLog [mark_entry 1 1, mark_entry 2 1]"

lemma numbered_Nil [simp]: "numbered p [] \<longleftrightarrow> p < 2 ^ 64"
  by (simp add: numbered_def)

lemma mark_entry_simps [simp]: "le_Index (mark_entry i t) = i" "le_Term (mark_entry i t) = t"
  by (simp_all add: mark_entry_def zero_entry_def)

lemma two_entries_facts [simp]: "wf_log two_entries" "log_top two_entries = 2" "log_base two_entries = 0"
  by (simp_all add: two_entries_def wf_log_append numbered_Cons)

theorem merge_entries_spec_witness:
  "agrees (merge_entries two_entries [mark_entry 2 3]) 1 [mark_entry 2 3] 0
   \<and> log_map (merge_entries two_entries [mark_entry 2 3]) 1 = log_map two_entries 1"
  using merge_entries_spec [of two_entries 1 "[mark_entry 2 3]"] by (simp add: numbered_Cons)

section \<open>The handler, case by case\<close>

text \<open>The consistency check passes: nothing to check, or an entry with the right term.\<close>

definition prev_ok :: "AppendEntriesArgs \<Rightarrow> Log \<Rightarrow> bool" where
  "prev_ok args l \<longleftrightarrow> ae_PrevLogIndex args = 0
     \<or> (\<exists>e. log_map l (unat (ae_PrevLogIndex args)) = Some e \<and> le_Term e = ae_PrevLogTerm args)"

lemma unat_pos_u64: "0 < unat (x :: u64) \<longleftrightarrow> x \<noteq> 0"
  by (simp add: unat_gt_0)

lemma consistency_reject_None:
  "wf_log (rlog n) \<Longrightarrow> consistency_reject args n = None \<longleftrightarrow> prev_ok args (rlog n)"
  using get_term_0_iff [of "rlog n" "ae_PrevLogIndex args"]
  by (auto simp: consistency_reject_def prev_ok_def Let_def word_neq_0_conv [symmetric] unat_pos_u64
      log_get_map split: option.splits)

lemma HandleAppendEntries_stale:
  "ae_Term args < currentTerm n \<Longrightarrow>
     HandleAppendEntries now args n = (\<lparr>aer_Term = currentTerm n, aer_Success = False,
       aer_ConflictTerm = 0, aer_ConflictIndex = 0\<rparr>, n)"
  by (auto simp: HandleAppendEntries_def Let_def)

text \<open>The node after the term check of the handler.\<close>

definition ae_follower :: "instant \<Rightarrow> AppendEntriesArgs \<Rightarrow> RaftNode \<Rightarrow> RaftNode" where
  "ae_follower now args n = notifyHeartbeat
     ((if ae_Term args > currentTerm n then becomeFollower (ae_Term args) n
       else if ae_Term args = currentTerm n \<and> nstate n = Candidate then n\<lparr>nstate := Follower\<rparr>
       else n)\<lparr>leaderID := ae_LeaderID args, lastLeaderContact := now\<rparr>)"

lemma ae_follower_simps [simp]:
  "node_id (ae_follower now args n) = node_id n" "peers (ae_follower now args n) = peers n"
  "rlog (ae_follower now args n) = rlog n" "commitIndex (ae_follower now args n) = commitIndex n"
  "lastApplied (ae_follower now args n) = lastApplied n" "config (ae_follower now args n) = config n"
  "leaderID (ae_follower now args n) = ae_LeaderID args" "heartbeatC (ae_follower now args n)"
  "lastLeaderContact (ae_follower now args n) = now"
  "\<not> ae_Term args < currentTerm n \<Longrightarrow> currentTerm (ae_follower now args n) = ae_Term args"
  by (auto simp: ae_follower_def)

lemma disk_works_ae_follower: "disk_works n \<Longrightarrow> disk_works (ae_follower now args n)"
  using disk_works_follower [of n "ae_Term args"] by (simp add: ae_follower_def disk_works_def)

lemma HandleAppendEntries_reject:
  "\<not> ae_Term args < currentTerm n \<Longrightarrow> consistency_reject args (ae_follower now args n) = Some rej \<Longrightarrow>
     HandleAppendEntries now args n = (rej, ae_follower now args n)"
  by (auto simp: HandleAppendEntries_def Let_def ae_follower_def)

lemma HandleAppendEntries_accept:
  assumes "\<not> ae_Term args < currentTerm n" "consistency_reject args (ae_follower now args n) = None"
  shows "HandleAppendEntries now args n =
     (let n4 = persist (follow_commit (ae_LeaderCommit args)
                 ((ae_follower now args n)\<lparr>rlog := merge_entries (rlog n) (ae_Entries args)\<rparr>))
      in (\<lparr>aer_Term = ae_Term args, aer_Success = True, aer_ConflictTerm = 0, aer_ConflictIndex = 0\<rparr>,
          if ae_Entries args = [] then n4\<lparr>heartbeatsRecv := heartbeatsRecv n4 + 1\<rparr> else n4))"
proof -
  consider "currentTerm n < ae_Term args" | "ae_Term args = currentTerm n" "nstate n = Candidate"
    | "ae_Term args = currentTerm n" "nstate n \<noteq> Candidate"
    using assms(1) by fastforce
  then show ?thesis
    using assms(2) by cases (simp_all add: HandleAppendEntries_def Let_def ae_follower_def)
qed

lemma follow_commit_simps [simp]:
  "node_id (follow_commit c n) = node_id n" "peers (follow_commit c n) = peers n"
  "rlog (follow_commit c n) = rlog n" "currentTerm (follow_commit c n) = currentTerm n"
  "votedFor (follow_commit c n) = votedFor n" "nstate (follow_commit c n) = nstate n"
  "lastApplied (follow_commit c n) = lastApplied n" "config (follow_commit c n) = config n"
  "disk (follow_commit c n) = disk n" "leaderID (follow_commit c n) = leaderID n"
  "commitIndex (follow_commit c n) =
     (if c > commitIndex n then min c (lastIndex (rlog n)) else commitIndex n)"
  by (auto simp: follow_commit_def Let_def min_def)

text \<open>
  The entries a request carries continue its \<open>PrevLogIndex\<close>, and do not contradict what the
  receiver has committed.
\<close>

definition ae_valid :: "AppendEntriesArgs \<Rightarrow> RaftNode \<Rightarrow> bool" where
  "ae_valid args n \<longleftrightarrow> numbered (unat (ae_PrevLogIndex args) + 1) (ae_Entries args)
     \<and> (\<forall>k < length (ae_Entries args).
          log_base (rlog n) < unat (ae_PrevLogIndex args) + 1 + k \<longrightarrow>
          unat (ae_PrevLogIndex args) + 1 + k \<le> unat (commitIndex n) \<longrightarrow>
          agrees (rlog n) (unat (ae_PrevLogIndex args)) (ae_Entries args) k)"

lemma prev_ok_top: "prev_ok args l \<Longrightarrow> unat (ae_PrevLogIndex args) \<le> log_top l"
  by (auto simp: prev_ok_def log_map_def split: if_splits)

lemma ae_merge_result:
  "wf_log (rlog n) \<Longrightarrow> ae_valid args n \<Longrightarrow> prev_ok args (rlog n) \<Longrightarrow>
     merge_result (rlog n) (unat (ae_PrevLogIndex args)) (ae_Entries args)
       (merge_entries (rlog n) (ae_Entries args))"
  by (rule merge_entries_result) (simp_all add: ae_valid_def prev_ok_top)

lemma merge_keeps_committed:
  assumes "wf_node n" "ae_valid args n" "prev_ok args (rlog n)"
  shows "j \<le> unat (commitIndex n) \<Longrightarrow> log_map (merge_entries (rlog n) (ae_Entries args)) j = log_map (rlog n) j"
    and "unat (commitIndex n) \<le> log_top (merge_entries (rlog n) (ae_Entries args))"
proof -
  let ?l' = "merge_entries (rlog n) (ae_Entries args)"
  have m: "merge_result (rlog n) (unat (ae_PrevLogIndex args)) (ae_Entries args) ?l'"
    using ae_merge_result assms by (simp add: wf_node_def)
  show keep: "j \<le> unat (commitIndex n) \<Longrightarrow> log_map ?l' j = log_map (rlog n) j" for j
    using merge_result_keeps [OF m, of "unat (commitIndex n)" j] assms(2) by (simp add: ae_valid_def)
  have "log_map (rlog n) (unat (commitIndex n)) \<noteq> None"
    using assms(1) by (auto simp: wf_node_def log_map_None_iff u64_nat)
  then show "unat (commitIndex n) \<le> log_top ?l'"
    using keep [of "unat (commitIndex n)"] log_map_None_iff [of ?l' "unat (commitIndex n)"] by fastforce
qed

lemma wf_node_follow:
  assumes "wf_log (rlog n)" "log_base (rlog n) \<le> unat (lastApplied n)" "lastApplied n \<le> commitIndex n"
    and "unat (commitIndex n) \<le> log_top (rlog n)"
  shows "wf_node (follow_commit c n) \<and> commitIndex n \<le> commitIndex (follow_commit c n)"
  using assms by (auto simp: wf_node_def min_def u64_nat unat_lastIndex)

lemma HandleAppendEntries_success_iff:
  "wf_log (rlog n) \<Longrightarrow> aer_Success (fst (HandleAppendEntries now args n)) \<longleftrightarrow>
     \<not> ae_Term args < currentTerm n \<and> prev_ok args (rlog n)"
proof (cases "ae_Term args < currentTerm n")
  case False
  assume wf: "wf_log (rlog n)"
  have rej: "\<not> aer_Success rej" if "consistency_reject args m = Some rej" for rej m
    using that by (auto simp: consistency_reject_def Let_def split: if_splits)
  show ?thesis
    using False wf consistency_reject_None [of "ae_follower now args n" args] rej
    by (cases "consistency_reject args (ae_follower now args n)")
      (auto simp: HandleAppendEntries_reject HandleAppendEntries_accept Let_def)
qed (simp add: HandleAppendEntries_stale)

lemma HandleAppendEntries_accepted:
  assumes "wf_log (rlog n)" "aer_Success (fst (HandleAppendEntries now args n))"
  shows "\<exists>k. snd (HandleAppendEntries now args n) =
     (persist (follow_commit (ae_LeaderCommit args)
        ((ae_follower now args n)\<lparr>rlog := merge_entries (rlog n) (ae_Entries args)\<rparr>)))
       \<lparr>heartbeatsRecv := k\<rparr>"
proof -
  have ok: "\<not> ae_Term args < currentTerm n" "consistency_reject args (ae_follower now args n) = None"
    using assms HandleAppendEntries_success_iff consistency_reject_None [of "ae_follower now args n" args]
    by auto
  have eq: "m = m\<lparr>heartbeatsRecv := heartbeatsRecv m\<rparr>" for m :: RaftNode by simp
  show ?thesis
    unfolding HandleAppendEntries_accept [OF ok] Let_def snd_conv by (metis eq)
qed

lemma HandleAppendEntries_failed:
  assumes "wf_log (rlog n)" "\<not> aer_Success (fst (HandleAppendEntries now args n))"
  shows "snd (HandleAppendEntries now args n) \<in> {n, ae_follower now args n}"
  using assms consistency_reject_None [of "ae_follower now args n" args]
  by (cases "ae_Term args < currentTerm n"; cases "consistency_reject args (ae_follower now args n)")
    (auto simp: HandleAppendEntries_success_iff HandleAppendEntries_stale HandleAppendEntries_reject)

lemma HandleAppendEntries_rejected:
  assumes "wf_log (rlog n)" "\<not> aer_Success (fst (HandleAppendEntries now args n))" "\<not> ae_Term args < currentTerm n"
  shows "snd (HandleAppendEntries now args n) = ae_follower now args n"
  using assms consistency_reject_None [of "ae_follower now args n" args] HandleAppendEntries_success_iff [OF assms(1)]
  by (cases "consistency_reject args (ae_follower now args n)") (auto simp: HandleAppendEntries_reject)

lemma votedFor_ae_follower:
  "\<not> ae_Term args < currentTerm n \<Longrightarrow>
     votedFor (ae_follower now args n) = (if ae_Term args = currentTerm n then votedFor n else '''')"
  by (auto simp: ae_follower_def)

lemma disk_works_follow_commit: "disk_works (follow_commit c n) = disk_works n"
  by (simp add: disk_works_def)

lemma in_sync_heartbeats [simp]: "in_sync (n\<lparr>heartbeatsRecv := k\<rparr>) = in_sync n"
  by (simp add: in_sync_def persisted_of_def)

text \<open>
  C6: AppendEntries on a well-formed node with a working disk, for a request whose entries are numbered
  from \<open>PrevLogIndex + 1\<close> and agree with what the node has committed. It succeeds exactly when its
  term is not old and the log holds an entry with \<open>PrevLogTerm\<close> at \<open>PrevLogIndex\<close>. On success the node
  invariant holds again, every entry of the request above the snapshot is stored (or an entry of the
  same term was already there and is kept), committed entries are unchanged, the commit index follows
  the leader's up to the last entry and does not fall, and term, vote and log are on disk. A request of
  an old term changes nothing at all; one that fails the log check changes neither log nor commit
  index, but its term and its leader are taken over, and the vote is cleared if the term is new.
\<close>

theorem HandleAppendEntries_spec:
  assumes "wf_node n" and "disk_works n" and "ae_valid args n"
    and "HandleAppendEntries now args n = (reply, n')"
  shows "(aer_Success reply \<longleftrightarrow> \<not> ae_Term args < currentTerm n \<and> prev_ok args (rlog n))
     \<and> (aer_Success reply \<longrightarrow>
          wf_node n' \<and> in_sync n' \<and> currentTerm n' = ae_Term args
          \<and> (\<forall>k < length (ae_Entries args). log_base (rlog n) < unat (ae_PrevLogIndex args) + 1 + k \<longrightarrow>
               log_map (rlog n') (unat (ae_PrevLogIndex args) + 1 + k) = Some (ae_Entries args ! k)
               \<or> agrees (rlog n) (unat (ae_PrevLogIndex args)) (ae_Entries args) k
                 \<and> log_map (rlog n') (unat (ae_PrevLogIndex args) + 1 + k)
                     = log_map (rlog n) (unat (ae_PrevLogIndex args) + 1 + k))
          \<and> (\<forall>j \<le> unat (commitIndex n). log_map (rlog n') j = log_map (rlog n) j)
          \<and> commitIndex n' = (if ae_LeaderCommit args > commitIndex n
               then min (ae_LeaderCommit args) (lastIndex (rlog n')) else commitIndex n)
          \<and> commitIndex n \<le> commitIndex n')
     \<and> (ae_Term args < currentTerm n \<longrightarrow> n' = n)
     \<and> (\<not> aer_Success reply \<and> \<not> ae_Term args < currentTerm n \<longrightarrow>
          rlog n' = rlog n \<and> commitIndex n' = commitIndex n \<and> lastApplied n' = lastApplied n
          \<and> currentTerm n' = ae_Term args \<and> leaderID n' = ae_LeaderID args
          \<and> votedFor n' = (if ae_Term args = currentTerm n then votedFor n else ''''))"
proof -
  have r: "reply = fst (HandleAppendEntries now args n)" "n' = snd (HandleAppendEntries now args n)"
    using assms(4) by simp_all
  have wf: "wf_log (rlog n)" using assms(1) by (simp add: wf_node_def)
  let ?m = "(ae_follower now args n)\<lparr>rlog := merge_entries (rlog n) (ae_Entries args)\<rparr>"
  have acc: ?thesis if ok: "aer_Success reply"
  proof -
    have iff: "\<not> ae_Term args < currentTerm n" "prev_ok args (rlog n)"
      using ok HandleAppendEntries_success_iff [OF wf] r(1) by auto
    note m = ae_merge_result [OF wf assms(3) iff(2)]
    note keep = merge_keeps_committed [OF assms(1,3) iff(2)]
    obtain k where n': "n' = (persist (follow_commit (ae_LeaderCommit args) ?m))\<lparr>heartbeatsRecv := k\<rparr>"
      using HandleAppendEntries_accepted [OF wf, of now args] ok r by auto
    have "disk_works ?m"
      using disk_works_ae_follower [OF assms(2)] by (simp add: disk_works_def)
    then have "in_sync n'"
      by (simp add: n' in_sync_persist disk_works_follow_commit)
    moreover have "wf_node n' \<and> commitIndex n \<le> commitIndex n'"
      using wf_node_follow [of ?m "ae_LeaderCommit args"] assms(1) m keep(2) merge_result_base [OF m]
      by (simp add: n' wf_node_def merge_result_def)
    ultimately show ?thesis
      using ok iff keep(1) merge_result_stored [OF m] n' by simp
  qed
  moreover have ?thesis if fail: "\<not> aer_Success reply"
  proof (cases "ae_Term args < currentTerm n")
    case True
    then have "n' = n" using assms(4) by (simp add: HandleAppendEntries_stale)
    then show ?thesis using fail True by simp
  next
    case False
    then have "n' = ae_follower now args n" "\<not> prev_ok args (rlog n)"
      using fail HandleAppendEntries_rejected [OF wf _ False] HandleAppendEntries_success_iff [OF wf] r by auto
    then show ?thesis using fail False by (simp add: votedFor_ae_follower)
  qed
  ultimately show ?thesis by blast
qed

theorem HandleAppendEntries_spec_witness:
  "\<exists>reply n'. HandleAppendEntries 7 \<lparr>ae_Term = 1, ae_LeaderID = ''n2'', ae_PrevLogIndex = 0,
        ae_PrevLogTerm = 0, ae_Entries = [mark_entry 1 1], ae_LeaderCommit = 0\<rparr>
        (fresh_node ''n1'' ''a'' [''b'']) = (reply, n')
     \<and> aer_Success reply \<and> wf_node n' \<and> in_sync n' \<and> log_map (rlog n') 1 = Some (mark_entry 1 1)"
proof -
  let ?args = "\<lparr>ae_Term = 1, ae_LeaderID = ''n2'', ae_PrevLogIndex = 0, ae_PrevLogTerm = 0,
     ae_Entries = [mark_entry 1 1], ae_LeaderCommit = 0\<rparr>" and ?n = "fresh_node ''n1'' ''a'' [''b'']"
  obtain reply n' where r: "HandleAppendEntries 7 ?args ?n = (reply, n')" by fastforce
  have "ae_valid ?args ?n" by (simp add: ae_valid_def numbered_Cons)
  moreover have "\<not> agrees newLog 0 [mark_entry 1 1] 0" by (simp add: agrees_def log_map_def log_top_def newLog_def log_base_def snapshotIndex_def)
  ultimately show ?thesis
    using r HandleAppendEntries_spec [OF wf_node_fresh disk_works_fresh _ r] by (simp add: prev_ok_def)
qed

text \<open>
  C28: the conflict hint of a failed consistency check: without an entry at \<open>PrevLogIndex\<close>, the
  index after the last entry; with an entry of another term, that term and the first index of the
  log that carries it, at or before \<open>PrevLogIndex\<close>.
\<close>

theorem consistency_reject_hint:
  assumes "wf_log (rlog n)" and "consistency_reject args n = Some reply"
  shows "case log_map (rlog n) (unat (ae_PrevLogIndex args)) of
      None \<Rightarrow> aer_ConflictTerm reply = 0 \<and> unat (aer_ConflictIndex reply) = log_top (rlog n) + 1
    | Some e \<Rightarrow> aer_ConflictTerm reply = le_Term e \<and> le_Term e \<noteq> ae_PrevLogTerm args
        \<and> unat (aer_ConflictIndex reply) \<le> unat (ae_PrevLogIndex args)
        \<and> (\<exists>f. log_map (rlog n) (unat (aer_ConflictIndex reply)) = Some f \<and> le_Term f = le_Term e)
        \<and> (\<forall>j f. j < unat (aer_ConflictIndex reply) \<longrightarrow> log_map (rlog n) j = Some f \<longrightarrow>
               le_Term f \<noteq> le_Term e)"
proof -
  have p: "ae_PrevLogIndex args \<noteq> 0"
    using assms(2) by (auto simp: consistency_reject_def split: if_splits)
  note get = get_term_0_iff [OF assms(1), of "ae_PrevLogIndex args"]
  show ?thesis
  proof (cases "log_map (rlog n) (unat (ae_PrevLogIndex args))")
    case None
    then show ?thesis
      using assms(2) p get lastIndex_plus1 [OF assms(1)]
      by (auto simp: consistency_reject_def Let_def unat_pos_u64 split: if_splits)
  next
    case (Some e)
    then have "reply = \<lparr>aer_Term = currentTerm n, aer_Success = False, aer_ConflictTerm = le_Term e,
        aer_ConflictIndex = firstIndexForTerm (rlog n) (le_Term e)\<rparr>" "le_Term e \<noteq> ae_PrevLogTerm args"
      using assms p get
      by (auto simp: consistency_reject_def Let_def unat_pos_u64 log_get_map split: if_splits)
    then show ?thesis
      using firstIndexForTerm_first [OF assms(1) Some] Some by auto
  qed
qed

theorem consistency_reject_hint_witness:
  "\<exists>reply. consistency_reject \<lparr>ae_Term = 4, ae_LeaderID = ''n2'', ae_PrevLogIndex = 2,
       ae_PrevLogTerm = 3, ae_Entries = [], ae_LeaderCommit = 0\<rparr>
       (fresh_node ''n1'' ''a'' [''b'']\<lparr>rlog := two_entries\<rparr>) = Some reply
     \<and> aer_ConflictTerm reply = 1 \<and> unat (aer_ConflictIndex reply) \<le> 2"
proof -
  let ?args = "\<lparr>ae_Term = 4, ae_LeaderID = ''n2'', ae_PrevLogIndex = 2, ae_PrevLogTerm = 3,
     ae_Entries = [], ae_LeaderCommit = 0\<rparr>"
  let ?n = "fresh_node ''n1'' ''a'' [''b'']\<lparr>rlog := two_entries\<rparr>"
  have look: "log_map two_entries 2 = Some (mark_entry 2 1)"
    by (simp add: two_entries_def log_map_append)
  have "\<not> prev_ok ?args (rlog ?n)" by (simp add: prev_ok_def look)
  then obtain reply where "consistency_reject ?args ?n = Some reply"
    using consistency_reject_None [of ?n ?args] by auto
  then show ?thesis
    using consistency_reject_hint [of ?n ?args reply] by (simp add: look)
qed

section \<open>Commit index of the leader\<close>

text \<open>How many members hold the log up to \<open>i\<close>, the leader included.\<close>

definition replicas :: "RaftNode \<Rightarrow> u64 \<Rightarrow> nat" where
  "replicas n i = length (filter (\<lambda>x. i \<le> x) (lastIndex (rlog n) # map (go_read (matchIndex n)) (peers n)))"

definition is_majority :: "RaftNode \<Rightarrow> nat \<Rightarrow> bool" where
  "is_majority n c \<longleftrightarrow> length (peers n) + 1 < 2 * c"

lemma majority_of_le: "majority_of ps \<le> c \<longleftrightarrow> length ps + 1 < 2 * c"
  by (auto simp: majority_of_def)

lemma quorum_index_majority:
  "is_majority n (replicas n (quorum_index n))"
  "quorum_index n < i \<Longrightarrow> \<not> is_majority n (replicas n i)"
proof -
  let ?xs = "lastIndex (rlog n) # map (go_read (matchIndex n)) (peers n)"
  have len: "majority_of (peers n) - 1 < length ?xs"
    by (simp add: majority_of_def)
  have pos: "0 < majority_of (peers n)" by (simp add: majority_of_def)
  have "majority_of (peers n) \<le> replicas n (quorum_index n)"
    using rev_sort_nth_reached [OF len] pos unfolding replicas_def quorum_index_def Let_def by linarith
  then show "is_majority n (replicas n (quorum_index n))"
    by (simp add: is_majority_def majority_of_le)
  assume "quorum_index n < i"
  then have "replicas n i < majority_of (peers n)"
    using rev_sort_nth_maximal [OF len, of i] pos unfolding replicas_def quorum_index_def Let_def by linarith
  then show "\<not> is_majority n (replicas n i)"
    using majority_of_le [of "peers n" "replicas n i"] by (simp add: is_majority_def)
qed

lemma quorum_index_ge: "is_majority n (replicas n i) \<Longrightarrow> i \<le> quorum_index n"
  using quorum_index_majority(2) by (meson not_le)

text \<open>
  C7: \<open>maybeCommit\<close> advances the commit index only to an index that a majority of the cluster holds
  and whose entry in the leader's log is of the leader's own term, and changes nothing else of the
  term, the vote and the log.
\<close>

theorem maybeCommit_safe:
  assumes "wf_log (rlog n)" and "currentTerm n \<noteq> 0"
  shows "commitIndex n \<le> commitIndex (maybeCommit n)
     \<and> (commitIndex (maybeCommit n) = commitIndex n
        \<or> is_majority n (replicas n (commitIndex (maybeCommit n)))
          \<and> (\<exists>e. log_map (rlog n) (unat (commitIndex (maybeCommit n))) = Some e \<and> le_Term e = currentTerm n))
     \<and> rlog (maybeCommit n) = rlog n \<and> currentTerm (maybeCommit n) = currentTerm n
     \<and> votedFor (maybeCommit n) = votedFor n"
  using assms(2) quorum_index_majority(1) [of n]
  by (auto simp: maybeCommit_def Let_def log_get_map [OF assms(1)] zero_entry_def split: option.splits)

text \<open>
  C27: \<open>maybeCommit\<close> commits as much as it may: when a majority holds the log up to \<open>i\<close> and the
  leader's entries from \<open>i\<close> on are of its own term, the commit index reaches \<open>i\<close>.
\<close>

theorem maybeCommit_progress:
  assumes "wf_log (rlog n)" and "is_majority n (replicas n i)" and "log_base (rlog n) \<le> unat i"
    and "\<forall>p. go_read (matchIndex n) p \<le> lastIndex (rlog n)"
    and "\<forall>j e. unat i \<le> j \<longrightarrow> log_map (rlog n) j = Some e \<longrightarrow> le_Term e = currentTerm n"
  shows "i \<le> commitIndex (maybeCommit n)"
proof -
  have q: "i \<le> quorum_index n" by (rule quorum_index_ge [OF assms(2)])
  have "replicas n (quorum_index n) = 0" if "lastIndex (rlog n) < quorum_index n"
    using that assms(4) by (auto simp: replicas_def filter_empty_conv) (meson leD le_less_trans)
  then have "quorum_index n \<le> lastIndex (rlog n)"
    using quorum_index_majority(1) [of n] by (auto simp: is_majority_def not_le [symmetric])
  then have "log_map (rlog n) (unat (quorum_index n)) \<noteq> None"
    using assms(1,3) q by (auto simp: log_map_None_iff u64_nat unat_lastIndex)
  then have "le_Term (log_get (rlog n) (quorum_index n)) = currentTerm n"
    using assms(1,5) q by (auto simp: log_get_map u64_nat)
  then show ?thesis
    using q by (auto simp: maybeCommit_def Let_def)
qed

text \<open>A leader of term 1 whose peer \<open>b\<close> holds both of its entries.\<close>

definition example_leader :: RaftNode where
  "example_leader = fresh_node ''n1'' ''a'' [''b'', ''c'']
     \<lparr>nstate := Leader, currentTerm := 1, rlog := two_entries,
      matchIndex := [''b'' \<mapsto> 2, ''c'' \<mapsto> 0], nextIndex := [''b'' \<mapsto> 3, ''c'' \<mapsto> 1]\<rparr>"

lemma two_entries_lastIndex [simp]: "lastIndex two_entries = 2"
  by code_simp

lemma two_entries_map:
  "0 < j \<Longrightarrow> log_map two_entries j = Some e \<Longrightarrow> le_Term e = 1"
proof -
  assume "0 < j" "log_map two_entries j = Some e"
  then have "j \<in> {1, 2}" "log_map two_entries j = Some e"
    by (auto simp: log_map_def split: if_splits)
  then show "le_Term e = 1"
    by (auto simp: two_entries_def log_map_append)
qed

theorem maybeCommit_safe_witness:
  "commitIndex example_leader \<le> commitIndex (maybeCommit example_leader)
   \<and> rlog (maybeCommit example_leader) = rlog example_leader"
  using maybeCommit_safe [of example_leader] by (simp add: example_leader_def)

theorem maybeCommit_progress_witness:
  "2 \<le> commitIndex (maybeCommit example_leader)"
proof (rule maybeCommit_progress)
  show "is_majority example_leader (replicas example_leader 2)"
    by (simp add: is_majority_def replicas_def example_leader_def)
  show "\<forall>p. go_read (matchIndex example_leader) p \<le> lastIndex (rlog example_leader)"
    by (simp add: example_leader_def)
  show "\<forall>j e. unat (2 :: u64) \<le> j \<longrightarrow> log_map (rlog example_leader) j = Some e \<longrightarrow>
          le_Term e = currentTerm example_leader"
    by (auto simp: example_leader_def dest: two_entries_map [rotated])
qed (simp_all add: example_leader_def)

section \<open>From the leader's log to the follower's\<close>

lemma buildArgsLocked_facts:
  assumes wf: "wf_log (rlog n)" and nx: "snapshotIndex (rlog n) < go_read (nextIndex n) peer"
  defines "p \<equiv> unat (go_read (nextIndex n) peer) - 1" and "es \<equiv> ae_Entries (buildArgsLocked n peer)"
  shows "unat (ae_PrevLogIndex (buildArgsLocked n peer)) = p" and "log_base (rlog n) \<le> p"
    and "numbered (p + 1) es" and "length es = log_top (rlog n) - p"
    and "k < length es \<Longrightarrow> log_map (rlog n) (p + 1 + k) = Some (es ! k)"
proof -
  let ?next = "unat (go_read (nextIndex n) peer)"
  have pos: "log_base (rlog n) < ?next" using nx by (simp add: u64_nat)
  then show base: "log_base (rlog n) \<le> p" by (simp add: p_def)
  have "1 \<le> go_read (nextIndex n) peer" using pos by (simp add: u64_nat)
  then show "unat (ae_PrevLogIndex (buildArgsLocked n peer)) = p"
    by (simp add: p_def buildArgsLocked_def Let_def unat_sub_if' u64_nat)
  have es: "es = map (\<lambda>i. the (log_map (rlog n) i)) [p + 1..<log_top (rlog n) + 1]"
    using pos lastIndex_plus1 [OF wf]
    by (simp add: es_def buildArgsLocked_def Let_def slice_map [OF wf] p_def max.absorb1 del: upt_Suc)
  then show len: "length es = log_top (rlog n) - p" by (simp del: upt_Suc)
  show nth: "log_map (rlog n) (p + 1 + k) = Some (es ! k)" if "k < length es" for k
    using that base by (auto simp: es log_map_def simp del: upt_Suc)
  have "unat (le_Index (es ! k)) = p + 1 + k \<and> le_Term (es ! k) \<noteq> 0" if "k < length es" for k
    using nth [OF that] log_map_index [OF wf] log_map_term_nonzero [OF wf] by fastforce
  moreover have "p + 1 + length es < 2 ^ 64"
    using len log_top_bound [OF wf] unat_u64_bound [of "go_read (nextIndex n) peer"] pos
    by (auto simp: p_def)
  ultimately show "numbered (p + 1) es" by (simp add: numbered_def)
qed

lemma replicate_to_SendToPeer:
  "replicate_to n peer = SendToPeer peer' t args \<longleftrightarrow>
     snapshotIndex (rlog n) < go_read (nextIndex n) peer \<and> peer' = peer \<and> t = currentTerm n
     \<and> args = buildArgsLocked n peer"
  by (auto simp: replicate_to_def not_le)

text \<open>
  C13: one replication step, leader to follower: when a follower accepts the AppendEntries request a
  leader builds for it, its log holds, from \<open>PrevLogIndex\<close> to the leader's last index and above its
  own snapshot, an entry of the same term as the leader's at each index; and its commit index is the
  one it had or the leader's, so it never passes what this request has checked.
\<close>

theorem replication_step:
  assumes "wf_log (rlog ldr)" and "wf_log (rlog f)" and "unat (commitIndex ldr) \<le> log_top (rlog ldr)"
    and "replicate_to ldr peer = SendToPeer peer t args"
    and "HandleAppendEntries now args f = (reply, f')" and "aer_Success reply"
  shows "(\<forall>j. unat (ae_PrevLogIndex args) \<le> j \<and> j \<le> log_top (rlog ldr) \<and> log_base (rlog f) < j \<longrightarrow>
            (\<exists>e e'. log_map (rlog ldr) j = Some e \<and> log_map (rlog f') j = Some e' \<and> le_Term e' = le_Term e))
         \<and> commitIndex f' \<in> {commitIndex f, commitIndex ldr}
         \<and> unat (ae_PrevLogIndex args) \<le> log_top (rlog ldr)"
proof -
  let ?p = "unat (ae_PrevLogIndex args)" and ?es = "ae_Entries args"
  have nx: "snapshotIndex (rlog ldr) < go_read (nextIndex ldr) peer" and args: "args = buildArgsLocked ldr peer"
    using assms(4) by (simp_all add: replicate_to_SendToPeer)
  note b = buildArgsLocked_facts [OF assms(1) nx, folded args]
  have iff: "prev_ok args (rlog f)"
    using HandleAppendEntries_success_iff [OF assms(2), of now args] assms(5,6) by simp
  have term_prev: "ae_PrevLogTerm args = le_Term (log_get (rlog ldr) (ae_PrevLogIndex args))"
    by (simp add: args buildArgsLocked_def Let_def)
  have prev: "?p \<le> log_top (rlog ldr)"
    using iff term_prev get_term_0_iff [OF assms(1), of "ae_PrevLogIndex args"]
      log_map_term_nonzero [OF assms(2), of ?p] log_map_None_iff [of "rlog ldr" ?p]
    by (fastforce simp: prev_ok_def unat_pos_u64)
  have m: "merge_result (rlog f) ?p ?es (merge_entries (rlog f) ?es)"
    using merge_entries_result [OF assms(2) _ prev_ok_top [OF iff]] b by simp
  obtain k where f': "f' = (persist (follow_commit (ae_LeaderCommit args)
      ((ae_follower now args f)\<lparr>rlog := merge_entries (rlog f) ?es\<rparr>)))\<lparr>heartbeatsRecv := k\<rparr>"
    using HandleAppendEntries_accepted [OF assms(2), of now args] assms(5,6) by auto
  have at_prev: "\<exists>e e'. log_map (rlog ldr) ?p = Some e \<and> log_map (rlog f') ?p = Some e' \<and> le_Term e' = le_Term e"
    if "log_base (rlog f) < ?p"
  proof -
    from that have "ae_PrevLogIndex args \<noteq> 0" by auto
    then obtain e' where "log_map (rlog f) ?p = Some e'" "le_Term e' = ae_PrevLogTerm args"
      using iff by (auto simp: prev_ok_def)
    moreover obtain e where "log_map (rlog ldr) ?p = Some e"
      using prev b(1,2) log_map_None_iff [of "rlog ldr" ?p] by fastforce
    ultimately show ?thesis
      using merge_result_below [OF m, of ?p] by (simp add: f' term_prev log_get_map [OF assms(1)])
  qed
  have above: "\<exists>e e'. log_map (rlog ldr) j = Some e \<and> log_map (rlog f') j = Some e' \<and> le_Term e' = le_Term e"
    if "?p < j" "j \<le> log_top (rlog ldr)" "log_base (rlog f) < j" for j
    using merge_result_agrees [OF m, of "j - ?p - 1"] b(5) [of "j - ?p - 1"] that b(1,4)
    by (auto simp: agrees_def f')
  have "?p + length ?es = log_top (rlog ldr)"
    using prev b(1,4) by simp
  then have "unat (commitIndex ldr) \<le> log_top (merge_entries (rlog f) ?es)"
    using merge_result_top [OF m prev_ok_top [OF iff]] assms(3) by linarith
  then have "commitIndex ldr \<le> lastIndex (merge_entries (rlog f) ?es)"
    using m by (simp add: u64_nat unat_lastIndex merge_result_def)
  then have "commitIndex f' \<in> {commitIndex f, commitIndex ldr}"
    by (simp add: f' args buildArgsLocked_def Let_def min_def)
  then show ?thesis
    using at_prev above prev le_eq_less_or_eq by blast
qed

theorem replication_step_witness:
  "\<exists>args reply f'. replicate_to example_leader ''c'' = SendToPeer ''c'' 1 args
     \<and> HandleAppendEntries 7 args (fresh_node ''n3'' ''c'' [''a'', ''b'']) = (reply, f')
     \<and> aer_Success reply
     \<and> (\<exists>e e'. log_map two_entries 2 = Some e \<and> log_map (rlog f') 2 = Some e' \<and> le_Term e' = le_Term e)"
proof -
  let ?f = "fresh_node ''n3'' ''c'' [''a'', ''b'']" and ?args = "buildArgsLocked example_leader ''c''"
  obtain reply f' where h: "HandleAppendEntries 7 ?args ?f = (reply, f')" by fastforce
  have prev: "ae_PrevLogIndex ?args = 0" "ae_Term ?args = 1"
    by (simp_all add: buildArgsLocked_def Let_def example_leader_def go_read_def)
  have s: "aer_Success reply"
    using HandleAppendEntries_success_iff [of ?f 7 ?args] h prev by (simp add: prev_ok_def)
  have "snapshotIndex two_entries = 0" by code_simp
  then have r: "replicate_to example_leader ''c'' = SendToPeer ''c'' 1 ?args"
    by (simp add: replicate_to_SendToPeer) (simp add: example_leader_def go_read_def)
  have l: "rlog example_leader = two_entries" "commitIndex example_leader = 0"
    by (simp_all add: example_leader_def)
  show ?thesis
    using r h s replication_step [OF _ _ _ r h s] prev l by simp
qed

section \<open>Backing up after a conflict\<close>

lemma last_index_with_term_spec:
  assumes "wf_log l" and "trm \<noteq> 0" and "k \<le> log_top l"
  shows "unat (last_index_with_term l trm k) \<le> k
     \<and> (last_index_with_term l trm k \<noteq> 0 \<longrightarrow>
          (\<exists>e. log_map l (unat (last_index_with_term l trm k)) = Some e \<and> le_Term e = trm))
     \<and> (\<forall>j e. unat (last_index_with_term l trm k) < j \<longrightarrow> j \<le> k \<longrightarrow> log_map l j = Some e \<longrightarrow> le_Term e \<noteq> trm)"
  using assms(3)
proof (induction k)
  case (Suc k)
  have u: "unat (of_nat (Suc k) :: u64) = Suc k"
    using Suc.prems log_top_bound [OF assms(1)] by (intro unat_of_nat_u64) simp
  have g: "le_Term (log_get l (of_nat (Suc k))) = trm \<longleftrightarrow>
      (\<exists>e. log_map l (Suc k) = Some e \<and> le_Term e = trm)"
    using assms(2) u
    by (auto simp: log_get_map [OF assms(1)] zero_entry_def simp del: of_nat_Suc split: option.splits)
  show ?case
  proof (cases "le_Term (log_get l (of_nat (Suc k))) = trm")
    case True
    then show ?thesis using g u by (auto simp del: of_nat_Suc)
  next
    case False
    then show ?thesis
      using g Suc by (auto simp: le_Suc_eq simp del: of_nat_Suc)
  qed
qed simp

text \<open>
  Where replication resumes after a conflict: right after the leader's last entry of the
  follower's conflicting term when the leader has that term, and at the index the follower named
  otherwise.
\<close>

lemma conflict_next_spec:
  assumes "wf_log (rlog n)"
  shows "(\<exists>j e. 0 < j \<and> log_map (rlog n) j = Some e \<and> le_Term e = aer_ConflictTerm reply
              \<and> (\<forall>i f. j < i \<longrightarrow> log_map (rlog n) i = Some f \<longrightarrow> le_Term f \<noteq> aer_ConflictTerm reply)
              \<and> unat (conflict_next n reply) = j + 1)
     \<or> (\<forall>j e. 0 < j \<longrightarrow> log_map (rlog n) j = Some e \<longrightarrow> le_Term e \<noteq> aer_ConflictTerm reply)
       \<and> conflict_next n reply = aer_ConflictIndex reply"
proof (cases "aer_ConflictTerm reply = 0")
  case True
  then show ?thesis
    using log_map_term_nonzero [OF assms] by (auto simp: conflict_next_def)
next
  case False
  let ?l = "rlog n" and ?t = "aer_ConflictTerm reply"
  let ?r = "last_index_with_term ?l ?t (log_top ?l)"
  have c: "conflict_next n reply = (if ?r \<noteq> 0 then ?r + 1 else aer_ConflictIndex reply)"
    using False by (auto simp: conflict_next_def unat_lastIndex [OF assms] word_neq_0_conv)
  note spec = last_index_with_term_spec [OF assms False order_refl]
  have top: "log_map ?l j = Some e \<Longrightarrow> j \<le> log_top ?l" for j e
    by (auto simp: log_map_def split: if_splits)
  show ?thesis
  proof (cases "?r = 0")
    case True
    then show ?thesis using c spec top by auto
  next
    case r: False
    then have "unat (?r + 1) = unat ?r + 1"
      using spec log_top_bound [OF assms] by (intro unat_u64_plus1) simp
    then show ?thesis
      using c r spec top unat_pos_u64 [of ?r] by (intro disjI1) (metis (no_types, lifting))
  qed
qed

lemma maybeCommit_simps [simp]:
  "node_id (maybeCommit n) = node_id n" "peers (maybeCommit n) = peers n"
  "currentTerm (maybeCommit n) = currentTerm n" "votedFor (maybeCommit n) = votedFor n"
  "rlog (maybeCommit n) = rlog n" "nstate (maybeCommit n) = nstate n"
  "nextIndex (maybeCommit n) = nextIndex n" "matchIndex (maybeCommit n) = matchIndex n"
  "lastHeardFrom (maybeCommit n) = lastHeardFrom n" "config (maybeCommit n) = config n"
  "lastApplied (maybeCommit n) = lastApplied n" "disk (maybeCommit n) = disk n"
  by (simp_all add: maybeCommit_def Let_def)

text \<open>
  How a leader keeps its per-peer indices from an answer of its own term: success raises the
  match index of that peer to the last entry sent (never lowers it) and sends what follows next;
  failure keeps the match index and backs up, never below 1. Other peers are not touched, and the
  peer counts as heard from.
\<close>

lemma sendToPeer_reply_indices:
  assumes "nstate n = Leader" and "currentTerm n = trm" and "aer_Term reply \<le> trm"
    and "sendToPeer_reply now peer trm args reply n = n'"
  shows "(\<forall>q. q \<noteq> peer \<longrightarrow> matchIndex n' q = matchIndex n q \<and> nextIndex n' q = nextIndex n q)
     \<and> (aer_Success reply \<longrightarrow>
          go_read (matchIndex n') peer
            = max (go_read (matchIndex n) peer) (ae_PrevLogIndex args + u64_len (ae_Entries args))
          \<and> nextIndex n' peer = Some (go_read (matchIndex n') peer + 1))
     \<and> (\<not> aer_Success reply \<longrightarrow>
          matchIndex n' = matchIndex n \<and> nextIndex n' peer = Some (max 1 (conflict_next n reply)))
     \<and> (\<exists>h. lastHeardFrom n' = Some h \<and> h peer = Some now)"
proof -
  have c: "conflict_next (heard_from peer now n) reply = conflict_next n reply"
    by (simp add: conflict_next_def)
  have h: "\<exists>h. lastHeardFrom (heard_from peer now n) = Some h \<and> h peer = Some now"
    by (simp add: heard_from_def)
  have t: "\<not> trm < aer_Term reply" using assms(3) by simp
  have z: "x = 0 \<or> 1 \<le> x" for x :: u64 by (simp add: word_less_1 flip: not_less)
  show ?thesis
    using assms(1,2) t h unfolding assms(4) [symmetric] sendToPeer_reply_def Let_def c
    using z [of "conflict_next n reply"]
    by (cases "aer_Success reply"; cases "conflict_next n reply = 0")
      (simp_all add: c max_def word_less_1 less_imp_le)
qed

end
