(* ===== verification/Snapshot.thy ===== *)
theory Snapshot
  imports Replication
begin

text \<open>
  \<open>src/raft/snapshot.go\<close>: taking a snapshot, installing one received from the leader, processing
  the reply, and restoring at start-up. \<open>saveSnapshot\<close> and \<open>loadSnapshotFile\<close> are in \<open>Node\<close>.
\<close>

text \<open>The result is the error: \<open>True\<close> when the snapshot could not be saved.\<close>

definition TakeSnapshot :: "bytes \<Rightarrow> RaftNode \<Rightarrow> bool \<times> RaftNode" where
  "TakeSnapshot data n =
     (let index = lastApplied n in
      if index = 0 \<or> index \<le> snapshotIndex (rlog n) then (False, n)
      else
        let trm = le_Term (log_get (rlog n) index);
            (ok, n1) = saveSnapshot index trm data n in
        if \<not> ok then (True, n1)
        else (False, persist (n1\<lparr>snapshotData := data, rlog := compactTo (rlog n1) index trm\<rparr>)))"

definition HandleInstallSnapshot ::
    "InstallSnapshotArgs \<Rightarrow> RaftNode \<Rightarrow> InstallSnapshotReply \<times> RaftNode" where
  "HandleInstallSnapshot args n =
     (let n1 = (if is_Term args > currentTerm n then becomeFollower (is_Term args) n else n);
          reply = \<lparr>isr_Term = currentTerm n1\<rparr> in
      if is_Term args < currentTerm n1 then (reply, n1)
      else
        let n2 = notifyHeartbeat (n1\<lparr>leaderID := is_LeaderID args\<rparr>) in
        if is_LastIncludedIndex args \<le> snapshotIndex (rlog n2) then (reply, n2)
        else
          let (ok, n3) = saveSnapshot (is_LastIncludedIndex args) (is_LastIncludedTerm args)
                           (is_Data args) n2 in
          if \<not> ok then (reply, n3)
          else
            let n4 = n3\<lparr>snapshotData := is_Data args,
                        rlog := compactTo (rlog n3) (is_LastIncludedIndex args)
                                  (is_LastIncludedTerm args)\<rparr>;
                n5 = (if lastApplied n4 < is_LastIncludedIndex args
                      then n4\<lparr>lastApplied := is_LastIncludedIndex args\<rparr> else n4);
                n6 = (if commitIndex n5 < is_LastIncludedIndex args
                      then n5\<lparr>commitIndex := is_LastIncludedIndex args\<rparr> else n5);
                n7 = persist n6
            in (reply, n7\<lparr>snapshotNotifyC := Some \<lparr>sta_index = is_LastIncludedIndex args,
                          sta_term = is_LastIncludedTerm args, sta_data = is_Data args\<rparr>\<rparr>))"

definition sendSnapshotToPeer_reply ::
    "string \<Rightarrow> u64 \<Rightarrow> InstallSnapshotArgs \<Rightarrow> InstallSnapshotReply \<Rightarrow> RaftNode \<Rightarrow> RaftNode" where
  "sendSnapshotToPeer_reply peer trm args reply n =
     (if isr_Term reply > currentTerm n then becomeFollower (isr_Term reply) n
      else if nstate n \<noteq> Leader \<or> currentTerm n \<noteq> trm then n
      else
        let n1 = (if is_LastIncludedIndex args > go_read (matchIndex n) peer
                  then n\<lparr>matchIndex := (matchIndex n)(peer \<mapsto> is_LastIncludedIndex args)\<rparr> else n)
        in n1\<lparr>nextIndex := (nextIndex n1)(peer \<mapsto> go_read (matchIndex n1) peer + 1)\<rparr>)"

text \<open>
  The second component is the data handed to \<open>stateMachine.Restore\<close>, \<open>None\<close> when it is not called.
\<close>

definition restoreFromSnapshot :: "RaftNode \<Rightarrow> RaftNode \<times> bytes option" where
  "restoreFromSnapshot n =
     (case loadSnapshotFile n of
        None \<Rightarrow> (n, None)
      | Some (index, trm, data) \<Rightarrow>
          if index = 0 then (n, None)
          else
            let n1 = n\<lparr>snapshotData := data, rlog := compactTo (rlog n) index trm\<rparr>;
                n2 = (if lastApplied n1 < index then n1\<lparr>lastApplied := index\<rparr> else n1);
                n3 = (if commitIndex n2 < index then n2\<lparr>commitIndex := index\<rparr> else n2)
            in (n3, Some data))"

section \<open>The snapshot file\<close>

text \<open>The snapshot file matches the compacted part of the log.\<close>

definition snap_blob :: "RaftNode \<Rightarrow> blob" where
  "snap_blob n = SnapBlob \<lparr>sf_Index = snapshotIndex (rlog n), sf_Term = snapshotTerm (rlog n),
                           sf_Data = snapshotData n\<rparr>"

definition snap_sync :: "RaftNode \<Rightarrow> bool" where
  "snap_sync n \<longleftrightarrow>
     (if snapshotIndex (rlog n) = 0 then read_file (disk n) snapshot_path = None
      else read_file (disk n) snapshot_path = Some (Whole (snap_blob n)))"

lemma saveSnapshot_works:
  assumes "disk_works n"
  shows "\<exists>d. saveSnapshot i t data n = (True, n\<lparr>disk := d\<rparr>) \<and> disk_works (n\<lparr>disk := d\<rparr>)
     \<and> read_file d snapshot_path = Some (Whole (SnapBlob \<lparr>sf_Index = i, sf_Term = t, sf_Data = data\<rparr>))
     \<and> read_file d state_path = read_file (disk n) state_path"
proof -
  let ?b = "SnapBlob \<lparr>sf_Index = i, sf_Term = t, sf_Data = data\<rparr>"
  let ?d = "snd (atomic_replace snapshot_path ?b (disk n))"
  have ok: "disk_ok (disk n)" "fs_script (disk n) = []" "fs_sep (disk n)"
    using assms by (simp_all add: disk_works_def disk_ok_def)
  have fst: "fst (atomic_replace snapshot_path ?b (disk n))"
    by (rule atomic_replace_no_faults [OF ok(2)])
  have "saveSnapshot i t data n = (True, n\<lparr>disk := ?d\<rparr>)"
    using fst by (simp add: saveSnapshot_def case_prod_beta Let_def)
  moreover have "disk_works (n\<lparr>disk := ?d\<rparr>)"
    using ok by (simp add: disk_works_def disk_ok_replace atomic_replace_script)
  moreover have "read_file ?d snapshot_path = Some (Whole ?b)"
    using kept_read [OF ok(1), of snapshot_path ?b] fst by simp
  moreover have "read_file ?d state_path = read_file (disk n) state_path"
    using atomic_replace_frame [OF ok(3), of state_path snapshot_path ?b] by simp
  ultimately show ?thesis by blast
qed

text \<open>Compacting up to an applied index keeps the node well-formed.\<close>

lemma wf_node_compact:
  assumes "wf_node n" and "trm \<noteq> 0" and "index \<noteq> u64_max"
    and "m = n\<lparr>rlog := compactTo (rlog n) index trm,
               lastApplied := max (lastApplied n) index, commitIndex := max (commitIndex n) index\<rparr>"
  shows "wf_node m"
proof -
  have mono: "unat (max x y) = max (unat x) (unat y)" for x y :: u64
    by (auto simp: max_def u64_nat)
  show ?thesis
    using assms wf_compactTo [of "rlog n" trm index]
    by (auto simp: wf_node_def log_top_compactTo mono u64_nat max.coboundedI1 max.coboundedI2)
qed

lemma wf_node_snapshot_term:
  assumes "wf_node n" and "0 < lastApplied n"
  shows "le_Term (log_get (rlog n) (lastApplied n)) \<noteq> 0" and "lastApplied n \<noteq> u64_max"
proof -
  have "0 < unat (lastApplied n)" using assms(2) by (simp add: u64_nat)
  moreover have "log_map (rlog n) (unat (lastApplied n)) \<noteq> None"
    using assms(1) by (auto simp: wf_node_def log_map_None_iff u64_nat)
  ultimately show "le_Term (log_get (rlog n) (lastApplied n)) \<noteq> 0"
    using get_term_0_iff assms(1) by (auto simp: wf_node_def)
  have "unat (lastApplied n) + 1 < 2 ^ 64"
    using assms(1) log_top_bound [of "rlog n"] by (auto simp: wf_node_def u64_nat)
  then show "lastApplied n \<noteq> u64_max"
    using unat_u64_max by auto
qed

section \<open>Taking and installing snapshots\<close>

lemma snapshot_compactTo:
  assumes "snapshotIndex l < i"
  shows "snapshotIndex (compactTo l i t) = i" "snapshotTerm (compactTo l i t) = t"
  using sentinel_compactTo [of l i t] assms
  by (simp_all add: snapshotIndex_def snapshotTerm_def u64_nat mark_entry_def zero_entry_def)

text \<open>The node as it is written after the log has been compacted.\<close>

lemma saved_and_persisted:
  assumes "disk_works (n\<lparr>disk := d\<rparr>)"
    and "read_file d snapshot_path = Some (Whole (SnapBlob \<lparr>sf_Index = i, sf_Term = t, sf_Data = data\<rparr>))"
    and "rlog m = compactTo (rlog n) i t" and "snapshotData m = data" and "disk m = d"
    and "snapshotIndex (rlog n) < i"
  shows "in_sync (persist m)" and "snap_sync (persist m)" and "disk_works (persist m)"
proof -
  have m: "disk_works m" using assms(1,5) by (simp add: disk_works_def)
  show "in_sync (persist m)" "disk_works (persist m)"
    using m by (simp_all add: in_sync_persist disk_works_persist)
  have "disk_ok (disk m)" using m by (simp add: disk_works_def)
  then show "snap_sync (persist m)"
    using assms persist_keeps_snapshot [of m] snapshot_compactTo [OF assms(6)]
    by (auto simp: snap_sync_def snap_blob_def)
qed

lemma TakeSnapshot_files:
  fixes data n
  defines "t \<equiv> le_Term (log_get (rlog n) (lastApplied n))"
  assumes "disk_works n" and "snapshotIndex (rlog n) < lastApplied n"
  obtains d where "TakeSnapshot data n
      = (False, persist (n\<lparr>disk := d, snapshotData := data, rlog := compactTo (rlog n) (lastApplied n) t\<rparr>))"
    "in_sync (snd (TakeSnapshot data n))" "snap_sync (snd (TakeSnapshot data n))" "disk_works (snd (TakeSnapshot data n))"
proof -
  let ?i = "lastApplied n"
  obtain d where d: "saveSnapshot ?i t data n = (True, n\<lparr>disk := d\<rparr>)" "disk_works (n\<lparr>disk := d\<rparr>)"
      "read_file d snapshot_path = Some (Whole (SnapBlob \<lparr>sf_Index = ?i, sf_Term = t, sf_Data = data\<rparr>))"
    using saveSnapshot_works [OF assms(2)] by blast
  let ?m = "n\<lparr>disk := d, snapshotData := data, rlog := compactTo (rlog n) ?i t\<rparr>"
  have "0 < ?i" using assms(3) by (auto simp: u64_nat)
  then have ts: "TakeSnapshot data n = (False, persist ?m)"
    using assms(3) d(1) word_neq_0_conv [THEN iffD2, of ?i] unfolding t_def
    by (simp add: TakeSnapshot_def Let_def not_le [symmetric])
  show thesis
    by (rule that [OF ts]) (use saved_and_persisted [OF d(2,3), of ?m] assms(3) in \<open>simp_all add: ts\<close>)
qed

text \<open>
  C24: \<open>TakeSnapshot\<close> on a working disk never fails; when something was applied since the last
  snapshot it moves the start of the log to the last applied entry, keeps that entry's term and
  every entry above it, leaves commit and apply index alone, and both files then hold what the node
  has in memory.
\<close>

theorem TakeSnapshot_spec:
  assumes "wf_node n" and "disk_works n" and "TakeSnapshot data n = (err, n')"
  shows "\<not> err \<and> wf_node n' \<and> lastApplied n' = lastApplied n \<and> commitIndex n' = commitIndex n
     \<and> (if lastApplied n \<le> snapshotIndex (rlog n) then n' = n
        else snapshotIndex (rlog n') = lastApplied n
          \<and> snapshotTerm (rlog n') = le_Term (log_get (rlog n) (lastApplied n))
          \<and> (\<forall>j > unat (lastApplied n). log_map (rlog n') j = log_map (rlog n) j)
          \<and> snapshotData n' = data \<and> in_sync n' \<and> snap_sync n')"
proof (cases "lastApplied n \<le> snapshotIndex (rlog n)")
  case True
  then show ?thesis using assms by (auto simp: TakeSnapshot_def)
next
  case False
  then have pos: "0 < lastApplied n" and new: "snapshotIndex (rlog n) < lastApplied n"
    by (auto simp: u64_nat)
  let ?i = "lastApplied n" and ?t = "le_Term (log_get (rlog n) (lastApplied n))"
  obtain d where ts: "TakeSnapshot data n = (False, persist (n\<lparr>disk := d, snapshotData := data, rlog := compactTo (rlog n) ?i ?t\<rparr>))"
      and sync: "in_sync (snd (TakeSnapshot data n))" "snap_sync (snd (TakeSnapshot data n))"
    using TakeSnapshot_files [OF assms(2) new] by blast
  let ?m = "n\<lparr>disk := d, snapshotData := data, rlog := compactTo (rlog n) ?i ?t\<rparr>"
  have n': "n' = persist ?m" "\<not> err" using assms(3) ts by simp_all
  have le: "?i \<le> commitIndex n" using assms(1) by (simp add: wf_node_def)
  have "wf_node (n\<lparr>rlog := compactTo (rlog n) ?i ?t, lastApplied := max ?i ?i,
                   commitIndex := max (commitIndex n) ?i\<rparr>)"
    using wf_node_compact [OF assms(1) wf_node_snapshot_term [OF assms(1) pos]] by blast
  then have "wf_node n'"
    using le by (simp add: n' wf_node_def max.absorb1)
  moreover have "in_sync n'" "snap_sync n'" using sync assms(3) by simp_all
  moreover have "\<forall>j > unat ?i. log_map (rlog n') j = log_map (rlog n) j"
    using assms(1) rl.compact_keeps_above [of "rlog n" ?i] by (simp add: n' wf_node_def)
  ultimately show ?thesis
    using False n' snapshot_compactTo [OF new] by simp
qed

definition example_applied :: RaftNode where
  "example_applied = fresh_node ''n1'' ''a'' [''b'']
     \<lparr>currentTerm := 1, rlog := two_entries, commitIndex := 2, lastApplied := 1\<rparr>"

lemma example_applied_ok: "wf_node example_applied" "disk_works example_applied"
  using disk_works_fresh [of "''n1''" "''a''" "[''b'']"]
  by (simp_all add: example_applied_def wf_node_def disk_works_def)

theorem TakeSnapshot_spec_witness:
  "\<exists>n'. TakeSnapshot [42] example_applied = (False, n') \<and> snapshotIndex (rlog n') = 1
     \<and> snapshotData n' = [42] \<and> in_sync n' \<and> snap_sync n' \<and> wf_node n'"
proof -
  obtain err n' where t: "TakeSnapshot [42] example_applied = (err, n')" by fastforce
  have "\<not> lastApplied example_applied \<le> snapshotIndex (rlog example_applied)" "lastApplied example_applied = 1"
    by (simp_all add: example_applied_def u64_nat)
  then show ?thesis
    using t TakeSnapshot_spec [OF example_applied_ok t] by simp
qed

text \<open>The node after the term check of the handler.\<close>

definition is_follower :: "InstallSnapshotArgs \<Rightarrow> RaftNode \<Rightarrow> RaftNode" where
  "is_follower args n = notifyHeartbeat
     ((if is_Term args > currentTerm n then becomeFollower (is_Term args) n else n)
        \<lparr>leaderID := is_LeaderID args\<rparr>)"

lemma is_follower_simps [simp]:
  "rlog (is_follower args n) = rlog n" "commitIndex (is_follower args n) = commitIndex n"
  "lastApplied (is_follower args n) = lastApplied n" "node_id (is_follower args n) = node_id n"
  "peers (is_follower args n) = peers n" "config (is_follower args n) = config n"
  "snapshotData (is_follower args n) = snapshotData n"
  "\<not> is_Term args < currentTerm n \<Longrightarrow> currentTerm (is_follower args n) = is_Term args"
  by (auto simp: is_follower_def)

lemma disk_works_is_follower: "disk_works n \<Longrightarrow> disk_works (is_follower args n)"
  using disk_works_follower [of n "is_Term args"] by (simp add: is_follower_def disk_works_def)

lemma HandleInstallSnapshot_cases:
  "is_Term args < currentTerm n \<Longrightarrow>
     HandleInstallSnapshot args n = (\<lparr>isr_Term = currentTerm n\<rparr>, n)"
  "\<not> is_Term args < currentTerm n \<Longrightarrow> is_LastIncludedIndex args \<le> snapshotIndex (rlog n) \<Longrightarrow>
     HandleInstallSnapshot args n = (\<lparr>isr_Term = is_Term args\<rparr>, is_follower args n)"
  by (auto simp: HandleInstallSnapshot_def Let_def is_follower_def)

lemma HandleInstallSnapshot_install:
  assumes "\<not> is_Term args < currentTerm n" "\<not> is_LastIncludedIndex args \<le> snapshotIndex (rlog n)"
    and "saveSnapshot (is_LastIncludedIndex args) (is_LastIncludedTerm args) (is_Data args) (is_follower args n)
           = (True, (is_follower args n)\<lparr>disk := d\<rparr>)"
  shows "snd (HandleInstallSnapshot args n) =
     (persist ((is_follower args n)\<lparr>disk := d, snapshotData := is_Data args,
        rlog := compactTo (rlog n) (is_LastIncludedIndex args) (is_LastIncludedTerm args),
        lastApplied := max (lastApplied n) (is_LastIncludedIndex args),
        commitIndex := max (commitIndex n) (is_LastIncludedIndex args)\<rparr>))
     \<lparr>snapshotNotifyC := Some \<lparr>sta_index = is_LastIncludedIndex args,
        sta_term = is_LastIncludedTerm args, sta_data = is_Data args\<rparr>\<rparr>"
proof -
  let ?i = "is_LastIncludedIndex args"
  have f: "notifyHeartbeat ((if is_Term args > currentTerm n then becomeFollower (is_Term args) n else n)
        \<lparr>leaderID := is_LeaderID args\<rparr>) = is_follower args n"
    by (simp add: is_follower_def)
  have t: "\<not> is_Term args < currentTerm (if is_Term args > currentTerm n then becomeFollower (is_Term args) n else n)"
    using assms(1) by simp
  have mx: "(if x < y then y else x) = max x y" for x y :: u64 by (auto simp: max_def)
  have u: "(if lastApplied m < i then m\<lparr>lastApplied := i\<rparr> else m) = m\<lparr>lastApplied := max (lastApplied m) i\<rparr>"
      "(if commitIndex m < i then m\<lparr>commitIndex := i\<rparr> else m) = m\<lparr>commitIndex := max (commitIndex m) i\<rparr>"
    for m :: RaftNode and i by (simp_all flip: mx)
  show ?thesis
    using assms(2,3) t by (simp add: HandleInstallSnapshot_def Let_def f u)
qed

text \<open>
  C23: a snapshot from a leader whose term is not old and that is newer than the node's own is
  installed: the log starts at the snapshot, every entry above it stays as it was (whatever its
  term), commit and apply index reach at least the snapshot, both files hold the new state, and the
  data is queued for the state machine. Any other request leaves log and indices alone.
\<close>

theorem HandleInstallSnapshot_spec:
  assumes "wf_node n" and "disk_works n"
    and "is_LastIncludedTerm args \<noteq> 0" and "is_LastIncludedIndex args \<noteq> u64_max"
    and "HandleInstallSnapshot args n = (reply, n')"
  shows "wf_node n'
     \<and> (if is_Term args < currentTerm n then n' = n
        else if is_LastIncludedIndex args \<le> snapshotIndex (rlog n)
        then rlog n' = rlog n \<and> commitIndex n' = commitIndex n \<and> lastApplied n' = lastApplied n
        else snapshotIndex (rlog n') = is_LastIncludedIndex args
          \<and> snapshotTerm (rlog n') = is_LastIncludedTerm args
          \<and> (\<forall>j > unat (is_LastIncludedIndex args). log_map (rlog n') j = log_map (rlog n) j)
          \<and> commitIndex n' = max (commitIndex n) (is_LastIncludedIndex args)
          \<and> lastApplied n' = max (lastApplied n) (is_LastIncludedIndex args)
          \<and> in_sync n' \<and> snap_sync n'
          \<and> snapshotNotifyC n' = Some \<lparr>sta_index = is_LastIncludedIndex args,
               sta_term = is_LastIncludedTerm args, sta_data = is_Data args\<rparr>)"
proof -
  let ?i = "is_LastIncludedIndex args" and ?t = "is_LastIncludedTerm args" and ?f = "is_follower args n"
  have r: "n' = snd (HandleInstallSnapshot args n)" using assms(5) by simp
  consider "is_Term args < currentTerm n" | "\<not> is_Term args < currentTerm n" "?i \<le> snapshotIndex (rlog n)"
    | "\<not> is_Term args < currentTerm n" "\<not> ?i \<le> snapshotIndex (rlog n)" by blast
  then show ?thesis
  proof cases
    case 3
    obtain d where d: "saveSnapshot ?i ?t (is_Data args) ?f = (True, ?f\<lparr>disk := d\<rparr>)" "disk_works (?f\<lparr>disk := d\<rparr>)"
        "read_file d snapshot_path = Some (Whole (SnapBlob \<lparr>sf_Index = ?i, sf_Term = ?t, sf_Data = is_Data args\<rparr>))"
      using saveSnapshot_works [OF disk_works_is_follower [OF assms(2)]] by blast
    note n' = r [unfolded HandleInstallSnapshot_install [OF 3 d(1)]]
    have new: "snapshotIndex (rlog n) < ?i" using 3(2) by simp
    let ?m = "?f\<lparr>disk := d, snapshotData := is_Data args, rlog := compactTo (rlog n) ?i ?t,
        lastApplied := max (lastApplied n) ?i, commitIndex := max (commitIndex n) ?i\<rparr>"
    have "in_sync (persist ?m)" "snap_sync (persist ?m)"
      using saved_and_persisted [OF d(2,3), of ?m] new by simp_all
    then have "in_sync n'" "snap_sync n'"
      unfolding n' by (simp_all add: in_sync_def persisted_of_def snap_sync_def snap_blob_def)
    moreover have "wf_node n'"
      using wf_node_compact [OF assms(1,3,4) refl] unfolding n' by (simp add: wf_node_def)
    moreover have "\<forall>j > unat ?i. log_map (rlog n') j = log_map (rlog n) j"
      using assms(1) rl.compact_keeps_above [of "rlog n" ?i] by (simp add: n' wf_node_def)
    ultimately show ?thesis
      using 3 n' snapshot_compactTo [OF new] by simp
  qed (use assms(1) in \<open>simp_all add: r HandleInstallSnapshot_cases wf_node_def\<close>)
qed

theorem HandleInstallSnapshot_spec_witness:
  "\<exists>reply n'. HandleInstallSnapshot \<lparr>is_Term = 4, is_LeaderID = ''n2'', is_LastIncludedIndex = 9,
        is_LastIncludedTerm = 3, is_Data = [7]\<rparr> example_applied = (reply, n')
     \<and> wf_node n' \<and> snapshotIndex (rlog n') = 9 \<and> commitIndex n' = max 2 9 \<and> in_sync n' \<and> snap_sync n'"
proof -
  let ?args = "\<lparr>is_Term = 4, is_LeaderID = ''n2'', is_LastIncludedIndex = 9, is_LastIncludedTerm = 3,
    is_Data = [7]\<rparr>"
  obtain reply n' where h: "HandleInstallSnapshot ?args example_applied = (reply, n')" by fastforce
  have "is_LastIncludedIndex ?args \<noteq> u64_max" "is_LastIncludedTerm ?args \<noteq> 0" by simp_all
  moreover have "snapshotIndex (rlog example_applied) < 9" "currentTerm example_applied = 1"
      "commitIndex example_applied = 2"
    by (simp_all add: example_applied_def u64_nat)
  ultimately show ?thesis
    using h HandleInstallSnapshot_spec [OF example_applied_ok _ _ h] by (simp add: not_le [symmetric])
qed

section \<open>Answers to a snapshot\<close>

text \<open>
  After a follower of the leader's term has answered a snapshot, the leader counts it as holding
  the log up to the snapshot (never less than before) and continues with the entry after it.
\<close>

lemma sendSnapshotToPeer_reply_indices:
  assumes "nstate n = Leader" and "currentTerm n = trm" and "isr_Term reply \<le> trm"
    and "sendSnapshotToPeer_reply peer trm args reply n = n'"
  shows "go_read (matchIndex n') peer = max (go_read (matchIndex n) peer) (is_LastIncludedIndex args)
     \<and> nextIndex n' peer = Some (go_read (matchIndex n') peer + 1)
     \<and> (\<forall>q. q \<noteq> peer \<longrightarrow> matchIndex n' q = matchIndex n q \<and> nextIndex n' q = nextIndex n q)"
proof -
  have "\<not> trm < isr_Term reply" using assms(3) by simp
  then show ?thesis
    using assms(1,2) unfolding assms(4) [symmetric] sendSnapshotToPeer_reply_def Let_def
    by (simp add: max_def less_imp_le)
qed

end
