(* ===== verification/Client.thy ===== *)
theory Client
  imports Election Snapshot
begin

text \<open>
  The rest of \<open>src/raft/node.go\<close>: client commands, membership changes, the quorum check of the
  leader, the accessors, and the branches of the event loop \<open>Run\<close>.
\<close>

datatype raft_error = ErrNotLeader

section \<open>Accessors\<close>

definition Peers :: "RaftNode \<Rightarrow> string list" where
  "Peers n = peers n"

definition LogEntries :: "RaftNode \<Rightarrow> LogEntry list" where
  "LogEntries n = log_slice (rlog n) (snapshotIndex (rlog n) + 1) (lastIndex (rlog n) + 1)"

section \<open>Commands\<close>

definition Submit :: "bytes \<Rightarrow> RaftNode \<Rightarrow> (raft_error + u64 \<times> u64) \<times> RaftNode \<times> Spawn list" where
  "Submit command n =
     (if nstate n \<noteq> Leader then (Inl ErrNotLeader, n, [])
      else
        let index = lastIndex (rlog n) + 1;
            trm = currentTerm n;
            entry = zero_entry\<lparr>le_Term := trm, le_Index := index, le_Command := command\<rparr>;
            n1 = persist (n\<lparr>rlog := log_append (rlog n) [entry]\<rparr>)
        in (Inr (index, trm), n1, map (replicate_to n1) (peers n1)))"

section \<open>Membership\<close>

definition submitConfigLocked ::
    "instant \<Rightarrow> string \<Rightarrow> string \<Rightarrow> RaftNode \<Rightarrow> RaftNode \<times> Spawn list" where
  "submitConfigLocked now opn addr n =
     (let index = lastIndex (rlog n) + 1;
          entry = zero_entry\<lparr>le_Term := currentTerm n, le_Index := index, le_IsConfig := True,
                             le_ConfigOp := opn, le_ConfigPeer := addr\<rparr>;
          n1 = persist (n\<lparr>rlog := log_append (rlog n) [entry]\<rparr>);
          n2 = (if opn = ''add''
                then heard_from addr now
                       (n1\<lparr>peers := peers n1 @ [addr], nextIndex := (nextIndex n1)(addr \<mapsto> index),
                           matchIndex := (matchIndex n1)(addr \<mapsto> 0)\<rparr>)
                else n1)
      in (n2, map (replicate_to n2) (peers n2)))"

definition AddPeer ::
    "instant \<Rightarrow> string \<Rightarrow> RaftNode \<Rightarrow> raft_error option \<times> RaftNode \<times> Spawn list" where
  "AddPeer now rpcAddr n =
     (if nstate n \<noteq> Leader then (Some ErrNotLeader, n, [])
      else if rpcAddr = cfg_SelfAddr (config n) then (None, n, [])
      else if rpcAddr \<in> set (peers n) then (None, n, [])
      else (None, submitConfigLocked now ''add'' rpcAddr n))"

definition RemovePeer ::
    "instant \<Rightarrow> string \<Rightarrow> RaftNode \<Rightarrow> raft_error option \<times> RaftNode \<times> Spawn list" where
  "RemovePeer now rpcAddr n =
     (if nstate n \<noteq> Leader then (Some ErrNotLeader, n, [])
      else if rpcAddr = cfg_SelfAddr (config n)
      then (None, submitConfigLocked now ''remove'' rpcAddr n)
      else if rpcAddr \<notin> set (peers n) then (None, n, [])
      else (None, submitConfigLocked now ''remove'' rpcAddr n))"

definition applyConfigEntry :: "instant \<Rightarrow> LogEntry \<Rightarrow> RaftNode \<Rightarrow> RaftNode" where
  "applyConfigEntry now entry n =
     (if le_ConfigOp entry = ''add'' then
        (if le_ConfigPeer entry = cfg_SelfAddr (config n) then n
         else if le_ConfigPeer entry \<in> set (peers n) then n
         else
           let n1 = n\<lparr>peers := peers n @ [le_ConfigPeer entry]\<rparr> in
           if nstate n1 = Leader
           then heard_from (le_ConfigPeer entry) now
                  (n1\<lparr>nextIndex := (nextIndex n1)(le_ConfigPeer entry \<mapsto> lastIndex (rlog n1) + 1),
                      matchIndex := (matchIndex n1)(le_ConfigPeer entry \<mapsto> 0)\<rparr>)
           else n1)
      else if le_ConfigOp entry = ''remove'' then
        (if le_ConfigPeer entry = cfg_SelfAddr (config n) then
           let n1 = n\<lparr>peers := [], nextIndex := Map.empty, matchIndex := Map.empty\<rparr> in
           if nstate n1 = Leader then n1\<lparr>nstate := Follower, leaderID := ''''\<rparr> else n1
         else n\<lparr>peers := filter (\<lambda>p. p \<noteq> le_ConfigPeer entry) (peers n),
                nextIndex := (nextIndex n)(le_ConfigPeer entry := None),
                matchIndex := (matchIndex n)(le_ConfigPeer entry := None)\<rparr>)
      else n)"

section \<open>Quorum check of the leader\<close>

definition heard_recently :: "instant \<Rightarrow> RaftNode \<Rightarrow> string \<Rightarrow> bool" where
  "heard_recently now n peer \<longleftrightarrow>
     (case lastHeardFrom n of None \<Rightarrow> False
      | Some m \<Rightarrow> (case m peer of None \<Rightarrow> False
          | Some t \<Rightarrow> time_sub now t < millis (cfg_ElectionTimeoutMaxMs (config n))))"

definition checkQuorum :: "instant \<Rightarrow> RaftNode \<Rightarrow> RaftNode" where
  "checkQuorum now n =
     (if nstate n \<noteq> Leader then n
      else if 1 + length (filter (heard_recently now n) (peers n)) < majority_of (peers n)
      then becomeFollower (currentTerm n) n
      else n)"

section \<open>The event loop\<close>

text \<open>Start-up: \<open>loadState\<close>, then \<open>restoreFromSnapshot\<close>; \<open>None\<close> when the node would panic.\<close>

definition Run_start :: "RaftNode \<Rightarrow> (RaftNode \<times> bytes option) option" where
  "Run_start n = (case loadState n of (LoadPanics, n') \<Rightarrow> None
                  | (_, n') \<Rightarrow> Some (restoreFromSnapshot n'))"

text \<open>\<open>eligible\<close>, tested when the election timer fires and again after a won pre-vote.\<close>

definition eligible :: "RaftNode \<Rightarrow> bool" where
  "eligible n \<longleftrightarrow> nstate n \<noteq> Leader \<and> length (peers n) > 0"

definition Run_prevote_won :: "RaftNode \<Rightarrow> RaftNode" where
  "Run_prevote_won n = (if eligible n then becomeCandidate n else n)"

text \<open>
  \<open>heartbeatTicker\<close>: \<open>sendHeartbeats\<close> runs after \<open>checkQuorum\<close> whatever the state is then.
\<close>

definition Run_heartbeat_tick :: "instant \<Rightarrow> RaftNode \<Rightarrow> RaftNode \<times> Spawn list" where
  "Run_heartbeat_tick now n =
     (if nstate n = Leader then sendHeartbeats (checkQuorum now n) else (n, []))"

section \<open>Terms and votes\<close>

lemma submitConfigLocked_simps [simp]:
  "node_id (fst (submitConfigLocked now opn a n)) = node_id n"
  "currentTerm (fst (submitConfigLocked now opn a n)) = currentTerm n"
  "votedFor (fst (submitConfigLocked now opn a n)) = votedFor n"
  "nstate (fst (submitConfigLocked now opn a n)) = nstate n"
  "config (fst (submitConfigLocked now opn a n)) = config n"
  "commitIndex (fst (submitConfigLocked now opn a n)) = commitIndex n"
  "lastApplied (fst (submitConfigLocked now opn a n)) = lastApplied n"
  by (simp_all add: submitConfigLocked_def Let_def)

lemma vote_kept_HandleAppendEntries [vote_kept_intros]:
  "vote_kept n (snd (HandleAppendEntries now args n))"
  by (auto simp: HandleAppendEntries_def Let_def vote_kept_def split: option.splits)

lemma saveSnapshot_frame:
  "\<exists>d. snd (saveSnapshot i t data n) = n\<lparr>disk := d\<rparr>"
  by (auto simp: saveSnapshot_def Let_def case_prod_beta)

lemma vote_kept_HandleInstallSnapshot [vote_kept_intros]:
  "vote_kept n (snd (HandleInstallSnapshot args n))"
proof -
  let ?n1 = "if is_Term args > currentTerm n then becomeFollower (is_Term args) n else n"
  have 1: "vote_kept n ?n1" by (simp add: vote_kept_intros)
  have "currentTerm (snd (HandleInstallSnapshot args n)) = currentTerm ?n1
      \<and> votedFor (snd (HandleInstallSnapshot args n)) = votedFor ?n1"
    using saveSnapshot_frame [of "is_LastIncludedIndex args" "is_LastIncludedTerm args" "is_Data args"
        "notifyHeartbeat (?n1\<lparr>leaderID := is_LeaderID args\<rparr>)"]
    by (auto simp: HandleInstallSnapshot_def Let_def case_prod_beta)
  then show ?thesis
    using vote_kept_trans [OF 1 vote_kept_same [of _ ?n1]] by blast
qed

lemma vote_kept_TakeSnapshot [vote_kept_intros]: "vote_kept n (snd (TakeSnapshot data n))"
  using saveSnapshot_frame [of "lastApplied n" "le_Term (log_get (rlog n) (lastApplied n))" data n]
  by (auto simp: TakeSnapshot_def Let_def case_prod_beta vote_kept_def)

lemma vote_kept_sendToPeer_reply [vote_kept_intros]:
  "vote_kept n (sendToPeer_reply now peer trm args reply n)"
  by (auto simp: sendToPeer_reply_def Let_def vote_kept_def)

lemma vote_kept_sendSnapshotToPeer_reply [vote_kept_intros]:
  "vote_kept n (sendSnapshotToPeer_reply peer trm args reply n)"
  by (auto simp: sendSnapshotToPeer_reply_def Let_def vote_kept_def)

lemma vote_kept_Submit [vote_kept_intros]: "vote_kept n (fst (snd (Submit command n)))"
  by (auto simp: Submit_def Let_def vote_kept_def)

lemma vote_kept_membership [vote_kept_intros]:
  "vote_kept n (fst (snd (AddPeer now a n)))" "vote_kept n (fst (snd (RemovePeer now a n)))"
  "vote_kept n (applyConfigEntry now entry n)"
  by (auto simp: AddPeer_def RemovePeer_def applyConfigEntry_def Let_def vote_kept_def)

lemma vote_kept_Run_prevote_won [vote_kept_intros]:
  "currentTerm n \<noteq> u64_max \<Longrightarrow> vote_kept n (Run_prevote_won n)"
  by (auto simp: Run_prevote_won_def vote_kept_intros)

text \<open>
  The quorum check is the exception: it keeps the term and clears the vote that was cast in it.
\<close>

lemma checkQuorum_clears_vote:
  "nstate n = Leader \<Longrightarrow> 1 + length (filter (heard_recently now n) (peers n)) < majority_of (peers n) \<Longrightarrow>
     currentTerm (checkQuorum now n) = currentTerm n \<and> votedFor (checkQuorum now n) = ''''
     \<and> nstate (checkQuorum now n) = Follower"
  by (simp add: checkQuorum_def)

section \<open>Commands\<close>

lemma wf_node_append:
  assumes "wf_node n" and "log_top (rlog n) + 2 < 2 ^ 64" and "unat (le_Index e) = log_top (rlog n) + 1"
    and "le_Term e \<noteq> 0" and "m = n\<lparr>rlog := log_append (rlog n) [e]\<rparr>"
  shows "wf_node m" and "log_map (rlog m) = (log_map (rlog n))(log_top (rlog n) + 1 \<mapsto> e)"
proof -
  have "numbered (log_top (rlog n) + 1) [e]" using assms(2-4) by (simp add: numbered_Cons)
  then have "wf_log (rlog m)" using assms(1,5) wf_log_append by (simp add: wf_node_def)
  then show "wf_node m" using assms(1,5) by (simp add: wf_node_def)
  show "log_map (rlog m) = (log_map (rlog n))(log_top (rlog n) + 1 \<mapsto> e)"
    using assms(5) by (auto simp: log_map_append fun_eq_iff)
qed

text \<open>
  C26: only a leader accepts a command. It stores it under the next index and its own term, writes
  term, vote and log to disk before any request leaves, keeps the node invariant and all earlier
  entries, and starts one request per peer; the answer is that index and term.
\<close>

theorem Submit_spec:
  assumes "wf_node n" and "disk_works n" and "currentTerm n \<noteq> 0" and "log_top (rlog n) + 2 < 2 ^ 64"
    and "Submit command n = (res, n', sends)"
  shows "case res of
      Inl err \<Rightarrow> nstate n \<noteq> Leader \<and> n' = n \<and> sends = []
    | Inr (index, trm) \<Rightarrow> nstate n = Leader \<and> unat index = log_top (rlog n) + 1 \<and> trm = currentTerm n
        \<and> (\<exists>e. log_map (rlog n') = (log_map (rlog n))(unat index \<mapsto> e) \<and> le_Term e = trm
               \<and> le_Index e = index \<and> le_Command e = command \<and> \<not> le_IsConfig e)
        \<and> wf_node n' \<and> in_sync n' \<and> commitIndex n' = commitIndex n \<and> length sends = length (peers n)"
proof (cases "nstate n = Leader")
  case False
  then show ?thesis using assms(5) by (auto simp: Submit_def)
next
  case True
  let ?i = "lastIndex (rlog n) + 1"
  let ?e = "zero_entry\<lparr>le_Term := currentTerm n, le_Index := ?i, le_Command := command\<rparr>"
  let ?m = "n\<lparr>rlog := log_append (rlog n) [?e]\<rparr>"
  have r: "res = Inr (?i, currentTerm n)" "n' = persist ?m" "length sends = length (peers n)"
    using True assms(5) by (auto simp: Submit_def Let_def)
  have i: "unat ?i = log_top (rlog n) + 1"
    using assms(1) lastIndex_plus1 by (simp add: wf_node_def)
  have m: "wf_node ?m" "log_map (rlog ?m) = (log_map (rlog n))(log_top (rlog n) + 1 \<mapsto> ?e)"
    using wf_node_append [OF assms(1,4), of ?e ?m] i assms(3) by simp_all
  have "in_sync n'" using assms(2) by (simp add: r in_sync_persist disk_works_def)
  moreover have "wf_node n'" using m(1) by (simp add: r wf_node_def)
  moreover have "le_Term ?e = currentTerm n" "le_Index ?e = ?i" "le_Command ?e = command" "\<not> le_IsConfig ?e"
    by (simp_all add: zero_entry_def)
  moreover have "log_map (rlog n') = (log_map (rlog n))(unat ?i \<mapsto> ?e)" "commitIndex n' = commitIndex n"
    using m(2) i by (simp_all add: r)
  ultimately show ?thesis
    unfolding r(1) sum.case prod.case using True i r(3) by blast
qed

lemma example_leader_ok: "wf_node example_leader" "disk_works example_leader"
    "nstate example_leader = Leader" "currentTerm example_leader = 1" "rlog example_leader = two_entries"
    "peers example_leader = [''b'', ''c'']"
  using disk_works_fresh [of "''n1''" "''a''" "[''b'', ''c'']"]
  by (simp_all add: example_leader_def wf_node_def disk_works_def)

theorem Submit_spec_witness:
  "\<exists>n' sends. Submit [1] example_leader = (Inr (3, 1), n', sends) \<and> wf_node n' \<and> in_sync n'
     \<and> length sends = 2"
proof -
  obtain res n' sends where s: "Submit [1] example_leader = (res, n', sends)"
    using prod_cases3 by blast
  have "res = Inr (3, 1)" using s by (auto simp: Submit_def Let_def example_leader_ok)
  then show ?thesis
    using s Submit_spec [OF example_leader_ok(1,2) _ _ s] by (simp add: example_leader_ok)
qed

section \<open>Membership\<close>

text \<open>No peer is listed twice, and a node is not its own peer.\<close>

definition wf_peers :: "RaftNode \<Rightarrow> bool" where
  "wf_peers n \<longleftrightarrow> distinct (peers n) \<and> cfg_SelfAddr (config n) \<notin> set (peers n)"

lemma peers_submitConfigLocked:
  "peers (fst (submitConfigLocked now opn a n)) = (if opn = ''add'' then peers n @ [a] else peers n)"
  by (simp add: submitConfigLocked_def Let_def)

text \<open>
  The peer list stays without duplicates and without the node itself under every membership
  operation: requests at the leader and configuration entries that are applied.
\<close>

lemma membership_wf_peers:
  assumes "wf_peers n"
  shows "wf_peers (fst (snd (AddPeer now a n))) \<and> wf_peers (fst (snd (RemovePeer now a n)))
     \<and> wf_peers (applyConfigEntry now entry n)"
  using assms
  by (auto simp: wf_peers_def AddPeer_def RemovePeer_def applyConfigEntry_def peers_submitConfigLocked Let_def)

lemma applyConfigEntry_peers:
  "set (peers (applyConfigEntry now entry n)) =
     (if le_ConfigOp entry = ''add'' then set (peers n) \<union> ({le_ConfigPeer entry} - {cfg_SelfAddr (config n)})
      else if le_ConfigOp entry = ''remove''
      then (if le_ConfigPeer entry = cfg_SelfAddr (config n) then {} else set (peers n) - {le_ConfigPeer entry})
      else set (peers n))"
  by (auto simp: applyConfigEntry_def Let_def)

text \<open>
  The leader that proposed a new peer counts it from then on; the committed entry finds it
  there, and applying it changes nothing at that leader.
\<close>

lemma AddPeer_then_applied:
  assumes "nstate n = Leader" and "a \<notin> set (peers n)" and "a \<noteq> cfg_SelfAddr (config n)"
    and "AddPeer now a n = (err, n', sends)"
    and "le_ConfigOp entry = ''add''" and "le_ConfigPeer entry = a"
  shows "err = None \<and> peers n' = peers n @ [a] \<and> nextIndex n' a = Some (lastIndex (rlog n) + 1)
     \<and> matchIndex n' a = Some 0 \<and> length sends = length (peers n) + 1
     \<and> applyConfigEntry later entry n' = n'"
proof -
  have "err = None" "(n', sends) = submitConfigLocked now ''add'' a n"
    using assms(1-4) by (auto simp: AddPeer_def)
  then have n': "n' = fst (submitConfigLocked now ''add'' a n)"
      "sends = snd (submitConfigLocked now ''add'' a n)" "err = None"
    by (simp_all flip: \<open>(n', sends) = _\<close>)
  then have "peers n' = peers n @ [a]" by (simp add: peers_submitConfigLocked)
  then show ?thesis
    using n' assms(5,6)
    by (simp add: applyConfigEntry_def) (simp add: submitConfigLocked_def Let_def)
qed

section \<open>Quorum check\<close>

lemma heard_recently_iff:
  "heard_recently now n p \<longleftrightarrow> (\<exists>heard t. lastHeardFrom n = Some heard \<and> heard p = Some t
     \<and> time_sub now t < millis (cfg_ElectionTimeoutMaxMs (config n)))"
  by (auto simp: heard_recently_def split: option.splits)

text \<open>
  C30: after the quorum check of a heartbeat tick a leader is still leader exactly when it has heard,
  within the maximum election timeout, from peers that make a majority together with itself;
  otherwise it is a follower of the same term without a vote. The tick sends requests to every peer
  in both cases.
\<close>

theorem Run_heartbeat_tick_quorum:
  assumes "nstate n = Leader" and "Run_heartbeat_tick now n = (n', sends)"
  shows "(nstate n' = Leader \<longleftrightarrow>
            length (peers n) + 1 < 2 * (1 + length (filter
              (\<lambda>p. \<exists>heard t. lastHeardFrom n = Some heard \<and> heard p = Some t
                 \<and> time_sub now t < millis (cfg_ElectionTimeoutMaxMs (config n))) (peers n))))
     \<and> (nstate n' \<noteq> Leader \<longrightarrow> nstate n' = Follower \<and> votedFor n' = '''')
     \<and> currentTerm n' = currentTerm n \<and> rlog n' = rlog n \<and> length sends = length (peers n)"
proof -
  have n': "n' = fst (sendHeartbeats (checkQuorum now n))" "sends = snd (sendHeartbeats (checkQuorum now n))"
    using assms by (simp_all add: Run_heartbeat_tick_def)
  have m: "1 + length (filter (heard_recently now n) (peers n)) < majority_of (peers n) \<longleftrightarrow>
      \<not> length (peers n) + 1 < 2 * (1 + length (filter (heard_recently now n) (peers n)))"
    by (auto simp: majority_of_def)
  show ?thesis
    using assms(1) unfolding n' checkQuorum_def m heard_recently_iff [symmetric] by (simp add: sendHeartbeats_def)
qed

theorem Run_heartbeat_tick_quorum_witness:
  "\<exists>n' sends. Run_heartbeat_tick 0 example_leader = (n', sends) \<and> nstate n' \<noteq> Leader \<and> length sends = 2"
proof -
  obtain n' sends where t: "Run_heartbeat_tick 0 example_leader = (n', sends)" by fastforce
  have "heard_recently 0 example_leader p = False" for p
    by (simp add: heard_recently_def example_leader_def)
  then show ?thesis
    using t Run_heartbeat_tick_quorum [OF _ t] unfolding heard_recently_iff [symmetric] by (simp add: example_leader_ok)
qed

section \<open>Restart\<close>

lemma loadState_in_sync:
  assumes "in_sync n" and "disk m = disk n"
  shows "loadState m = (Loaded, m\<lparr>currentTerm := currentTerm n, votedFor := votedFor n, rlog := rlog n\<rparr>)"
  using assms by (simp add: loadState_def in_sync_def persisted_of_def log_entries_def)

lemma compactTo_old: "i \<le> snapshotIndex l \<Longrightarrow> compactTo l i t = l"
  by (simp add: compactTo_def Let_def snapshotIndex_def)

lemma NewRaftNode_simps [simp]:
  "currentTerm (NewRaftNode cfg d) = 0" "nstate (NewRaftNode cfg d) = Follower"
  "lastApplied (NewRaftNode cfg d) = 0" "commitIndex (NewRaftNode cfg d) = 0" "disk (NewRaftNode cfg d) = d"
  "snapshotData (NewRaftNode cfg d) = []" "node_id (NewRaftNode cfg d) = cfg_ID cfg"
  "peers (NewRaftNode cfg d) = cfg_Peers cfg"
  by (simp_all add: NewRaftNode_def Let_def cfg_defaults_def)

lemma Run_start_snapshot:
  assumes "read_file (disk n) snapshot_path =
      Some (Whole (SnapBlob \<lparr>sf_Index = i, sf_Term = t, sf_Data = data\<rparr>))" and "i \<noteq> 0"
    and "in_sync n"
  shows "Run_start (NewRaftNode cfg (disk n)) = Some ((NewRaftNode cfg (disk n))
     \<lparr>currentTerm := currentTerm n, votedFor := votedFor n, rlog := compactTo (rlog n) i t,
      snapshotData := data, lastApplied := i, commitIndex := i\<rparr>, Some data)"
proof -
  let ?m = "NewRaftNode cfg (disk n)"
  have "0 < i" using assms(2) by (simp add: word_neq_0_conv)
  then have "restoreFromSnapshot (?m\<lparr>currentTerm := currentTerm n, votedFor := votedFor n, rlog := rlog n\<rparr>)
      = (?m\<lparr>currentTerm := currentTerm n, votedFor := votedFor n, rlog := compactTo (rlog n) i t,
            snapshotData := data, lastApplied := i, commitIndex := i\<rparr>, Some data)"
    using assms(1,2) by (simp add: restoreFromSnapshot_def loadSnapshotFile_def)
  then show ?thesis
    using loadState_in_sync [OF assms(3), of ?m] by (simp add: Run_start_def)
qed

text \<open>
  C14: a node that is started again on the files of a node whose memory they match comes back with
  the same term, vote and log, and, when there is a snapshot, with the data of that snapshot, as a
  follower that has applied and committed exactly the snapshot, whose data it hands to the state
  machine.
\<close>

theorem restart_recovers:
  assumes "in_sync n" and "snap_sync n"
  shows "\<exists>n' restored. Run_start (NewRaftNode cfg (disk n)) = Some (n', restored)
     \<and> currentTerm n' = currentTerm n \<and> votedFor n' = votedFor n \<and> rlog n' = rlog n
     \<and> nstate n' = Follower \<and> commitIndex n' = snapshotIndex (rlog n) \<and> lastApplied n' = snapshotIndex (rlog n)
     \<and> restored = (if snapshotIndex (rlog n) = 0 then None else Some (snapshotData n))
     \<and> snapshotData n' = (if snapshotIndex (rlog n) = 0 then [] else snapshotData n)
     \<and> in_sync n' \<and> snap_sync n'"
proof (cases "snapshotIndex (rlog n) = 0")
  case True
  let ?m = "NewRaftNode cfg (disk n)"
  have "read_file (disk n) snapshot_path = None" using assms(2) True by (simp add: snap_sync_def)
  then have "Run_start ?m = Some (?m\<lparr>currentTerm := currentTerm n, votedFor := votedFor n, rlog := rlog n\<rparr>, None)"
    using loadState_in_sync [OF assms(1), of ?m]
    by (simp add: Run_start_def restoreFromSnapshot_def loadSnapshotFile_def)
  then show ?thesis using assms True by (simp add: in_sync_def snap_sync_def persisted_of_def)
next
  case False
  have "read_file (disk n) snapshot_path = Some (Whole (SnapBlob \<lparr>sf_Index = snapshotIndex (rlog n),
      sf_Term = snapshotTerm (rlog n), sf_Data = snapshotData n\<rparr>))"
    using assms(2) False by (simp add: snap_sync_def snap_blob_def)
  note start = Run_start_snapshot [OF this False assms(1), of cfg]
  show ?thesis
    using start assms False by (simp add: compactTo_old in_sync_def snap_sync_def snap_blob_def persisted_of_def)
qed

text \<open>
  C25: a crash of the process between the two files of a snapshot loses nothing: the restart finds the
  new snapshot with the old log and ends with the log, term and vote that the finished
  \<open>TakeSnapshot\<close> would have left.
\<close>

theorem TakeSnapshot_crash_between_files:
  assumes "disk_works n" and "in_sync n"
    and "lastApplied n \<noteq> 0" and "snapshotIndex (rlog n) < lastApplied n"
    and "saveSnapshot (lastApplied n) (le_Term (log_get (rlog n) (lastApplied n))) data n = (ok, n1)"
  shows "\<exists>m restored. ok \<and> Run_start (NewRaftNode cfg (disk n1)) = Some (m, restored)
     \<and> rlog m = rlog (snd (TakeSnapshot data n)) \<and> currentTerm m = currentTerm n
     \<and> votedFor m = votedFor n \<and> restored = Some data \<and> lastApplied m = lastApplied n"
proof -
  let ?i = "lastApplied n" and ?t = "le_Term (log_get (rlog n) (lastApplied n))"
  obtain d where d: "saveSnapshot ?i ?t data n = (True, n\<lparr>disk := d\<rparr>)"
      "read_file d snapshot_path = Some (Whole (SnapBlob \<lparr>sf_Index = ?i, sf_Term = ?t, sf_Data = data\<rparr>))"
      "read_file d state_path = read_file (disk n) state_path"
    using saveSnapshot_works [OF assms(1)] by blast
  then have n1: "n1 = n\<lparr>disk := d\<rparr>" and ok: ok using assms(5) by simp_all
  have "in_sync n1" using assms(2) d(3) by (simp add: n1 in_sync_def)
  from Run_start_snapshot [OF _ assms(3) this, of ?t data cfg]
  have "Run_start (NewRaftNode cfg (disk n1)) = Some ((NewRaftNode cfg d)\<lparr>currentTerm := currentTerm n,
      votedFor := votedFor n, rlog := compactTo (rlog n) ?i ?t, snapshotData := data, lastApplied := ?i,
      commitIndex := ?i\<rparr>, Some data)"
    using d(2) by (simp add: n1)
  moreover have "rlog (snd (TakeSnapshot data n)) = compactTo (rlog n) ?i ?t"
    using assms(3,4) d(1) by (simp add: TakeSnapshot_def Let_def not_le [symmetric])
  ultimately show ?thesis using ok by simp
qed

text \<open>A node that has applied one of its entries and written its state.\<close>

lemma persist_applied: "in_sync (persist example_applied)" "disk_works (persist example_applied)"
  using example_applied_ok by (simp_all add: in_sync_persist disk_works_persist)

text \<open>A node with a snapshot of its first entry, its second entry still in the log.\<close>

definition example_compacted :: RaftNode where
  "example_compacted = snd (TakeSnapshot [42] example_applied)"

lemma example_compacted_ok:
  "in_sync example_compacted" "snap_sync example_compacted" "currentTerm example_compacted = 1"
  "snapshotIndex (rlog example_compacted) = 1" "snapshotData example_compacted = [42]"
  "log_map (rlog example_compacted) 2 = Some (mark_entry 2 1)"
proof -
  have n: "disk_works example_applied" "snapshotIndex (rlog example_applied) < lastApplied example_applied"
      "rlog example_applied = two_entries" "lastApplied example_applied = 1" "currentTerm example_applied = 1"
    using example_applied_ok by (simp_all add: example_applied_def u64_nat)
  obtain d where ts: "example_compacted = persist (example_applied\<lparr>disk := d, snapshotData := [42],
        rlog := compactTo (rlog example_applied) (lastApplied example_applied)
          (le_Term (log_get (rlog example_applied) (lastApplied example_applied)))\<rparr>)"
      and sync: "in_sync example_compacted" "snap_sync example_compacted"
    using TakeSnapshot_files [OF n(1,2), of "[42]"] by (metis example_compacted_def snd_conv)
  show "in_sync example_compacted" "snap_sync example_compacted" by (rule sync)+
  show "currentTerm example_compacted = 1" "snapshotData example_compacted = [42]"
    unfolding ts by (simp_all add: n(5))
  show "snapshotIndex (rlog example_compacted) = 1"
    unfolding ts using snapshot_compactTo(1) [OF n(2)] n(4) by simp
  have "wf_log two_entries" using example_applied_ok(1) n(3) by (simp add: wf_node_def)
  then have "log_map (rlog example_compacted) 2 = log_map two_entries 2"
    unfolding ts using rl.compact_keeps_above [of two_entries 1] n(3,4) by simp
  then show "log_map (rlog example_compacted) 2 = Some (mark_entry 2 1)"
    by (simp add: two_entries_def log_map_append)
qed

theorem restart_recovers_witness:
  "\<exists>n' restored. Run_start (NewRaftNode (config example_applied) (disk example_compacted)) = Some (n', restored)
     \<and> restored = Some [42] \<and> snapshotData n' = [42] \<and> currentTerm n' = 1 \<and> lastApplied n' = 1
     \<and> log_map (rlog n') 2 = Some (mark_entry 2 1)"
  using restart_recovers [OF example_compacted_ok(1,2), of "config example_applied"]
  by (auto simp: example_compacted_ok)

theorem TakeSnapshot_crash_between_files_witness:
  "\<exists>n1 m restored.
     saveSnapshot 1 (le_Term (log_get two_entries 1)) [42] (persist example_applied) = (True, n1)
     \<and> Run_start (NewRaftNode (config example_applied) (disk n1)) = Some (m, restored)
     \<and> rlog m = rlog (snd (TakeSnapshot [42] (persist example_applied)))"
proof -
  obtain ok n1 where s: "saveSnapshot 1 (le_Term (log_get two_entries 1)) [42] (persist example_applied) = (ok, n1)"
    by fastforce
  have e: "lastApplied example_applied = 1" "rlog example_applied = two_entries"
      "snapshotIndex two_entries = 0"
    by (simp_all add: example_applied_def flip: log_base_0_iff)
  show ?thesis
    using s TakeSnapshot_crash_between_files [OF persist_applied(2,1), of "[42]" ok n1 "config example_applied"] by (auto simp: e)
qed

end
