(* ===== verification/Cluster.thy ===== *)
theory Cluster
  imports Client
begin

text \<open>
  Nodes that talk to each other. The state holds the nodes by RPC address, the RPC calls under way
  (one goroutine each) and the elections whose goroutines are running; a step is one critical
  section of the sources: a timer branch of \<open>Run\<close>, a handler at the receiver, or the processing of
  one answer at the caller. Calls may be answered in any order, late or never; a node may crash and
  restart on its files at any time, which drops its goroutines. The members are fixed: configuration
  entries are not submitted here. The result is election safety.
\<close>

section \<open>State\<close>

datatype Request =
    VoteReq nat RequestVoteArgs
  | AppendReq u64 AppendEntriesArgs
  | InstallReq u64 InstallSnapshotArgs

datatype Answer =
    VoteAns RequestVoteReply
  | AppendAns AppendEntriesReply
  | InstallAns InstallSnapshotReply

datatype Status = Waiting | Answered Answer | Finished

text \<open>\<open>call_live\<close>: the goroutine that waits for the answer still exists.\<close>

record Call =
  call_from :: string
  call_to :: string
  call_req :: Request
  call_status :: Status
  call_live :: bool

text \<open>
  \<open>cl_begun\<close> counts the \<open>startElection\<close> goroutines that have not yet taken the lock, and
  \<open>cl_grants\<close> is a history variable, the votes cast as (term, voter, candidate): no step reads it.
\<close>

record Cluster =
  cl_members :: "string list"
  cl_nodes :: "string \<Rightarrow> RaftNode"
  cl_calls :: "Call list"
  cl_elections :: "(string \<times> Election) list"
  cl_begun :: "string \<Rightarrow> nat"
  cl_grants :: "(u64 \<times> string \<times> string) list"

definition boot :: "string list \<Rightarrow> (string \<Rightarrow> Config) \<Rightarrow> Cluster" where
  "boot ms cfgs = \<lparr>cl_members = ms, cl_nodes = (\<lambda>a. NewRaftNode (cfgs a) fs_empty), cl_calls = [],
     cl_elections = [], cl_begun = (\<lambda>_. 0), cl_grants = []\<rparr>"

section \<open>Steps\<close>

datatype Label =
    PreVoteWon string
  | BeginElection string
  | HeartbeatTick string instant
  | ClientSubmit string bytes
  | ApplyNext string
  | Compact string bytes
  | Deliver nat instant
  | Process nat instant
  | Restart string

definition set_node :: "string \<Rightarrow> RaftNode \<Rightarrow> Cluster \<Rightarrow> Cluster" where
  "set_node a n s = s\<lparr>cl_nodes := (cl_nodes s)(a := n)\<rparr>"

definition new_call :: "string \<Rightarrow> string \<Rightarrow> Request \<Rightarrow> Call" where
  "new_call a b req = \<lparr>call_from = a, call_to = b, call_req = req, call_status = Waiting, call_live = True\<rparr>"

fun spawn_call :: "string \<Rightarrow> Spawn \<Rightarrow> Call" where
  "spawn_call a (SendToPeer p t args) = new_call a p (AppendReq t args)"
| "spawn_call a (SendSnapshotToPeer p t args) = new_call a p (InstallReq t args)"

definition add_calls :: "Call list \<Rightarrow> Cluster \<Rightarrow> Cluster" where
  "add_calls cs s = s\<lparr>cl_calls := cl_calls s @ cs\<rparr>"

text \<open>A won pre-vote: \<open>becomeCandidate\<close> when still eligible, and \<open>go n.startElection()\<close>.\<close>

definition step_prevote_won :: "string \<Rightarrow> Cluster \<Rightarrow> Cluster" where
  "step_prevote_won a s =
     (let n = cl_nodes s a in
      if eligible n
      then (set_node a (Run_prevote_won n) s)
             \<lparr>cl_begun := (cl_begun s)(a := cl_begun s a + 1),
              cl_grants := (currentTerm n + 1, a, node_id n) # cl_grants s\<rparr>
      else s)"

definition step_begin :: "string \<Rightarrow> Cluster \<Rightarrow> Cluster" where
  "step_begin a s =
     (if cl_begun s a = 0 then s
      else let (el, args, ps) = startElection_begin (cl_nodes s a);
               e = length (cl_elections s) in
        add_calls (map (\<lambda>p. new_call a p (VoteReq e args)) ps)
          (s\<lparr>cl_begun := (cl_begun s)(a := cl_begun s a - 1),
             cl_elections := cl_elections s @ [(a, el)]\<rparr>))"

definition step_tick :: "string \<Rightarrow> instant \<Rightarrow> Cluster \<Rightarrow> Cluster" where
  "step_tick a now s =
     (let (n, sends) = Run_heartbeat_tick now (cl_nodes s a)
      in add_calls (map (spawn_call a) sends) (set_node a n s))"

definition step_submit :: "string \<Rightarrow> bytes \<Rightarrow> Cluster \<Rightarrow> Cluster" where
  "step_submit a command s =
     (let (res, n, sends) = Submit command (cl_nodes s a)
      in add_calls (map (spawn_call a) sends) (set_node a n s))"

text \<open>The part of \<open>applyLoop\<close> that moves \<open>lastApplied\<close>.\<close>

definition step_apply :: "string \<Rightarrow> Cluster \<Rightarrow> Cluster" where
  "step_apply a s =
     (let n = cl_nodes s a in
      if lastApplied n < commitIndex n then set_node a (n\<lparr>lastApplied := lastApplied n + 1\<rparr>) s else s)"

text \<open>The handler of a request at the receiver.\<close>

fun handle :: "instant \<Rightarrow> Request \<Rightarrow> RaftNode \<Rightarrow> Answer \<times> RaftNode" where
  "handle now (VoteReq e args) n = map_prod VoteAns id (HandleRequestVote now args n)"
| "handle now (AppendReq t args) n = map_prod AppendAns id (HandleAppendEntries now args n)"
| "handle now (InstallReq t args) n = map_prod InstallAns id (HandleInstallSnapshot args n)"

fun vote_cast :: "string \<Rightarrow> Request \<Rightarrow> Answer \<Rightarrow> (u64 \<times> string \<times> string) list" where
  "vote_cast b (VoteReq e args) (VoteAns r) =
     (if rvr_VoteGranted r then [(rv_Term args, b, rv_CandidateID args)] else [])"
| "vote_cast b _ _ = []"

definition step_deliver :: "nat \<Rightarrow> instant \<Rightarrow> Cluster \<Rightarrow> Cluster" where
  "step_deliver i now s =
     (let c = cl_calls s ! i; b = call_to c in
      if call_status c = Waiting
      then let (ans, n) = handle now (call_req c) (cl_nodes s b) in
        (set_node b n s)\<lparr>cl_calls := (cl_calls s)[i := c\<lparr>call_status := Answered ans\<rparr>],
                         cl_grants := vote_cast b (call_req c) ans @ cl_grants s\<rparr>
      else s)"

text \<open>The goroutine of a call processes its answer.\<close>

definition step_process :: "nat \<Rightarrow> instant \<Rightarrow> Cluster \<Rightarrow> Cluster" where
  "step_process i now s =
     (let c = cl_calls s ! i; a = call_from c; n = cl_nodes s a;
          s1 = s\<lparr>cl_calls := (cl_calls s)[i := c\<lparr>call_status := Finished\<rparr>]\<rparr> in
      case (call_live c, call_req c, call_status c) of
        (True, VoteReq e args, Answered (VoteAns r)) \<Rightarrow>
          let (el, n') = startElection_reply now r (snd (cl_elections s ! e)) n
          in (set_node a n' s1)\<lparr>cl_elections := (cl_elections s)[e := (a, el)]\<rparr>
      | (True, AppendReq t args, Answered (AppendAns r)) \<Rightarrow>
          set_node a (sendToPeer_reply now (call_to c) t args r n) s1
      | (True, InstallReq t args, Answered (InstallAns r)) \<Rightarrow>
          set_node a (sendSnapshotToPeer_reply (call_to c) t args r n) s1
      | _ \<Rightarrow> s)"

text \<open>The goroutine that waits for the answer dies with its process.\<close>

definition drop_caller :: "string \<Rightarrow> Call \<Rightarrow> Call" where
  "drop_caller a c = (if call_from c = a then c\<lparr>call_live := False\<rparr> else c)"

text \<open>The process dies and is started again on its files; requests already sent stay in the network.\<close>

definition step_restart :: "string \<Rightarrow> Cluster \<Rightarrow> Cluster" where
  "step_restart a s =
     (let n = cl_nodes s a in
      case Run_start (NewRaftNode (config n) (disk n)) of
        None \<Rightarrow> s
      | Some (n', _) \<Rightarrow>
          (set_node a n' s)\<lparr>cl_begun := (cl_begun s)(a := 0),
             cl_calls := map (drop_caller a) (cl_calls s)\<rparr>)"

fun cl_step :: "Label \<Rightarrow> Cluster \<Rightarrow> Cluster" where
  "cl_step (PreVoteWon a) s = (if a \<in> set (cl_members s) then step_prevote_won a s else s)"
| "cl_step (BeginElection a) s = (if a \<in> set (cl_members s) then step_begin a s else s)"
| "cl_step (HeartbeatTick a now) s = (if a \<in> set (cl_members s) then step_tick a now s else s)"
| "cl_step (ClientSubmit a command) s = (if a \<in> set (cl_members s) then step_submit a command s else s)"
| "cl_step (ApplyNext a) s = (if a \<in> set (cl_members s) then step_apply a s else s)"
| "cl_step (Compact a data) s =
     (if a \<in> set (cl_members s) then set_node a (snd (TakeSnapshot data (cl_nodes s a))) s else s)"
| "cl_step (Deliver i now) s = (if i < length (cl_calls s) then step_deliver i now s else s)"
| "cl_step (Process i now) s = (if i < length (cl_calls s) then step_process i now s else s)"
| "cl_step (Restart a) s = (if a \<in> set (cl_members s) then step_restart a s else s)"

text \<open>A heartbeat tick at which the leader finds that it has lost its quorum.\<close>

fun steps_down :: "Label \<Rightarrow> Cluster \<Rightarrow> bool" where
  "steps_down (HeartbeatTick a now) s \<longleftrightarrow>
     nstate (cl_nodes s a) = Leader \<and> nstate (checkQuorum now (cl_nodes s a)) \<noteq> Leader"
| "steps_down _ s \<longleftrightarrow> False"

text \<open>What is reached in \<open>k\<close> steps while no leader finds its quorum lost.\<close>

inductive cl_reach :: "Cluster \<Rightarrow> nat \<Rightarrow> Cluster \<Rightarrow> bool" for s0 :: Cluster where
  reach_start: "cl_reach s0 0 s0"
| reach_step: "cl_reach s0 k s \<Longrightarrow> \<not> steps_down l s \<Longrightarrow> cl_reach s0 (Suc k) (cl_step l s)"

inductive_cases cl_reach_SucE: "cl_reach s0 (Suc k) s"

text \<open>The same for a given list of steps, all of them allowed.\<close>

definition cl_run :: "Label list \<Rightarrow> Cluster \<Rightarrow> Cluster" where
  "cl_run labs s = fold cl_step labs s"

fun steady :: "Label list \<Rightarrow> Cluster \<Rightarrow> bool" where
  "steady [] s \<longleftrightarrow> True"
| "steady (l # ls) s \<longleftrightarrow> \<not> steps_down l s \<and> steady ls (cl_step l s)"

lemma steady_reach:
  "cl_reach s0 k s \<Longrightarrow> steady labs s \<Longrightarrow> cl_reach s0 (k + length labs) (cl_run labs s)"
proof (induction labs arbitrary: k s)
  case (Cons l labs)
  from Cons.IH [OF reach_step [OF Cons.prems(1)], of l] Cons.prems(2) show ?case
    by (simp add: cl_run_def)
qed (simp add: cl_run_def)

section \<open>What a step may do to a node\<close>

text \<open>The vote of the current term is on disk (or nothing was ever voted), and writes succeed.\<close>

definition disk_vote :: "blob fs \<Rightarrow> (u64 \<times> string) option" where
  "disk_vote d =
     (case read_file d state_path of
        None \<Rightarrow> Some (0, '''')
      | Some (Whole (StateBlob st)) \<Rightarrow>
          (if ps_Entries st = [] then None else Some (ps_CurrentTerm st, ps_VotedFor st))
      | Some _ \<Rightarrow> None)"

definition vote_saved :: "RaftNode \<Rightarrow> bool" where
  "vote_saved n \<longleftrightarrow> disk_works n \<and> disk_vote (disk n) = Some (currentTerm n, votedFor n)"

lemma vote_saved_cong:
  "currentTerm m = currentTerm n \<Longrightarrow> votedFor m = votedFor n \<Longrightarrow> disk m = disk n \<Longrightarrow>
     vote_saved m = vote_saved n"
  by (simp add: vote_saved_def disk_works_def)

lemma disk_vote_in_sync: "in_sync n \<Longrightarrow> disk_vote (disk n) = Some (currentTerm n, votedFor n)"
  by (simp add: disk_vote_def in_sync_def persisted_of_def log_entries_def)

lemma vote_saved_persist: "disk_works n \<Longrightarrow> vote_saved (persist n)"
  using disk_vote_in_sync [of "persist n"] in_sync_persist [of n] disk_works_persist [of n]
  by (simp add: vote_saved_def)

lemma vote_saved_notify [simp]: "vote_saved (notifyHeartbeat n) = vote_saved n"
  by (rule vote_saved_cong) simp_all

lemma vote_saved_works: "vote_saved n \<Longrightarrow> disk_works n"
  by (simp add: vote_saved_def)

lemma vote_saved_saveSnapshot: "vote_saved n \<Longrightarrow> vote_saved (snd (saveSnapshot i t data n))"
  using saveSnapshot_works [of n i t data] by (auto simp: vote_saved_def disk_vote_def)

text \<open>
  A calm change keeps identity, peers and configuration, keeps the vote, gains no role, and leaves
  the vote on disk.
\<close>

definition calm :: "RaftNode \<Rightarrow> RaftNode \<Rightarrow> bool" where
  "calm n n' \<longleftrightarrow> node_id n' = node_id n \<and> peers n' = peers n \<and> config n' = config n \<and> vote_kept n n'
     \<and> (nstate n' \<noteq> Follower \<longrightarrow> nstate n' = nstate n \<and> currentTerm n' = currentTerm n)
     \<and> (vote_saved n \<longrightarrow> vote_saved n')"

named_theorems calm_intros \<open>operations that are calm\<close>

lemma calm_refl [simp, calm_intros]: "calm n n"
  by (simp add: calm_def)

lemma calm_trans: "calm a b \<Longrightarrow> calm b c \<Longrightarrow> calm a c"
  unfolding calm_def using vote_kept_trans by metis

lemma calm_same:
  "node_id m = node_id n \<Longrightarrow> peers m = peers n \<Longrightarrow> config m = config n \<Longrightarrow> nstate m = nstate n \<Longrightarrow>
     currentTerm m = currentTerm n \<Longrightarrow> votedFor m = votedFor n \<Longrightarrow> disk m = disk n \<Longrightarrow> calm n m"
  by (simp add: calm_def vote_kept_same vote_saved_cong [of m n])

lemma calm_persist:
  "node_id m = node_id n \<Longrightarrow> peers m = peers n \<Longrightarrow> config m = config n \<Longrightarrow> nstate m = nstate n \<Longrightarrow>
     currentTerm m = currentTerm n \<Longrightarrow> votedFor m = votedFor n \<Longrightarrow>
     (vote_saved n \<longrightarrow> disk_works m) \<Longrightarrow> calm n (persist m)"
  by (simp add: calm_def vote_kept_same vote_saved_persist)

lemma calm_follower [calm_intros]: "currentTerm n < t \<Longrightarrow> calm n (becomeFollower t n)"
  using vote_saved_persist [of "n\<lparr>nstate := Follower, currentTerm := t, votedFor := '''', leaderID := ''''\<rparr>"]
  by (simp add: calm_def vote_kept_intros) (simp add: becomeFollower_def vote_saved_def disk_works_def)

lemma calm_HandleRequestVote [calm_intros]: "calm n (snd (HandleRequestVote now args n))"
proof -
  have cast: "calm m (notifyHeartbeat (persist (m\<lparr>votedFor := c\<rparr>)))" if "votedFor m \<in> {'''', c}" for m c
    using that vote_saved_persist [of "m\<lparr>votedFor := c\<rparr>"]
    by (auto simp: calm_def vote_kept_def disk_works_vote vote_saved_works)
  show ?thesis
    using calm_follower [of n "rv_Term args"] calm_trans [OF calm_follower cast]
    by (auto simp: HandleRequestVote_def Let_def cast)
qed

lemma calm_ae_follower: "\<not> ae_Term args < currentTerm n \<Longrightarrow> calm n (ae_follower now args n)"
proof -
  let ?set = "\<lambda>m. notifyHeartbeat (m\<lparr>leaderID := ae_LeaderID args, lastLeaderContact := now\<rparr>)"
  have set: "calm m (?set m)" for m by (rule calm_same) simp_all
  have down: "calm m (?set (m\<lparr>nstate := Follower\<rparr>))" for m
    by (auto simp: calm_def vote_kept_def intro: vote_saved_cong [THEN iffD1, rotated 3])
  show ?thesis
    using set [of n] down [of n] calm_trans [OF calm_follower set]
    by (auto simp: ae_follower_def)
qed

lemma calm_HandleAppendEntries [calm_intros]: "calm n (snd (HandleAppendEntries now args n))"
proof (cases "ae_Term args < currentTerm n")
  case False
  note f = calm_ae_follower [OF False, of now]
  show ?thesis
  proof (cases "consistency_reject args (ae_follower now args n)")
    case None
    let ?m = "follow_commit (ae_LeaderCommit args) ((ae_follower now args n)\<lparr>rlog := merge_entries (rlog n) (ae_Entries args)\<rparr>)"
    have "disk_works ?m = disk_works (ae_follower now args n)" by (simp add: disk_works_def)
    then have "calm (ae_follower now args n) (persist ?m)"
      by (intro calm_persist) (simp_all add: vote_saved_works)
    then have m: "calm n (persist ?m)" by (rule calm_trans [OF f])
    have "calm (persist ?m) ((persist ?m)\<lparr>heartbeatsRecv := k\<rparr>)" for k
      by (rule calm_same) simp_all
    then have k: "calm n ((persist ?m)\<lparr>heartbeatsRecv := k\<rparr>)" for k by (rule calm_trans [OF m])
    show ?thesis
      unfolding HandleAppendEntries_accept [OF False None] Let_def snd_conv
      by (rule if_split [THEN iffD2]) (intro conjI impI m k)
  qed (use f False in \<open>simp add: HandleAppendEntries_reject\<close>)
qed (simp add: HandleAppendEntries_stale)

lemma calm_saveSnapshot: "calm n (snd (saveSnapshot i t data n))"
  using saveSnapshot_frame [of i t data n] vote_saved_saveSnapshot [of n i t data]
  by (auto simp: calm_def vote_kept_def)

lemma calm_HandleInstallSnapshot [calm_intros]: "calm n (snd (HandleInstallSnapshot args n))"
proof -
  let ?n1 = "if is_Term args > currentTerm n then becomeFollower (is_Term args) n else n"
  let ?n2 = "notifyHeartbeat (?n1\<lparr>leaderID := is_LeaderID args\<rparr>)"
  let ?n3 = "snd (saveSnapshot (is_LastIncludedIndex args) (is_LastIncludedTerm args) (is_Data args) ?n2)"
  have 1: "calm n ?n1" by (simp add: calm_intros)
  have "calm ?n1 ?n2" by (rule calm_same) simp_all
  then have 2: "calm n ?n2" using 1 calm_trans by blast
  then have 3: "calm n ?n3" using calm_saveSnapshot calm_trans by blast
  have w: "calm n (persist m)"
    if "node_id m = node_id ?n3" "peers m = peers ?n3" "config m = config ?n3" "nstate m = nstate ?n3"
      "currentTerm m = currentTerm ?n3" "votedFor m = votedFor ?n3" "disk m = disk ?n3" for m
    using that by (intro calm_trans [OF 3] calm_persist) (simp_all add: vote_saved_def disk_works_def)
  have q: "calm n (m\<lparr>snapshotNotifyC := c\<rparr>)" if "calm n m" for m c
    using that by (rule calm_trans) (rule calm_same, simp_all)
  show ?thesis
    using 1 2 3 by (auto simp: HandleInstallSnapshot_def Let_def case_prod_beta intro!: q w)
qed

lemma calm_TakeSnapshot [calm_intros]: "calm n (snd (TakeSnapshot data n))"
proof (cases "lastApplied n = 0 \<or> lastApplied n \<le> snapshotIndex (rlog n)")
  case True
  then show ?thesis by (auto simp: TakeSnapshot_def)
next
  case False
  let ?t = "le_Term (log_get (rlog n) (lastApplied n))"
  obtain ok n1 where sv: "saveSnapshot (lastApplied n) ?t data n = (ok, n1)" by fastforce
  then have 1: "calm n n1" using calm_saveSnapshot [of n "lastApplied n" ?t data] by simp
  let ?m = "n1\<lparr>snapshotData := data, rlog := compactTo (rlog n1) (lastApplied n) ?t\<rparr>"
  have "calm n1 (persist ?m)" by (rule calm_persist) (simp_all add: vote_saved_def disk_works_def)
  then have 2: "calm n (persist ?m)" by (rule calm_trans [OF 1])
  have "snd (TakeSnapshot data n) = (if ok then persist ?m else n1)"
    using False sv by (simp add: TakeSnapshot_def Let_def)
  then show ?thesis using 1 2 by (cases ok) simp_all
qed

lemma calm_Submit [calm_intros]: "calm n (fst (snd (Submit command n)))"
  by (auto simp: Submit_def Let_def intro!: calm_persist) (simp add: vote_saved_def disk_works_def)

lemma calm_sendToPeer_reply [calm_intros]: "calm n (sendToPeer_reply now peer trm args reply n)"
  by (auto simp: sendToPeer_reply_def Let_def calm_intros intro!: calm_same)

lemma calm_sendSnapshotToPeer_reply [calm_intros]:
  "calm n (sendSnapshotToPeer_reply peer trm args reply n)"
  by (auto simp: sendSnapshotToPeer_reply_def Let_def calm_intros intro!: calm_same)

lemma calm_tick [calm_intros]:
  "\<not> (nstate n = Leader \<and> nstate (checkQuorum now n) \<noteq> Leader) \<Longrightarrow>
     calm n (fst (Run_heartbeat_tick now n))"
  by (auto simp: Run_heartbeat_tick_def sendHeartbeats_def checkQuorum_def Let_def intro!: calm_same split: if_splits)

lemma calm_handle [calm_intros]: "calm n (snd (handle now req n))"
  by (cases req) (simp_all add: calm_intros)

lemma Run_start_vote:
  assumes "vote_saved n"
  shows "\<exists>n' r. Run_start (NewRaftNode (config n) (disk n)) = Some (n', r)
     \<and> currentTerm n' = currentTerm n \<and> votedFor n' = votedFor n \<and> nstate n' = Follower
     \<and> disk n' = disk n \<and> node_id n' = cfg_ID (config n) \<and> peers n' = cfg_Peers (config n)
     \<and> config n' = cfg_defaults (config n)"
proof -
  let ?m = "NewRaftNode (config n) (disk n)"
  have c: "config ?m = cfg_defaults (config n)" "votedFor ?m = ''''"
    by (simp_all add: NewRaftNode_def Let_def)
  have rest: "\<exists>n' r. restoreFromSnapshot m = (n', r) \<and> currentTerm n' = currentTerm m \<and> votedFor n' = votedFor m
      \<and> nstate n' = nstate m \<and> disk n' = disk m \<and> node_id n' = node_id m \<and> peers n' = peers m
      \<and> config n' = config m" for m
    by (auto simp: restoreFromSnapshot_def Let_def split: option.splits)
  have "fst (loadState ?m) \<noteq> LoadPanics \<and> currentTerm (snd (loadState ?m)) = currentTerm n
      \<and> votedFor (snd (loadState ?m)) = votedFor n \<and> nstate (snd (loadState ?m)) = Follower
      \<and> disk (snd (loadState ?m)) = disk n \<and> node_id (snd (loadState ?m)) = node_id ?m
      \<and> peers (snd (loadState ?m)) = peers ?m \<and> config (snd (loadState ?m)) = config ?m"
    using assms c(2)
    by (auto simp: vote_saved_def disk_vote_def loadState_def
        split: option.splits content.splits blob.splits list.splits if_splits)
  then show ?thesis
    using rest [of "snd (loadState ?m)"] c(1)
    by (cases "loadState ?m"; cases "fst (loadState ?m)") (auto simp: Run_start_def)
qed

end
