(* ===== verification/ElectionSafety.thy ===== *)
theory ElectionSafety
  imports Cluster
begin

text \<open>
  At most one leader per term. The invariant relates the votes that were cast (a history variable
  of the cluster) to the terms and votes of the nodes, to the calls under way and to the counters of
  the elections; two leaders of one term would need two majorities, which share a voter.
\<close>

section \<open>Quorums\<close>

text \<open>What the argument needs of a notion of quorum: any two of them intersect.\<close>

locale quorum_system =
  fixes quorum :: "'m \<Rightarrow> 'v set \<Rightarrow> bool"
  assumes quorums_meet: "quorum m Q \<Longrightarrow> quorum m R \<Longrightarrow> Q \<inter> R \<noteq> {}"
begin

lemma quorums_agree:
  assumes "quorum m Q" "quorum m R" "\<forall>v \<in> Q. voted v x" "\<forall>v \<in> R. voted v y"
    and "\<And>v x y. voted v x \<Longrightarrow> voted v y \<Longrightarrow> x = y"
  shows "x = y"
  using quorums_meet [OF assms(1,2)] assms(3-5) by blast

end

text \<open>Majorities of a member list.\<close>

definition majority_set :: "string list \<Rightarrow> string set \<Rightarrow> bool" where
  "majority_set ms Q \<longleftrightarrow> Q \<subseteq> set ms \<and> length ms < 2 * card Q"

interpretation maj: quorum_system majority_set
proof
  fix ms Q R
  assume q: "majority_set ms Q" "majority_set ms R"
  show "Q \<inter> R \<noteq> {}"
  proof
    assume "Q \<inter> R = {}"
    then have "card (Q \<union> R) = card Q + card R"
      using q by (intro card_Un_disjoint) (auto simp: majority_set_def intro: finite_subset)
    moreover have "card (Q \<union> R) \<le> length ms"
      using q by (intro order_trans [OF card_mono card_length]) (auto simp: majority_set_def)
    ultimately show False using q by (simp add: majority_set_def)
  qed
qed

section \<open>Invariant\<close>

text \<open>
  A cluster configuration: distinct members with distinct, non-empty identities, each listing all
  the others as its peers.
\<close>

definition wf_config :: "string list \<Rightarrow> (string \<Rightarrow> Config) \<Rightarrow> bool" where
  "wf_config ms cfgs \<longleftrightarrow> distinct ms \<and> inj_on (\<lambda>a. cfg_ID (cfgs a)) (set ms)
     \<and> (\<forall>a \<in> set ms. cfg_ID (cfgs a) \<noteq> '''' \<and> distinct (cfg_Peers (cfgs a))
          \<and> set (cfg_Peers (cfgs a)) = set ms - {a})"

definition node_ok :: "Config \<Rightarrow> nat \<Rightarrow> RaftNode \<Rightarrow> bool" where
  "node_ok cfg k n \<longleftrightarrow> node_id n = cfg_ID cfg \<and> peers n = cfg_Peers cfg \<and> config n = cfg_defaults cfg
     \<and> vote_saved n \<and> unat (currentTerm n) \<le> k"

definition inv_nodes :: "string list \<Rightarrow> (string \<Rightarrow> Config) \<Rightarrow> nat \<Rightarrow> Cluster \<Rightarrow> bool" where
  "inv_nodes ms cfgs k s \<longleftrightarrow> cl_members s = ms \<and> (\<forall>a \<in> set ms. node_ok (cfgs a) k (cl_nodes s a))"

text \<open>A vote that was cast is the voter's vote of that term, as long as the voter is in that term.\<close>

definition inv_grants :: "string list \<Rightarrow> Cluster \<Rightarrow> bool" where
  "inv_grants ms s \<longleftrightarrow>
     (\<forall>t v c. (t, v, c) \<in> set (cl_grants s) \<longrightarrow> v \<in> set ms \<and> c \<noteq> '''' \<and> t \<le> currentTerm (cl_nodes s v)
        \<and> (t = currentTerm (cl_nodes s v) \<longrightarrow> votedFor (cl_nodes s v) = c))
     \<and> (\<forall>t v c c'. (t, v, c) \<in> set (cl_grants s) \<longrightarrow> (t, v, c') \<in> set (cl_grants s) \<longrightarrow> c = c')"

definition elected :: "string list \<Rightarrow> (string \<Rightarrow> Config) \<Rightarrow> Cluster \<Rightarrow> string \<Rightarrow> u64 \<Rightarrow> bool" where
  "elected ms cfgs s a t \<longleftrightarrow>
     (\<exists>Q. majority_set ms Q \<and> (\<forall>v \<in> Q. (t, v, cfg_ID (cfgs a)) \<in> set (cl_grants s)))"

definition inv_roles :: "string list \<Rightarrow> (string \<Rightarrow> Config) \<Rightarrow> Cluster \<Rightarrow> bool" where
  "inv_roles ms cfgs s \<longleftrightarrow> (\<forall>a \<in> set ms.
     (nstate (cl_nodes s a) \<noteq> Follower \<longrightarrow>
        (currentTerm (cl_nodes s a), a, cfg_ID (cfgs a)) \<in> set (cl_grants s))
     \<and> (nstate (cl_nodes s a) = Leader \<longrightarrow> elected ms cfgs s a (currentTerm (cl_nodes s a))))"

fun req_term :: "Request \<Rightarrow> u64" where
  "req_term (VoteReq e args) = rv_Term args"
| "req_term (AppendReq t args) = ae_Term args"
| "req_term (InstallReq t args) = is_Term args"

fun ans_term :: "Answer \<Rightarrow> u64" where
  "ans_term (VoteAns r) = rvr_Term r"
| "ans_term (AppendAns r) = aer_Term r"
| "ans_term (InstallAns r) = isr_Term r"

fun status_ok :: "(Answer \<Rightarrow> bool) \<Rightarrow> Status \<Rightarrow> bool" where
  "status_ok P (Answered ans) = P ans"
| "status_ok P _ = True"

text \<open>A vote call belongs to an election of its sender, and a granted answer to a vote that was cast.\<close>

definition vote_call_ok :: "(string \<Rightarrow> Config) \<Rightarrow> Cluster \<Rightarrow> Call \<Rightarrow> bool" where
  "vote_call_ok cfgs s c \<longleftrightarrow> (case call_req c of
     VoteReq e args \<Rightarrow> e < length (cl_elections s) \<and> fst (cl_elections s ! e) = call_from c
       \<and> call_to c \<in> set (cfg_Peers (cfgs (call_from c))) \<and> \<not> rv_IsPreVote args
       \<and> rv_Term args = el_term (snd (cl_elections s ! e)) \<and> rv_CandidateID args = cfg_ID (cfgs (call_from c))
       \<and> status_ok (\<lambda>ans. \<forall>r. ans = VoteAns r \<longrightarrow> rvr_VoteGranted r \<longrightarrow>
            (rv_Term args, call_to c, cfg_ID (cfgs (call_from c))) \<in> set (cl_grants s)) (call_status c)
   | _ \<Rightarrow> True)"

definition call_ok :: "string list \<Rightarrow> nat \<Rightarrow> Call \<Rightarrow> bool" where
  "call_ok ms k c \<longleftrightarrow> call_from c \<in> set ms \<and> call_to c \<in> set ms \<and> unat (req_term (call_req c)) \<le> k
     \<and> status_ok (\<lambda>ans. unat (ans_term ans) \<le> k) (call_status c)"

definition vote_key :: "Call \<Rightarrow> (nat \<times> string) list" where
  "vote_key c = (case call_req c of VoteReq e args \<Rightarrow> [(e, call_to c)] | _ \<Rightarrow> [])"

definition inv_calls :: "string list \<Rightarrow> (string \<Rightarrow> Config) \<Rightarrow> nat \<Rightarrow> Cluster \<Rightarrow> bool" where
  "inv_calls ms cfgs k s \<longleftrightarrow>
     (\<forall>c \<in> set (cl_calls s). call_ok ms k c \<and> vote_call_ok cfgs s c)
     \<and> distinct (concat (map vote_key (cl_calls s)))"

text \<open>An election has counted distinct peers that voted and whose calls are finished.\<close>

definition counted :: "(string \<Rightarrow> Config) \<Rightarrow> Cluster \<Rightarrow> nat \<Rightarrow> string set \<Rightarrow> bool" where
  "counted cfgs s e V \<longleftrightarrow> (let (a, el) = cl_elections s ! e in
     V \<subseteq> set (cfg_Peers (cfgs a)) \<and> el_votes el = 1 + card V
     \<and> (\<forall>v \<in> V. (el_term el, v, cfg_ID (cfgs a)) \<in> set (cl_grants s)
          \<and> (\<forall>c \<in> set (cl_calls s). vote_key c = [(e, v)] \<longrightarrow> call_status c = Finished)))"

definition inv_elections :: "string list \<Rightarrow> (string \<Rightarrow> Config) \<Rightarrow> Cluster \<Rightarrow> bool" where
  "inv_elections ms cfgs s \<longleftrightarrow> (\<forall>e < length (cl_elections s).
     fst (cl_elections s ! e) \<in> set ms
     \<and> el_majority (snd (cl_elections s ! e)) = majority_of (cfg_Peers (cfgs (fst (cl_elections s ! e))))
     \<and> (\<exists>V. counted cfgs s e V))"

definition cl_inv :: "string list \<Rightarrow> (string \<Rightarrow> Config) \<Rightarrow> nat \<Rightarrow> Cluster \<Rightarrow> bool" where
  "cl_inv ms cfgs k s \<longleftrightarrow> inv_nodes ms cfgs k s \<and> inv_grants ms s \<and> inv_roles ms cfgs s
     \<and> inv_calls ms cfgs k s \<and> inv_elections ms cfgs s"

lemmas cl_inv_defs = inv_nodes_def inv_grants_def inv_roles_def inv_calls_def inv_elections_def

section \<open>Preservation\<close>

lemma status_ok_mono: "status_ok P st \<Longrightarrow> (\<And>a. P a \<Longrightarrow> Q a) \<Longrightarrow> status_ok Q st"
  by (cases st) auto

lemma call_ok_mono: "call_ok ms k c \<Longrightarrow> k \<le> k' \<Longrightarrow> call_ok ms k' c"
  by (auto simp: call_ok_def elim!: status_ok_mono)

lemma cl_inv_mono: "cl_inv ms cfgs k s \<Longrightarrow> k \<le> k' \<Longrightarrow> cl_inv ms cfgs k' s"
  by (auto simp: cl_inv_def inv_nodes_def inv_calls_def node_ok_def call_ok_mono intro: le_trans)

lemma set_node_simps [simp]:
  "cl_members (set_node a n s) = cl_members s" "cl_calls (set_node a n s) = cl_calls s"
  "cl_elections (set_node a n s) = cl_elections s" "cl_grants (set_node a n s) = cl_grants s"
  "cl_begun (set_node a n s) = cl_begun s" "cl_nodes (set_node a n s) = (cl_nodes s)(a := n)"
  by (simp_all add: set_node_def)

lemma add_calls_simps [simp]:
  "cl_members (add_calls cs s) = cl_members s" "cl_calls (add_calls cs s) = cl_calls s @ cs"
  "cl_elections (add_calls cs s) = cl_elections s" "cl_grants (add_calls cs s) = cl_grants s"
  "cl_begun (add_calls cs s) = cl_begun s" "cl_nodes (add_calls cs s) = cl_nodes s"
  by (simp_all add: add_calls_def)

lemma elected_cong: "cl_grants s' = cl_grants s \<Longrightarrow> elected ms cfgs s' a t = elected ms cfgs s a t"
  by (simp add: elected_def)

lemma elected_mono:
  "set (cl_grants s) \<subseteq> set (cl_grants s') \<Longrightarrow> elected ms cfgs s a t \<Longrightarrow> elected ms cfgs s' a t"
  unfolding elected_def by blast

lemma counted_cong:
  "cl_elections s' = cl_elections s \<Longrightarrow> cl_grants s' = cl_grants s \<Longrightarrow> cl_calls s' = cl_calls s \<Longrightarrow>
     counted cfgs s' e V = counted cfgs s e V"
  by (simp add: counted_def)

lemma vote_call_ok_cong:
  "cl_elections s' = cl_elections s \<Longrightarrow> cl_grants s' = cl_grants s \<Longrightarrow>
     vote_call_ok cfgs s' c = vote_call_ok cfgs s c"
  by (simp add: vote_call_ok_def split: Request.splits)

lemma inv_elections_mono:
  assumes "inv_elections ms cfgs s" "cl_elections s' = cl_elections s"
    and "\<And>e V. counted cfgs s e V \<Longrightarrow> counted cfgs s' e V"
  shows "inv_elections ms cfgs s'"
  unfolding inv_elections_def assms(2)
  using assms(1)[unfolded inv_elections_def] assms(3) by blast

text \<open>A change that is not about nodes, and leaves calls, elections and votes as they are.\<close>

lemma cl_inv_frame:
  assumes "cl_inv ms cfgs k s" and "cl_members s' = cl_members s" "cl_nodes s' = cl_nodes s"
    "cl_calls s' = cl_calls s" "cl_elections s' = cl_elections s" "cl_grants s' = cl_grants s"
  shows "cl_inv ms cfgs k s'"
  using assms counted_cong [of s' s] vote_call_ok_cong [of s' s cfgs] elected_cong [of s' s]
  by (simp add: cl_inv_def cl_inv_defs)

lemma inv_grants_node:
  assumes "inv_grants ms s" and "vote_kept (cl_nodes s a) n"
  shows "inv_grants ms (set_node a n s)"
proof -
  have "t \<le> currentTerm n \<and> (t = currentTerm n \<longrightarrow> votedFor n = c)" if "(t, a, c) \<in> set (cl_grants s)" for t c
  proof -
    from assms(1) that have "c \<noteq> ''''" "t \<le> currentTerm (cl_nodes s a)"
        "t = currentTerm (cl_nodes s a) \<longrightarrow> votedFor (cl_nodes s a) = c"
      unfolding inv_grants_def by blast+
    then show ?thesis using assms(2) by (auto simp: vote_kept_def)
  qed
  then show ?thesis using assms(1) by (simp add: inv_grants_def)
qed

lemma cl_inv_set_node:
  assumes inv: "cl_inv ms cfgs k s" and a: "a \<in> set ms" and calm: "calm (cl_nodes s a) n"
    and k: "unat (currentTerm n) \<le> k'" "k \<le> k'"
  shows "cl_inv ms cfgs k' (set_node a n s)"
proof -
  have ok: "node_ok (cfgs a) k (cl_nodes s a)" and inv': "cl_inv ms cfgs k' s"
    using inv a cl_inv_mono [OF inv k(2)] by (auto simp: cl_inv_def inv_nodes_def)
  have n: "node_ok (cfgs a) k' n"
    using ok calm k by (simp add: node_ok_def calm_def)
  have r: "nstate n \<noteq> Follower \<longrightarrow> nstate n = nstate (cl_nodes s a) \<and> currentTerm n = currentTerm (cl_nodes s a)"
    using calm by (simp add: calm_def)
  have "inv_nodes ms cfgs k' (set_node a n s)"
    using inv' n by (simp add: cl_inv_def inv_nodes_def)
  moreover have "inv_grants ms (set_node a n s)"
    using inv' calm by (simp add: cl_inv_def inv_grants_node calm_def)
  moreover have "inv_roles ms cfgs (set_node a n s)"
    using inv' r elected_cong [of "set_node a n s" s ms cfgs] by (auto simp: cl_inv_def inv_roles_def)
  moreover have "inv_calls ms cfgs k' (set_node a n s)" "inv_elections ms cfgs (set_node a n s)"
    using inv' vote_call_ok_cong [of "set_node a n s" s cfgs] counted_cong [of "set_node a n s" s cfgs]
    by (simp_all add: cl_inv_def inv_calls_def inv_elections_def)
  ultimately show ?thesis by (simp add: cl_inv_def)
qed

text \<open>New calls that are not vote requests.\<close>

definition plain_call :: "Call \<Rightarrow> bool" where
  "plain_call c \<longleftrightarrow> vote_key c = []"

lemma cl_inv_add_calls:
  assumes inv: "cl_inv ms cfgs k s" and new: "\<forall>c \<in> set cs. plain_call c \<and> call_ok ms k c"
  shows "cl_inv ms cfgs k (add_calls cs s)"
proof -
  have key: "concat (map vote_key (cl_calls s @ cs)) = concat (map vote_key (cl_calls s))"
      "\<forall>c \<in> set cs. vote_call_ok cfgs s c"
    using new by (auto simp: plain_call_def vote_key_def vote_call_ok_def split: Request.splits)
  have vc: "vote_call_ok cfgs (add_calls cs s) c = vote_call_ok cfgs s c" for c
    by (rule vote_call_ok_cong) simp_all
  have cnt: "counted cfgs s e V \<Longrightarrow> counted cfgs (add_calls cs s) e V" for e V
    using new by (auto simp: counted_def plain_call_def)
  have "inv_elections ms cfgs (add_calls cs s)"
    by (rule inv_elections_mono [OF _ _ cnt]) (use inv in \<open>simp_all add: cl_inv_def\<close>)
  moreover have "inv_calls ms cfgs k (add_calls cs s)"
    unfolding inv_calls_def add_calls_simps key(1) vc
    using inv key(2) new by (auto simp: cl_inv_def inv_calls_def)
  moreover have "inv_nodes ms cfgs k (add_calls cs s)" "inv_grants ms (add_calls cs s)"
      "inv_roles ms cfgs (add_calls cs s)"
    using inv elected_cong [of "add_calls cs s" s ms cfgs]
    by (simp_all add: cl_inv_def inv_nodes_def inv_grants_def inv_roles_def)
  ultimately show ?thesis by (simp add: cl_inv_def)
qed

text \<open>Votes that are the current ones of their voters are added to the history.\<close>

lemma status_ok_grants:
  "set g \<subseteq> set g' \<Longrightarrow> status_ok (\<lambda>ans. \<forall>r. ans = VoteAns r \<longrightarrow> rvr_VoteGranted r \<longrightarrow> x \<in> set g) st \<Longrightarrow>
     status_ok (\<lambda>ans. \<forall>r. ans = VoteAns r \<longrightarrow> rvr_VoteGranted r \<longrightarrow> x \<in> set g') st"
  by (erule status_ok_mono) blast

lemma cl_inv_add_grants:
  assumes inv: "cl_inv ms cfgs k s"
    and new: "\<forall>(t, v, c) \<in> set gs. v \<in> set ms \<and> c \<noteq> '''' \<and> t = currentTerm (cl_nodes s v) \<and> votedFor (cl_nodes s v) = c"
  shows "cl_inv ms cfgs k (s\<lparr>cl_grants := gs @ cl_grants s\<rparr>)"
proof -
  let ?s = "s\<lparr>cl_grants := gs @ cl_grants s\<rparr>"
  have old: "(t, v, c) \<in> set (cl_grants s) \<Longrightarrow> v \<in> set ms \<and> c \<noteq> '''' \<and> t \<le> currentTerm (cl_nodes s v)
        \<and> (t = currentTerm (cl_nodes s v) \<longrightarrow> votedFor (cl_nodes s v) = c)"
    and uniq: "(t, v, c) \<in> set (cl_grants s) \<Longrightarrow> (t, v, c') \<in> set (cl_grants s) \<Longrightarrow> c = c'" for t v c c'
    using inv unfolding cl_inv_def inv_grants_def by blast+
  have added: "v \<in> set ms \<and> c \<noteq> '''' \<and> t = currentTerm (cl_nodes s v) \<and> votedFor (cl_nodes s v) = c"
    if "(t, v, c) \<in> set gs" for t v c
    using bspec [OF new that] by simp
  have cur: "v \<in> set ms \<and> c \<noteq> '''' \<and> t \<le> currentTerm (cl_nodes s v)
        \<and> (t = currentTerm (cl_nodes s v) \<longrightarrow> votedFor (cl_nodes s v) = c)"
    if "(t, v, c) \<in> set gs \<union> set (cl_grants s)" for t v c
    using that old [of t v c] added [of t v c] by auto
  have uniq': "c = c'" if m: "(t, v, c) \<in> set gs \<union> set (cl_grants s)" "(t, v, c') \<in> set gs \<union> set (cl_grants s)" for t v c c'
  proof (cases "t = currentTerm (cl_nodes s v)")
    case True
    then show ?thesis using cur [OF m(1)] cur [OF m(2)] by simp
  next
    case False
    then show ?thesis using m added [of t v c] added [of t v c'] uniq [of t v c c'] by blast
  qed
  have set: "set (cl_grants ?s) = set gs \<union> set (cl_grants s)" "cl_nodes ?s = cl_nodes s" by simp_all
  have g: "inv_grants ms ?s"
    unfolding inv_grants_def set using cur uniq' by blast
  have vc: "vote_call_ok cfgs s c \<Longrightarrow> vote_call_ok cfgs ?s c" for c
    by (cases "call_status c") (auto simp: vote_call_ok_def split: Request.splits)
  have c: "inv_calls ms cfgs k ?s"
    using inv vc unfolding cl_inv_def inv_calls_def by simp
  have r: "inv_roles ms cfgs ?s"
  proof -
    have "elected ms cfgs ?s a t" if "elected ms cfgs s a t" for a t
      using that by (rule elected_mono [rotated]) simp
    then show ?thesis using inv by (simp add: cl_inv_def inv_roles_def)
  qed
  have cnt: "counted cfgs s e V \<Longrightarrow> counted cfgs ?s e V" for e V
    by (auto simp: counted_def)
  have "inv_elections ms cfgs ?s"
    by (rule inv_elections_mono [OF _ _ cnt]) (use inv in \<open>simp_all add: cl_inv_def\<close>)
  then show ?thesis
    using g c r inv by (simp add: cl_inv_def inv_nodes_def)
qed

text \<open>A call that was not finished gets another status.\<close>

lemma map_vote_key_update:
  "i < length cs \<Longrightarrow> vote_key c = vote_key (cs ! i) \<Longrightarrow> map vote_key (cs[i := c]) = map vote_key cs"
  by (metis list_update_id map_update)

lemma cl_inv_status:
  assumes inv: "cl_inv ms cfgs k s" and i: "i < length (cl_calls s)"
    and c: "c = (cl_calls s ! i)\<lparr>call_status := st\<rparr>" and before: "call_status (cl_calls s ! i) \<noteq> Finished"
    and ok: "call_ok ms k c" "vote_call_ok cfgs s c"
  shows "cl_inv ms cfgs k (s\<lparr>cl_calls := (cl_calls s)[i := c]\<rparr>)"
proof -
  let ?s = "s\<lparr>cl_calls := (cl_calls s)[i := c]\<rparr>"
  have calls: "cl_calls ?s = (cl_calls s)[i := c]" by simp
  have vc: "vote_call_ok cfgs ?s x = vote_call_ok cfgs s x" for x
    by (rule vote_call_ok_cong) simp_all
  have key: "vote_key c = vote_key (cl_calls s ! i)" by (simp add: c vote_key_def split: Request.split)
  have cnt: "counted cfgs s e V \<Longrightarrow> counted cfgs ?s e V" for e V
    unfolding counted_def using before key nth_mem [OF i]
    by (auto dest!: set_update_subset_insert [THEN subsetD])
  have "inv_elections ms cfgs ?s"
    by (rule inv_elections_mono [OF _ _ cnt]) (use inv in \<open>simp_all add: cl_inv_def\<close>)
  moreover have "inv_calls ms cfgs k ?s"
    using inv ok set_update_subset_insert [of "cl_calls s" i c]
    unfolding inv_calls_def cl_inv_def calls map_vote_key_update [OF i key] vc by blast
  moreover have "inv_nodes ms cfgs k ?s" "inv_grants ms ?s" "inv_roles ms cfgs ?s"
    using inv elected_cong [of ?s s ms cfgs]
    by (simp_all add: cl_inv_def inv_nodes_def inv_grants_def inv_roles_def)
  ultimately show ?thesis by (simp add: cl_inv_def)
qed

section \<open>Every step keeps the invariant\<close>

lemma handle_terms:
  assumes "handle now req n = (ans, n')"
  shows "ans_term ans = currentTerm n' \<and> currentTerm n' \<le> max (currentTerm n) (req_term req)"
proof (cases req)
  case (VoteReq e args)
  have pre: "snd (HandleRequestVote now args n) = n" if "rv_IsPreVote args"
    using that by (simp add: HandleRequestVote_def Let_def)
  have "ans = VoteAns (fst (HandleRequestVote now args n))" "n' = snd (HandleRequestVote now args n)"
    using assms VoteReq by (cases "HandleRequestVote now args n"; simp)+
  then show ?thesis
    using VoteReq pre HandleRequestVote_term [of args now n] by (cases "rv_IsPreVote args") simp_all
next
  case (AppendReq t args)
  have rej: "aer_Term r = currentTerm m" if "consistency_reject args m = Some r" for r m
    using that by (auto simp: consistency_reject_def Let_def split: if_splits)
  let ?h = "HandleAppendEntries now args n"
  have "ans = AppendAns (fst ?h)" "n' = snd ?h"
    using assms AppendReq by (cases ?h; simp)+
  moreover have "aer_Term (fst ?h) = currentTerm (snd ?h) \<and> currentTerm (snd ?h) \<in> {currentTerm n, ae_Term args}"
    using rej [of "ae_follower now args n"]
    by (cases "ae_Term args < currentTerm n"; cases "consistency_reject args (ae_follower now args n)")
      (simp_all add: HandleAppendEntries_stale HandleAppendEntries_reject HandleAppendEntries_accept Let_def)
  ultimately show ?thesis using AppendReq by auto
next
  case (InstallReq t args)
  let ?n1 = "if is_Term args > currentTerm n then becomeFollower (is_Term args) n else n"
  have "isr_Term (fst (HandleInstallSnapshot args n)) = currentTerm (snd (HandleInstallSnapshot args n))
      \<and> currentTerm (snd (HandleInstallSnapshot args n)) = currentTerm ?n1"
    using saveSnapshot_frame [of "is_LastIncludedIndex args" "is_LastIncludedTerm args" "is_Data args"
        "notifyHeartbeat (?n1\<lparr>leaderID := is_LeaderID args\<rparr>)"]
    by (auto simp: HandleInstallSnapshot_def Let_def case_prod_beta)
  moreover have "ans = InstallAns (fst (HandleInstallSnapshot args n))" "n' = snd (HandleInstallSnapshot args n)"
    using assms InstallReq by (cases "HandleInstallSnapshot args n"; simp)+
  ultimately show ?thesis
    using InstallReq by simp
qed

lemma unat_max_le: "(x :: u64) \<le> max y z \<Longrightarrow> unat y \<le> k \<Longrightarrow> unat z \<le> k \<Longrightarrow> unat x \<le> k"
  by (auto simp: max_def u64_nat split: if_splits)

lemma calm_spawn:
  assumes "n' = n \<or> currentTerm n' = currentTerm n" "peers n' = peers n"
    and "sends = [] \<or> sends = map (replicate_to n') (peers n')"
    and "unat (currentTerm n) \<le> k" "a \<in> set ms" "set (peers n) \<subseteq> set ms"
  shows "\<forall>c \<in> set (map (spawn_call a) sends). plain_call c \<and> call_ok ms k c"
  using assms
  by (auto simp: subset_iff plain_call_def call_ok_def vote_key_def replicate_to_def new_call_def buildArgsLocked_def
      buildSnapshotArgsLocked_def Let_def)

lemma node_okD:
  "cl_inv ms cfgs k s \<Longrightarrow> a \<in> set ms \<Longrightarrow> node_ok (cfgs a) k (cl_nodes s a)"
  by (simp add: cl_inv_def inv_nodes_def)

lemma wf_config_peers: "wf_config ms cfgs \<Longrightarrow> a \<in> set ms \<Longrightarrow> set (cfg_Peers (cfgs a)) \<subseteq> set ms"
  by (auto simp: wf_config_def)

lemma wf_config_length:
  assumes "wf_config ms cfgs" "a \<in> set ms"
  shows "length (cfg_Peers (cfgs a)) + 1 = length ms"
proof -
  have "length (cfg_Peers (cfgs a)) = card (set ms - {a})"
    using assms by (metis distinct_card wf_config_def)
  moreover have "card (set ms) = length ms" "0 < card (set ms)"
    using assms by (auto simp: wf_config_def distinct_card card_gt_0_iff)
  ultimately show ?thesis using assms(2) by simp
qed

lemma cl_inv_send:
  assumes "wf_config ms cfgs" "cl_inv ms cfgs k s" "a \<in> set ms" "calm (cl_nodes s a) n"
    and "currentTerm n = currentTerm (cl_nodes s a)"
    and "sends = [] \<or> sends = map (replicate_to n) (peers n)"
  shows "cl_inv ms cfgs k (add_calls (map (spawn_call a) sends) (set_node a n s))"
proof -
  note ok = node_okD [OF assms(2,3)]
  have k: "unat (currentTerm (cl_nodes s a)) \<le> k" and p: "peers (cl_nodes s a) = cfg_Peers (cfgs a)"
    using ok by (simp_all add: node_ok_def)
  have "\<forall>c \<in> set (map (spawn_call a) sends). plain_call c \<and> call_ok ms k c"
    using assms(3-6) k p wf_config_peers [OF assms(1,3)]
    by (intro calm_spawn [where n = "cl_nodes s a" and n' = n]) (simp_all add: calm_def)
  then show ?thesis
    using cl_inv_set_node [OF assms(2-4), of k] k assms(5) by (simp add: cl_inv_add_calls)
qed

text \<open>A node takes on a role it has the votes for.\<close>

lemma cl_inv_role:
  assumes inv: "cl_inv ms cfgs k s" and a: "a \<in> set ms"
    and n: "node_id n = node_id (cl_nodes s a)" "peers n = peers (cl_nodes s a)"
      "config n = config (cl_nodes s a)" "currentTerm n = currentTerm (cl_nodes s a)"
      "votedFor n = votedFor (cl_nodes s a)" "disk n = disk (cl_nodes s a)"
    and g: "(currentTerm n, a, cfg_ID (cfgs a)) \<in> set (cl_grants s)"
    and l: "nstate n = Leader \<Longrightarrow> elected ms cfgs s a (currentTerm n)"
  shows "cl_inv ms cfgs k (set_node a n s)"
proof -
  let ?m = "n\<lparr>nstate := Follower\<rparr>"
  have vs: "vote_saved ?m = vote_saved (cl_nodes s a)"
    using n by (intro vote_saved_cong) simp_all
  have "calm (cl_nodes s a) ?m"
    using n vs by (simp add: calm_def vote_kept_def)
  then have m: "cl_inv ms cfgs k (set_node a ?m s)"
    using node_okD [OF inv a] n(4) by (intro cl_inv_set_node [OF inv a]) (simp_all add: node_ok_def)
  have vc: "vote_call_ok cfgs (set_node a x s) c = vote_call_ok cfgs s c" for x c
    by (rule vote_call_ok_cong) simp_all
  have cnt: "counted cfgs (set_node a x s) = counted cfgs s" for x
    by (intro ext counted_cong) simp_all
  have el: "elected ms cfgs (set_node a x s) = elected ms cfgs s" for x
    by (intro ext elected_cong) simp
  have "node_ok (cfgs a) k n = node_ok (cfgs a) k ?m"
    using vote_saved_cong [of n ?m] by (simp add: node_ok_def)
  then have "inv_nodes ms cfgs k (set_node a n s)"
    using m by (auto simp: cl_inv_def inv_nodes_def)
  moreover have "inv_grants ms (set_node a n s)"
    using inv n by (intro inv_grants_node vote_kept_same) (simp_all add: cl_inv_def)
  moreover have "inv_calls ms cfgs k (set_node a n s)" "inv_elections ms cfgs (set_node a n s)"
    using inv by (simp_all add: cl_inv_def inv_calls_def inv_elections_def vc cnt)
  moreover have "inv_roles ms cfgs (set_node a n s)"
    using inv g l by (auto simp: cl_inv_def inv_roles_def el)
  ultimately show ?thesis by (simp add: cl_inv_def)
qed

lemma cl_inv_prevote_won:
  assumes wf: "wf_config ms cfgs" and inv: "cl_inv ms cfgs k s" and a: "a \<in> set ms" and k: "Suc k < 2 ^ 64"
  shows "cl_inv ms cfgs (Suc k) (step_prevote_won a s)"
proof (cases "eligible (cl_nodes s a)")
  case True
  let ?n = "cl_nodes s a" and ?c = "becomeCandidate (cl_nodes s a)"
  let ?m = "?c\<lparr>nstate := Follower\<rparr>" and ?g = "(currentTerm (cl_nodes s a) + 1, a, cfg_ID (cfgs a))"
  note ok = node_okD [OF inv a]
  have t: "unat (currentTerm ?n + 1) = unat (currentTerm ?n) + 1" "unat (currentTerm ?n) \<le> k"
    using ok k unat_u64_plus1 [of "currentTerm ?n"] by (simp_all add: node_ok_def)
  have id: "node_id ?n = cfg_ID (cfgs a)" "cfg_ID (cfgs a) \<noteq> ''''" and vs: "vote_saved ?n"
    using ok wf a by (auto simp: node_ok_def wf_config_def)
  have "disk_works (?n\<lparr>nstate := Candidate, currentTerm := currentTerm ?n + 1, votedFor := node_id ?n, leaderID := ''''\<rparr>)"
    using vote_saved_works [OF vs] by (simp add: disk_works_def)
  then have "vote_saved ?c" unfolding becomeCandidate_def by (rule vote_saved_persist)
  then have "vote_saved ?m" using vote_saved_cong [of ?m ?c] by simp
  moreover have "currentTerm ?n < currentTerm ?n + 1" using t by (simp add: u64_nat)
  ultimately have "calm ?n ?m" by (auto simp: calm_def vote_kept_def)
  then have 1: "cl_inv ms cfgs (Suc k) (set_node a ?m s)"
    using t by (intro cl_inv_set_node [OF inv a]) simp_all
  then have 2: "cl_inv ms cfgs (Suc k) ((set_node a ?m s)\<lparr>cl_grants := [?g] @ cl_grants s\<rparr>)"
    using a id cl_inv_add_grants [OF 1, of "[?g]"] by simp
  let ?s = "(set_node a ?m s)\<lparr>cl_grants := [?g] @ cl_grants s\<rparr>"
  have 3: "cl_inv ms cfgs (Suc k) (set_node a ?c ?s)"
    using id by (intro cl_inv_role [OF 2 a]) simp_all
  have "cl_nodes (step_prevote_won a s) = (cl_nodes s)(a := ?c)"
      "cl_grants (step_prevote_won a s) = ?g # cl_grants s"
      "cl_members (step_prevote_won a s) = cl_members s" "cl_calls (step_prevote_won a s) = cl_calls s"
      "cl_elections (step_prevote_won a s) = cl_elections s"
    using True id by (simp_all add: step_prevote_won_def Let_def Run_prevote_won_def)
  then show ?thesis by (intro cl_inv_frame [OF 3]) simp_all
qed (use inv in \<open>simp add: step_prevote_won_def cl_inv_mono\<close>)

lemma vote_keys_elections:
  assumes "inv_calls ms cfgs k s" "(e, v) \<in> set (concat (map vote_key (cl_calls s)))"
  shows "e < length (cl_elections s)"
proof -
  from assms(2) obtain c where c: "c \<in> set (cl_calls s)" "(e, v) \<in> set (vote_key c)" by auto
  then have "vote_call_ok cfgs s c" using assms(1) by (simp add: inv_calls_def)
  with c(2) show ?thesis by (auto simp: vote_call_ok_def vote_key_def split: Request.splits)
qed

text \<open>A new election with one call per peer.\<close>

lemma cl_inv_new_election:
  assumes wf: "wf_config ms cfgs" and inv: "cl_inv ms cfgs k s" and a: "a \<in> set ms"
    and el: "el = \<lparr>el_term = t, el_votes = 1, el_majority = majority_of (cfg_Peers (cfgs a))\<rparr>"
    and args: "rv_Term args = t" "rv_CandidateID args = cfg_ID (cfgs a)" "\<not> rv_IsPreVote args" "unat t \<le> k"
    and s': "cl_members s' = cl_members s" "cl_nodes s' = cl_nodes s" "cl_grants s' = cl_grants s"
      "cl_elections s' = cl_elections s @ [(a, el)]"
      "cl_calls s' = cl_calls s @ map (\<lambda>p. new_call a p (VoteReq (length (cl_elections s)) args)) (cfg_Peers (cfgs a))"
  shows "cl_inv ms cfgs k s'"
proof -
  let ?e = "length (cl_elections s)" and ?ps = "cfg_Peers (cfgs a)"
  let ?new = "map (\<lambda>p. new_call a p (VoteReq (length (cl_elections s)) args)) (cfg_Peers (cfgs a))"
  have calls: "inv_calls ms cfgs k s" using inv by (simp add: cl_inv_def)
  have key: "map vote_key ?new = map (\<lambda>p. [(?e, p)]) ?ps"
    by (simp add: vote_key_def new_call_def)
  have new: "call_ok ms k c \<and> vote_call_ok cfgs s' c" if "c \<in> set ?new" for c
    using that wf_config_peers [OF wf a] a args el s'
    by (auto simp: new_call_def call_ok_def vote_call_ok_def)
  have old: "call_ok ms k c \<and> vote_call_ok cfgs s' c" if "c \<in> set (cl_calls s)" for c
    using that calls s'(3,4)
    by (auto simp: inv_calls_def vote_call_ok_def nth_append split: Request.splits)
  have "distinct (concat (map vote_key (cl_calls s @ ?new)))"
  proof -
    have "concat (map vote_key ?new) = map (Pair ?e) ?ps"
      unfolding key by (induction "?ps") simp_all
    moreover have "distinct (map (Pair ?e) ?ps)"
      using wf a by (simp add: wf_config_def distinct_map inj_on_def)
    ultimately show ?thesis
      using calls vote_keys_elections [OF calls, of ?e] by (auto simp: inv_calls_def)
  qed
  then have "inv_calls ms cfgs k s'"
    unfolding inv_calls_def s'(5) using old new by auto
  moreover have "inv_elections ms cfgs s'"
    unfolding inv_elections_def
  proof (intro allI impI)
    fix e assume e: "e < length (cl_elections s')"
    have cnt: "counted cfgs s' e V" if "counted cfgs s e V" "e < ?e" for V
      using that s' by (auto simp: counted_def nth_append new_call_def vote_key_def)
    have "\<exists>V. counted cfgs s' e V"
    proof (cases "e < ?e")
      case True
      then show ?thesis using inv cnt unfolding cl_inv_def inv_elections_def by blast
    next
      case False
      then have "counted cfgs s' e {}" using s' el e by (simp add: counted_def less_Suc_eq)
      then show ?thesis by blast
    qed
    then show "fst (cl_elections s' ! e) \<in> set ms
        \<and> el_majority (snd (cl_elections s' ! e)) = majority_of (cfg_Peers (cfgs (fst (cl_elections s' ! e))))
        \<and> (\<exists>V. counted cfgs s' e V)"
      using e inv s'(4) a el
      by (cases "e < ?e") (auto simp: cl_inv_def inv_elections_def nth_append less_Suc_eq)
  qed
  moreover have "inv_nodes ms cfgs k s'" "inv_grants ms s'" "inv_roles ms cfgs s'"
    using inv s' elected_cong [of s' s ms cfgs]
    by (simp_all add: cl_inv_def inv_nodes_def inv_grants_def inv_roles_def)
  ultimately show ?thesis by (simp add: cl_inv_def)
qed

lemma cl_inv_begin:
  assumes wf: "wf_config ms cfgs" and inv: "cl_inv ms cfgs k s" and a: "a \<in> set ms"
  shows "cl_inv ms cfgs k (step_begin a s)"
proof (cases "cl_begun s a = 0")
  case False
  have ok: "node_id (cl_nodes s a) = cfg_ID (cfgs a)" "peers (cl_nodes s a) = cfg_Peers (cfgs a)"
      "unat (currentTerm (cl_nodes s a)) \<le> k"
    using node_okD [OF inv a] by (simp_all add: node_ok_def)
  show ?thesis
    by (rule cl_inv_new_election [OF wf inv a refl,
          where args = "fst (snd (startElection_begin (cl_nodes s a)))"])
      (use False ok in \<open>simp_all add: step_begin_def startElection_begin_def Let_def\<close>)
qed (use inv in \<open>simp add: step_begin_def\<close>)

lemma cl_inv_deliver:
  assumes wf: "wf_config ms cfgs" and inv: "cl_inv ms cfgs k s" and i: "i < length (cl_calls s)"
  shows "cl_inv ms cfgs k (step_deliver i now s)"
proof (cases "call_status (cl_calls s ! i) = Waiting")
  case True
  define c where "c = cl_calls s ! i"
  define b where "b = call_to c"
  obtain ans n where h: "handle now (call_req c) (cl_nodes s b) = (ans, n)" by fastforce
  have c: "call_ok ms k c" "vote_call_ok cfgs s c" "call_status c = Waiting"
    using inv nth_mem [OF i] True unfolding c_def cl_inv_def inv_calls_def by blast+
  have b: "b \<in> set ms" "unat (req_term (call_req c)) \<le> k" using c(1) by (simp_all add: call_ok_def b_def)
  have calm: "calm (cl_nodes s b) n" using calm_handle [of "cl_nodes s b" now "call_req c"] h by simp
  have t: "ans_term ans = currentTerm n" "unat (currentTerm n) \<le> k"
    using handle_terms [OF h] node_okD [OF inv b(1)] b(2) unat_max_le by (auto simp: node_ok_def)
  let ?s1 = "set_node b n s" and ?gs = "vote_cast b (call_req c) ans"
  let ?s2 = "?s1\<lparr>cl_grants := ?gs @ cl_grants ?s1\<rparr>" and ?c = "c\<lparr>call_status := Answered ans\<rparr>"
  have 1: "cl_inv ms cfgs k ?s1" using cl_inv_set_node [OF inv b(1) calm t(2)] by simp
  have "\<forall>(t, v, x) \<in> set ?gs. v \<in> set ms \<and> x \<noteq> '''' \<and> t = currentTerm (cl_nodes ?s1 v) \<and> votedFor (cl_nodes ?s1 v) = x"
  proof (cases "call_req c")
    case (VoteReq e args)
    have a: "\<not> rv_IsPreVote args" "rv_CandidateID args \<noteq> ''''"
      using c(1,2) VoteReq wf by (auto simp: vote_call_ok_def call_ok_def wf_config_def)
    show ?thesis
      using VoteReq h a b(1) HandleRequestVote_granted [OF a(1), of now "cl_nodes s b"]
      by (cases "HandleRequestVote now args (cl_nodes s b)") auto
  qed simp_all
  then have 2: "cl_inv ms cfgs k ?s2" by (rule cl_inv_add_grants [OF 1])
  have ok: "call_ok ms k ?c" using c(1) t by (simp add: call_ok_def)
  have vok: "vote_call_ok cfgs ?s2 ?c"
  proof (cases "call_req c")
    case (VoteReq e args)
    then show ?thesis using c(2) by (auto simp: vote_call_ok_def b_def)
  qed (simp_all add: vote_call_ok_def)
  have "cl_inv ms cfgs k (?s2\<lparr>cl_calls := (cl_calls ?s2)[i := ?c]\<rparr>)"
    by (rule cl_inv_status [OF 2 _ _ _ ok vok]) (use i c(3) in \<open>simp_all add: c_def\<close>)
  moreover have "step_deliver i now s = ?s2\<lparr>cl_calls := (cl_calls ?s2)[i := ?c]\<rparr>"
    using c(3) h by (simp add: step_deliver_def Let_def flip: c_def b_def)
  ultimately show ?thesis by simp
qed (use inv in \<open>simp add: step_deliver_def Let_def\<close>)

text \<open>An answer that grants a vote is counted.\<close>

lemma cl_inv_count:
  assumes inv: "cl_inv ms cfgs k s" and i: "i < length (cl_calls s)"
    and c: "cl_calls s ! i = c" "call_req c = VoteReq e args" "call_status c = Answered (VoteAns r)" "rvr_VoteGranted r"
    and el: "cl_elections s ! e = (a, el)"
    and s': "s' = s\<lparr>cl_calls := (cl_calls s)[i := c\<lparr>call_status := Finished\<rparr>],
                    cl_elections := (cl_elections s)[e := (a, el\<lparr>el_votes := el_votes el + 1\<rparr>)]\<rparr>"
  shows "cl_inv ms cfgs k s'"
proof -
  let ?v = "call_to c" and ?c = "c\<lparr>call_status := Finished\<rparr>"
  let ?s1 = "s\<lparr>cl_calls := (cl_calls s)[i := ?c]\<rparr>"
  have ok: "call_ok ms k c" "vote_call_ok cfgs s c"
    using inv nth_mem [OF i] c(1) unfolding cl_inv_def inv_calls_def by blast+
  have e: "e < length (cl_elections s)" "call_from c = a" "?v \<in> set (cfg_Peers (cfgs a))"
      "(el_term el, ?v, cfg_ID (cfgs a)) \<in> set (cl_grants s)"
    using ok(2) c el by (auto simp: vote_call_ok_def)
  have 1: "cl_inv ms cfgs k ?s1"
    using ok c by (intro cl_inv_status [OF inv i]) (auto simp: call_ok_def vote_call_ok_def)
  have key: "vote_key c = [(e, ?v)]" "vote_key ?c = [(e, ?v)]" using c(2) by (simp_all add: vote_key_def)
  have same: "c' = ?c" if "c' \<in> set (cl_calls s')" "vote_key c' = [(e, ?v)]" for c'
  proof (rule ccontr)
    assume "c' \<noteq> ?c"
    have "c' \<in> set ((cl_calls s)[i := ?c])" using that(1) by (simp add: s')
    then obtain j where j': "j < length (cl_calls s)" "(cl_calls s)[i := ?c] ! j = c'"
      unfolding in_set_conv_nth length_list_update by blast
    with \<open>c' \<noteq> ?c\<close> i have j: "j < length (cl_calls s)" "j \<noteq> i" "cl_calls s ! j = c'"
      by (auto simp: nth_list_update split: if_splits)
    with distinct_concat_disjoint [of "map vote_key (cl_calls s)" i j] inv i that(2) key(1) c(1)
    show False by (simp add: cl_inv_def inv_calls_def)
  qed
  have fin: "call_status c' = Finished" if "c' \<in> set ((cl_calls s)[i := ?c])" "vote_key c' = [(e, ?v)]" for c'
  proof -
    have "c' = ?c" using that by (intro same) (simp_all add: s')
    then show ?thesis by simp
  qed
  have cnt: "counted cfgs s' e' V" if "counted cfgs ?s1 e' V" "e' \<noteq> e" for e' V
    using that by (simp add: counted_def s')
  obtain V where V: "counted cfgs s e V" using inv e(1) unfolding cl_inv_def inv_elections_def by blast
  have "?v \<notin> V" using V nth_mem [OF i] c(1,3) key by (auto simp: counted_def el)
  moreover have "finite V" using V by (auto simp: counted_def el intro: finite_subset)
  moreover have "counted cfgs ?s1 e V"
    using V nth_mem [OF i] key c(1) by (auto simp: counted_def dest!: set_update_subset_insert [THEN subsetD])
  ultimately have "counted cfgs s' e (insert ?v V)"
    using e fin el by (auto simp: counted_def s')
  moreover have "\<exists>V. counted cfgs ?s1 e' V" if "e' < length (cl_elections s)" for e'
    using 1 that unfolding cl_inv_def inv_elections_def by simp
  ultimately have "\<exists>V. counted cfgs s' e' V" if "e' < length (cl_elections s)" for e'
    using cnt that by (cases "e' = e") blast+
  then have "inv_elections ms cfgs s'"
    using 1 el e(1) by (auto simp: cl_inv_def inv_elections_def s' nth_list_update)
  moreover have "vote_call_ok cfgs s' x = vote_call_ok cfgs ?s1 x" for x
    using el e(1) by (auto simp: vote_call_ok_def s' nth_list_update split: Request.splits)
  then have "inv_calls ms cfgs k s'" using 1 by (simp add: cl_inv_def inv_calls_def s')
  ultimately show ?thesis
    using inv elected_cong [of s' s ms cfgs] by (simp add: cl_inv_def cl_inv_defs s')
qed

lemma counted_elected:
  assumes wf: "wf_config ms cfgs" and a: "a \<in> set ms" and V: "counted cfgs s e V"
    and el: "cl_elections s ! e = (a, el)" "majority_of (cfg_Peers (cfgs a)) \<le> el_votes el"
    and self: "(el_term el, a, cfg_ID (cfgs a)) \<in> set (cl_grants s)"
  shows "elected ms cfgs s a (el_term el)"
proof -
  have v: "V \<subseteq> set (cfg_Peers (cfgs a))" "el_votes el = 1 + card V"
      "\<forall>v \<in> V. (el_term el, v, cfg_ID (cfgs a)) \<in> set (cl_grants s)"
    using V el by (auto simp: counted_def)
  have "set (cfg_Peers (cfgs a)) = set ms - {a}" using wf a by (simp add: wf_config_def)
  then have "a \<notin> V" "finite V" "V \<subseteq> set ms" using v(1) by (auto intro: finite_subset)
  then have "majority_set ms (insert a V)"
    using a el(2) v(2) wf_config_length [OF wf a] majority_of_le [of "cfg_Peers (cfgs a)"]
    by (simp add: majority_set_def)
  then show ?thesis unfolding elected_def using v(3) self by blast
qed

lemma startElection_reply_cases:
  assumes "startElection_reply now r el n = (el', n')"
  obtains "el' = el" "calm n n'" "currentTerm n' \<le> max (currentTerm n) (rvr_Term r)"
  | "rvr_VoteGranted r" "nstate n = Candidate" "currentTerm n = el_term el"
    "el' = el\<lparr>el_votes := el_votes el + 1\<rparr>"
    "n' = (if el_majority el \<le> el_votes el + 1 then becomeLeader now n else n)"
proof -
  consider (higher) "rvr_Term r > currentTerm n"
    | (ignored) "\<not> rvr_Term r > currentTerm n" "nstate n \<noteq> Candidate \<or> currentTerm n \<noteq> el_term el \<or> \<not> rvr_VoteGranted r"
    | (vote) "\<not> rvr_Term r > currentTerm n" "nstate n = Candidate" "currentTerm n = el_term el" "rvr_VoteGranted r"
    by blast
  then show ?thesis
  proof cases
    case higher
    then have "el' = el" "n' = becomeFollower (rvr_Term r) n" using assms by (auto simp: startElection_reply_def)
    then show ?thesis using higher by (intro that(1)) (simp_all add: calm_follower)
  next
    case ignored
    then have "el' = el" "n' = n" using assms by (auto simp: startElection_reply_def split: if_splits)
    then show ?thesis by (intro that(1)) simp_all
  next
    case vote
    then have "el' = el\<lparr>el_votes := el_votes el + 1\<rparr>"
        "n' = (if el_majority el \<le> el_votes el + 1 then becomeLeader now n else n)"
      using assms by (auto simp: startElection_reply_def Let_def split: if_splits)
    then show ?thesis using vote by (intro that(2)) simp_all
  qed
qed

lemma reply_terms:
  "currentTerm (sendToPeer_reply now p t args r n) \<le> max (currentTerm n) (aer_Term r)"
  "currentTerm (sendSnapshotToPeer_reply p t iargs ir n) \<le> max (currentTerm n) (isr_Term ir)"
  by (auto simp: sendToPeer_reply_def sendSnapshotToPeer_reply_def Let_def le_max_iff_disj)

lemma cl_inv_process_vote:
  assumes wf: "wf_config ms cfgs" and inv: "cl_inv ms cfgs k s" and i: "i < length (cl_calls s)"
    and c: "cl_calls s ! i = c" "call_req c = VoteReq e args" "call_status c = Answered (VoteAns r)" "call_live c"
  shows "cl_inv ms cfgs k (step_process i now s)"
proof -
  let ?a = "call_from c" and ?c = "c\<lparr>call_status := Finished\<rparr>"
  let ?n = "cl_nodes s ?a" and ?s1 = "s\<lparr>cl_calls := (cl_calls s)[i := ?c]\<rparr>"
  have ok: "call_ok ms k c" "vote_call_ok cfgs s c"
    using inv nth_mem [OF i] c(1) unfolding cl_inv_def inv_calls_def by blast+
  have a: "?a \<in> set ms" "unat (rvr_Term r) \<le> k" "fst (cl_elections s ! e) = ?a" "e < length (cl_elections s)"
    using ok c by (auto simp: call_ok_def vote_call_ok_def)
  obtain el where el: "cl_elections s ! e = (?a, el)" using a(3) by (cases "cl_elections s ! e") auto
  obtain el' n' where r: "startElection_reply now r el ?n = (el', n')" by fastforce
  have step: "step_process i now s = (set_node ?a n' ?s1)\<lparr>cl_elections := (cl_elections s)[e := (?a, el')]\<rparr>"
    using c el r by (simp add: step_process_def Let_def)
  have 1: "cl_inv ms cfgs k ?s1"
    using ok c by (intro cl_inv_status [OF inv i]) (auto simp: call_ok_def vote_call_ok_def)
  have tk: "unat (currentTerm ?n) \<le> k" using node_okD [OF inv a(1)] by (simp add: node_ok_def)
  show ?thesis
    using r
  proof (cases rule: startElection_reply_cases)
    case 1
    have "cl_inv ms cfgs k (set_node ?a n' ?s1)"
      using 1 unat_max_le [OF 1(3) tk a(2)] by (intro cl_inv_set_node [OF \<open>cl_inv ms cfgs k ?s1\<close> a(1)]) simp_all
    moreover have "(cl_elections s)[e := (?a, el')] = cl_elections s" using 1(1) el by (metis list_update_id)
    ultimately show ?thesis by (simp add: step set_node_def)
  next
    case 2
    let ?s2 = "?s1\<lparr>cl_elections := (cl_elections s)[e := (?a, el')]\<rparr>"
    have inv2: "cl_inv ms cfgs k ?s2"
      using c el 2(1,4) by (intro cl_inv_count [OF inv i]) simp_all
    have self: "(currentTerm ?n, ?a, cfg_ID (cfgs ?a)) \<in> set (cl_grants ?s2)"
      using inv a(1) 2(2) by (simp add: cl_inv_def inv_roles_def)
    have nth: "cl_elections ?s2 ! e = (?a, el')" "e < length (cl_elections ?s2)" using a(4) by simp_all
    have el_ok: "el_majority el = majority_of (cfg_Peers (cfgs ?a))"
      using inv a(4) el by (auto simp: cl_inv_def inv_elections_def)
    obtain V where V: "counted cfgs ?s2 e V"
      using inv2 nth(2) unfolding cl_inv_def inv_elections_def by blast
    have lead: "elected ms cfgs ?s2 ?a (currentTerm ?n)" if "nstate n' = Leader"
      using that counted_elected [OF wf a(1) V nth(1)] self 2 el_ok by (auto split: if_splits)
    have "cl_inv ms cfgs k (set_node ?a n' ?s2)"
      using self lead 2(5) by (intro cl_inv_role [OF inv2 a(1)]) (auto split: if_splits)
    moreover have "step_process i now s = set_node ?a n' ?s2" by (simp add: step set_node_def)
    ultimately show ?thesis by simp
  qed
qed

lemma cl_inv_process:
  assumes wf: "wf_config ms cfgs" and inv: "cl_inv ms cfgs k s" and i: "i < length (cl_calls s)"
  shows "cl_inv ms cfgs k (step_process i now s)"
proof -
  define c where "c = cl_calls s ! i"
  let ?a = "call_from c" and ?s1 = "s\<lparr>cl_calls := (cl_calls s)[i := c\<lparr>call_status := Finished\<rparr>]\<rparr>"
  have ok: "call_ok ms k c" "vote_call_ok cfgs s c"
    using inv nth_mem [OF i] unfolding c_def cl_inv_def inv_calls_def by blast+
  have tk: "unat (currentTerm (cl_nodes s ?a)) \<le> k" and a: "?a \<in> set ms"
    using ok(1) node_okD [OF inv, of ?a] by (simp_all add: node_ok_def call_ok_def)
  have other: "cl_inv ms cfgs k (set_node ?a n ?s1)"
    if "call_status c = Answered ans" "calm (cl_nodes s ?a) n" "currentTerm n \<le> max (currentTerm (cl_nodes s ?a)) (ans_term ans)"
    for n ans
  proof -
    have "unat (currentTerm n) \<le> k"
      using that ok(1) by (intro unat_max_le [OF that(3) tk]) (simp add: call_ok_def)
    moreover have "cl_inv ms cfgs k ?s1"
      using ok that(1) by (intro cl_inv_status [OF inv i]) (auto simp: call_ok_def vote_call_ok_def c_def split: Request.splits)
    ultimately show ?thesis using that(2) a by (intro cl_inv_set_node [where k = k and k' = k]) simp_all
  qed
  have skip: "step_process i now s = s"
    if "\<nexists>e args r. call_live c \<and> call_req c = VoteReq e args \<and> call_status c = Answered (VoteAns r)"
      "\<nexists>t args r. call_live c \<and> call_req c = AppendReq t args \<and> call_status c = Answered (AppendAns r)"
      "\<nexists>t args r. call_live c \<and> call_req c = InstallReq t args \<and> call_status c = Answered (InstallAns r)"
    using that by (auto simp: step_process_def Let_def c_def split: bool.splits Request.splits Status.splits Answer.splits)
  consider (vote) e args r where "call_live c" "call_req c = VoteReq e args" "call_status c = Answered (VoteAns r)"
    | (append) t args r where "call_live c" "call_req c = AppendReq t args" "call_status c = Answered (AppendAns r)"
    | (install) t args r where "call_live c" "call_req c = InstallReq t args" "call_status c = Answered (InstallAns r)"
    | (none) "step_process i now s = s"
    using skip by blast
  then show ?thesis
  proof cases
    case vote
    then show ?thesis by (intro cl_inv_process_vote [OF wf inv i c_def [symmetric]])
  next
    case (append t args r)
    then have "step_process i now s = set_node ?a (sendToPeer_reply now (call_to c) t args r (cl_nodes s ?a)) ?s1"
      by (simp add: step_process_def Let_def flip: c_def)
    then show ?thesis using other [OF append(3)] calm_intros reply_terms(1) by simp
  next
    case (install t args r)
    then have "step_process i now s = set_node ?a (sendSnapshotToPeer_reply (call_to c) t args r (cl_nodes s ?a)) ?s1"
      by (simp add: step_process_def Let_def flip: c_def)
    then show ?thesis using other [OF install(3)] calm_intros reply_terms(2) by simp
  qed (use inv in simp)
qed

lemma cfg_defaults_simps [simp]:
  "cfg_ID (cfg_defaults c) = cfg_ID c" "cfg_Peers (cfg_defaults c) = cfg_Peers c"
  "cfg_defaults (cfg_defaults c) = cfg_defaults c"
  by (simp_all add: cfg_defaults_def Let_def)

lemma cl_inv_restart:
  assumes inv: "cl_inv ms cfgs k s" and a: "a \<in> set ms"
  shows "cl_inv ms cfgs k (step_restart a s)"
proof -
  let ?n = "cl_nodes s a"
  have ok: "node_id ?n = cfg_ID (cfgs a)" "peers ?n = cfg_Peers (cfgs a)" "config ?n = cfg_defaults (cfgs a)"
      "vote_saved ?n" "unat (currentTerm ?n) \<le> k"
    using node_okD [OF inv a] by (simp_all add: node_ok_def)
  obtain n' r where r: "Run_start (NewRaftNode (config ?n) (disk ?n)) = Some (n', r)"
      and n': "currentTerm n' = currentTerm ?n" "votedFor n' = votedFor ?n" "nstate n' = Follower"
        "disk n' = disk ?n" "node_id n' = cfg_ID (config ?n)" "peers n' = cfg_Peers (config ?n)"
        "config n' = cfg_defaults (config ?n)"
    using Run_start_vote [OF ok(4)] by blast
  have "calm ?n n'"
    using n' ok vote_saved_cong [of n' ?n] by (simp add: calm_def vote_kept_def)
  then have 1: "cl_inv ms cfgs k (set_node a n' s)"
    using ok(5) n'(1) by (intro cl_inv_set_node [OF inv a]) simp_all
  let ?f = "drop_caller a"
  let ?s = "(set_node a n' s)\<lparr>cl_begun := (cl_begun s)(a := 0), cl_calls := map ?f (cl_calls s)\<rparr>"
  have f: "vote_key (?f c) = vote_key c" "call_status (?f c) = call_status c" "call_ok ms k (?f c) = call_ok ms k c" for c
    by (auto simp: vote_key_def call_ok_def drop_caller_def split: Request.splits)
  have vc: "vote_call_ok cfgs ?s (?f c) = vote_call_ok cfgs (set_node a n' s) c" for c
    by (auto simp: vote_call_ok_def drop_caller_def split: Request.splits)
  have "inv_calls ms cfgs k ?s"
    using 1 unfolding cl_inv_def inv_calls_def by (simp add: f vc o_def)
  moreover have cnt: "counted cfgs (set_node a n' s) e V \<Longrightarrow> counted cfgs ?s e V" for e V
    using f(1,2) by (auto simp: counted_def)
  then have "inv_elections ms cfgs ?s"
    using 1 by (intro inv_elections_mono [OF _ _ cnt]) (simp_all add: cl_inv_def)
  ultimately have "cl_inv ms cfgs k ?s"
    using 1 elected_cong [of ?s "set_node a n' s" ms cfgs]
    by (simp add: cl_inv_def inv_nodes_def inv_grants_def inv_roles_def)
  then show ?thesis using r by (simp add: step_restart_def Let_def)
qed

lemma replicate_to_heartbeats: "replicate_to (m\<lparr>heartbeatsSent := x\<rparr>) = replicate_to m"
  by (rule ext) (simp add: replicate_to_def buildArgsLocked_def buildSnapshotArgsLocked_def Let_def)

lemma cl_inv_tick:
  assumes wf: "wf_config ms cfgs" and inv: "cl_inv ms cfgs k s" and a: "a \<in> set ms"
    and l: "\<not> steps_down (HeartbeatTick a now) s"
  shows "cl_inv ms cfgs k (step_tick a now s)"
proof -
  obtain n sends where t: "Run_heartbeat_tick now (cl_nodes s a) = (n, sends)" by fastforce
  have "calm (cl_nodes s a) n" using l calm_tick [of "cl_nodes s a" now] t by simp
  moreover have "currentTerm n = currentTerm (cl_nodes s a)"
    using t by (auto simp: Run_heartbeat_tick_def sendHeartbeats_def checkQuorum_def split: if_splits)
  moreover have "sends = [] \<or> sends = map (replicate_to n) (peers n)"
    using t by (auto simp: Run_heartbeat_tick_def sendHeartbeats_def replicate_to_heartbeats split: if_splits)
  ultimately show ?thesis
    using cl_inv_send [OF wf inv a] t by (simp add: step_tick_def)
qed

lemma cl_inv_submit:
  assumes wf: "wf_config ms cfgs" and inv: "cl_inv ms cfgs k s" and a: "a \<in> set ms"
  shows "cl_inv ms cfgs k (step_submit a command s)"
proof -
  obtain res n sends where t: "Submit command (cl_nodes s a) = (res, n, sends)" by (metis prod_cases3)
  have "calm (cl_nodes s a) n" using calm_Submit [of "cl_nodes s a" command] t by simp
  moreover have "currentTerm n = currentTerm (cl_nodes s a)" "sends = [] \<or> sends = map (replicate_to n) (peers n)"
    using t by (auto simp: Submit_def Let_def split: if_splits)
  ultimately show ?thesis
    using cl_inv_send [OF wf inv a] t by (simp add: step_submit_def)
qed

lemma cl_inv_local:
  assumes inv: "cl_inv ms cfgs k s" and a: "a \<in> set ms" and "calm (cl_nodes s a) n"
    and "currentTerm n = currentTerm (cl_nodes s a)"
  shows "cl_inv ms cfgs k (set_node a n s)"
  using node_okD [OF inv a] assms by (intro cl_inv_set_node [OF inv a]) (simp_all add: node_ok_def)

lemma currentTerm_TakeSnapshot: "currentTerm (snd (TakeSnapshot data n)) = currentTerm n"
  using saveSnapshot_frame [of "lastApplied n" "le_Term (log_get (rlog n) (lastApplied n))" data n]
  by (auto simp: TakeSnapshot_def Let_def case_prod_beta)

lemma cl_inv_step:
  assumes wf: "wf_config ms cfgs" and inv: "cl_inv ms cfgs k s" and k: "Suc k < 2 ^ 64" and l: "\<not> steps_down l s"
  shows "cl_inv ms cfgs (Suc k) (cl_step l s)"
proof -
  have up: "cl_inv ms cfgs (Suc k) s'" if "cl_inv ms cfgs k s'" for s'
    using that by (rule cl_inv_mono) simp
  have ms: "cl_members s = ms" using inv by (simp add: cl_inv_def inv_nodes_def)
  have app: "calm n (n\<lparr>lastApplied := x\<rparr>)" for n x by (rule calm_same) simp_all
  have "cl_inv ms cfgs k (step_apply a s)" if "a \<in> set ms" for a
    using inv cl_inv_local [OF inv that app] by (simp add: step_apply_def Let_def)
  moreover have "cl_inv ms cfgs k (set_node a (snd (TakeSnapshot data (cl_nodes s a))) s)" if "a \<in> set ms" for a data
    by (rule cl_inv_local [OF inv that calm_TakeSnapshot currentTerm_TakeSnapshot])
  ultimately show ?thesis
    using l cl_inv_prevote_won [OF wf inv _ k]
    by (cases l) (simp_all add: ms inv up wf cl_inv_begin cl_inv_tick
        cl_inv_submit cl_inv_deliver cl_inv_process cl_inv_restart del: steps_down.simps)
qed

lemma cl_inv_boot: "wf_config ms cfgs \<Longrightarrow> cl_inv ms cfgs 0 (boot ms cfgs)"
proof -
  have "disk_works (NewRaftNode c fs_empty)" for c
    by (simp add: disk_works_def disk_ok_def NewRaftNode_def Let_def)
  then have "node_ok c 0 (NewRaftNode c fs_empty)" for c
    by (simp add: node_ok_def vote_saved_def disk_vote_def) (simp add: NewRaftNode_def Let_def)
  then show ?thesis
    by (simp add: cl_inv_def cl_inv_defs boot_def)
qed

lemma cl_inv_reach:
  "cl_reach (boot ms cfgs) k s \<Longrightarrow> wf_config ms cfgs \<Longrightarrow> k < 2 ^ 64 \<Longrightarrow> cl_inv ms cfgs k s"
  by (induction rule: cl_reach.induct) (simp_all add: cl_inv_boot cl_inv_step)

lemma cl_reach_trans: "cl_reach s j s' \<Longrightarrow> cl_reach s0 k s \<Longrightarrow> cl_reach s0 (k + j) s'"
  by (induction rule: cl_reach.induct) (simp_all add: reach_step)

lemma grants_step: "set (cl_grants s) \<subseteq> set (cl_grants (cl_step l s))"
  by (cases l) (auto simp: step_prevote_won_def step_begin_def step_tick_def step_submit_def step_apply_def
      step_deliver_def step_process_def step_restart_def Let_def case_prod_beta
      split: option.splits bool.splits Request.splits Status.splits Answer.splits)

lemma grants_reach: "cl_reach s j s' \<Longrightarrow> set (cl_grants s) \<subseteq> set (cl_grants s')"
  by (induction rule: cl_reach.induct) (auto dest: grants_step [THEN subsetD])

section \<open>Election safety\<close>

lemma elected_unique:
  assumes wf: "wf_config ms cfgs" and ci: "cl_inv ms cfgs k s" and "a \<in> set ms" "b \<in> set ms"
    and "elected ms cfgs s a t" "elected ms cfgs s b t"
  shows "a = b"
proof -
  obtain Q R where q: "majority_set ms Q" "\<forall>v \<in> Q. (t, v, cfg_ID (cfgs a)) \<in> set (cl_grants s)"
      "majority_set ms R" "\<forall>v \<in> R. (t, v, cfg_ID (cfgs b)) \<in> set (cl_grants s)"
    using assms(5,6) unfolding elected_def by blast
  have "c = c'" if "(t, v, c) \<in> set (cl_grants s)" "(t, v, c') \<in> set (cl_grants s)" for v c c'
    using ci that unfolding cl_inv_def inv_grants_def by blast
  then have "cfg_ID (cfgs a) = cfg_ID (cfgs b)"
    using maj.quorums_agree [OF q(1,3), of "\<lambda>v c. (t, v, c) \<in> set (cl_grants s)"] q(2,4) by blast
  then show ?thesis using wf assms(3,4) by (auto simp: wf_config_def dest: inj_onD)
qed

text \<open>
  C1: election safety. In a cluster with fixed membership whose disks do not fail, with calls
  delayed, reordered or lost and processes crashing and restarting at any time, a term has one
  leader: a node that leads a term at some moment and a node that leads the same term then or later
  are the same node, in runs of fewer than \<open>2 ^ 64\<close> steps in which no leader stepped down for a lost
  quorum.
\<close>

theorem election_safety:
  assumes "wf_config ms cfgs" and "cl_reach (boot ms cfgs) k s" and "cl_reach s j s'" and "k + j < 2 ^ 64"
    and "a \<in> set ms" and "b \<in> set ms"
    and "nstate (cl_nodes s a) = Leader" and "nstate (cl_nodes s' b) = Leader"
    and "currentTerm (cl_nodes s a) = currentTerm (cl_nodes s' b)"
  shows "a = b"
proof -
  let ?t = "currentTerm (cl_nodes s a)"
  have inv: "cl_inv ms cfgs k s" "cl_inv ms cfgs (k + j) s'"
    using assms(1-4) cl_reach_trans by (auto intro!: cl_inv_reach)
  have "elected ms cfgs s a ?t" "elected ms cfgs s' b ?t"
    using inv assms(5-9) by (auto simp: cl_inv_def inv_roles_def)
  then show ?thesis
    using elected_unique [OF assms(1) inv(2) assms(5,6)] elected_mono [OF grants_reach [OF assms(3)]] by blast
qed

text \<open>Three nodes, and the steps that elect the first.\<close>

definition three :: "string list" where
  "three = [''a'', ''b'', ''c'']"

definition three_cfg :: "string \<Rightarrow> Config" where
  "three_cfg a = \<lparr>cfg_ID = ''node-'' @ a, cfg_Peers = filter (\<lambda>p. p \<noteq> a) three,
     cfg_ElectionTimeoutMinMs = 0, cfg_ElectionTimeoutMaxMs = 0, cfg_HeartbeatIntervalMs = 0, cfg_SelfAddr = a\<rparr>"

definition elect_a :: "Label list" where
  "elect_a = [PreVoteWon ''a'', BeginElection ''a'', Deliver 0 0, Process 0 0]"

lemma three_wf: "wf_config three three_cfg"
  by (auto simp: wf_config_def three_def three_cfg_def inj_on_def)

lemma elect_a_leader:
  "nstate (cl_nodes (cl_run elect_a (boot three three_cfg)) ''a'') = Leader"
  "currentTerm (cl_nodes (cl_run elect_a (boot three three_cfg)) ''a'') = 1"
  "steady elect_a (boot three three_cfg)"
  by code_simp+

lemma elect_a_length: "length elect_a = 4"
  by (simp add: elect_a_def)

theorem election_safety_witness:
  "\<exists>s. cl_reach (boot three three_cfg) 4 s \<and> nstate (cl_nodes s ''a'') = Leader
     \<and> \<not> (nstate (cl_nodes s ''c'') = Leader \<and> currentTerm (cl_nodes s ''c'') = currentTerm (cl_nodes s ''a''))"
proof -
  let ?s = "cl_run elect_a (boot three three_cfg)"
  have r: "cl_reach (boot three three_cfg) 4 ?s"
    using steady_reach [OF reach_start elect_a_leader(3)] elect_a_length by simp
  have "''a'' \<in> set three" "''c'' \<in> set three" by (simp_all add: three_def)
  then show ?thesis
    using r elect_a_leader election_safety [OF three_wf r reach_start, of "''a''" "''c''"] by fastforce
qed

section \<open>Losing the quorum\<close>

text \<open>
  The first leader hears from nobody for longer than the maximum election timeout, steps down and
  forgets its vote of the term; the third node then asks it for the same term.
\<close>

definition elect_c :: "Label list" where
  "elect_c = [HeartbeatTick ''a'' 1000000000, PreVoteWon ''c'', BeginElection ''c'', Deliver 4 0, Process 4 0]"

text \<open>
  C29: the condition on quorum loss is needed. The quorum check puts the leader back to follower in
  its own term and clears the vote it gave itself, so the stepped-down leader can vote again in that
  term: there is a run of three nodes in which one node leads term 1 and later another one does.
\<close>

theorem quorum_loss_two_leaders:
  "\<exists>ms cfgs labs labs' a b. wf_config ms cfgs \<and> a \<in> set ms \<and> b \<in> set ms \<and> a \<noteq> b
     \<and> nstate (cl_nodes (cl_run labs (boot ms cfgs)) a) = Leader
     \<and> nstate (cl_nodes (cl_run (labs @ labs') (boot ms cfgs)) b) = Leader
     \<and> currentTerm (cl_nodes (cl_run labs (boot ms cfgs)) a)
       = currentTerm (cl_nodes (cl_run (labs @ labs') (boot ms cfgs)) b)"
proof -
  have "nstate (cl_nodes (cl_run (elect_a @ elect_c) (boot three three_cfg)) ''c'') = Leader"
      "currentTerm (cl_nodes (cl_run (elect_a @ elect_c) (boot three three_cfg)) ''c'') = 1"
    by code_simp+
  moreover have "''a'' \<in> set three" "''c'' \<in> set three" "''a'' \<noteq> ''c''" by (simp_all add: three_def)
  ultimately show ?thesis using three_wf elect_a_leader(1,2) by metis
qed

end
