(* ===== verification/History.thy ===== *)
theory History
  imports ElectionSafety "HOL-Library.Sublist"
begin

text \<open>
  What has happened in a cluster, as far as the logs are concerned: the log each leader had when it
  was elected and the log it has built since, the logs of the voters when they voted, and how far
  nodes have taken over the log of a leader during its term. A history is a record of the proof, no
  step of the model reads it. The result is that a leader has, from its election on, every entry
  that a quorum took over in an earlier term.
\<close>

section \<open>Histories\<close>

record Reign =
  rg_leader :: string
  rg_base :: "LogEntry list"
  rg_log :: "LogEntry list"

record History =
  h_reign :: "u64 \<rightharpoonup> Reign"
  h_votes :: "(u64 \<times> string \<times> LogEntry list) set"
  h_acks :: "(u64 \<times> string \<times> nat) set"

text \<open>Every entry comes from the log of the leader of its term, with everything before it.\<close>

definition traced :: "History \<Rightarrow> LogEntry list \<Rightarrow> bool" where
  "traced H xs \<longleftrightarrow> (\<forall>i < length xs. \<exists>r. h_reign H (le_Term (xs ! i)) = Some r
     \<and> take (Suc i) xs = take (Suc i) (rg_log r))"

definition last_term :: "LogEntry list \<Rightarrow> u64" where
  "last_term xs = (if xs = [] then 0 else le_Term (last xs))"

text \<open>The comparison of \<open>candidateUpToDate\<close>.\<close>

definition up_to_date :: "LogEntry list \<Rightarrow> LogEntry list \<Rightarrow> bool" where
  "up_to_date xs ys \<longleftrightarrow> last_term ys < last_term xs
     \<or> last_term xs = last_term ys \<and> length ys \<le> length xs"

definition good_entries :: "LogEntry list \<Rightarrow> bool" where
  "good_entries xs \<longleftrightarrow> (\<forall>i < length xs. unat (le_Index (xs ! i)) = Suc i \<and> le_Term (xs ! i) \<noteq> 0)"

definition reign_ok :: "nat \<Rightarrow> History \<Rightarrow> u64 \<Rightarrow> Reign \<Rightarrow> bool" where
  "reign_ok k H t r \<longleftrightarrow> prefix (rg_base r) (rg_log r) \<and> (\<forall>e \<in> set (rg_base r). le_Term e < t)
     \<and> (\<forall>e \<in> set (drop (length (rg_base r)) (rg_log r)). le_Term e = t)
     \<and> traced H (rg_log r) \<and> good_entries (rg_log r) \<and> length (rg_log r) \<le> k"

definition acked :: "History \<Rightarrow> u64 \<Rightarrow> string \<Rightarrow> nat \<Rightarrow> bool" where
  "acked H t v i \<longleftrightarrow> (\<exists>j \<ge> i. (t, v, j) \<in> h_acks H)"

text \<open>A log agrees up to \<open>i\<close> with that of the leader of term \<open>t\<close>.\<close>

definition matches :: "History \<Rightarrow> u64 \<Rightarrow> nat \<Rightarrow> LogEntry list \<Rightarrow> bool" where
  "matches H t i xs \<longleftrightarrow> (\<exists>r. h_reign H t = Some r \<and> i \<le> length (rg_log r) \<and> take i xs = take i (rg_log r))"

text \<open>A leader of a term after \<open>t\<close> and before \<open>t'\<close> was elected without the first \<open>i\<close> entries of \<open>t\<close>.\<close>

definition lost :: "History \<Rightarrow> u64 \<Rightarrow> u64 \<Rightarrow> nat \<Rightarrow> bool" where
  "lost H t t' i \<longleftrightarrow> (\<exists>u r. t < u \<and> u < t' \<and> h_reign H u = Some r \<and> \<not> matches H t i (rg_base r))"

definition elected_by :: "(string set \<Rightarrow> bool) \<Rightarrow> History \<Rightarrow> u64 \<Rightarrow> LogEntry list \<Rightarrow> bool" where
  "elected_by quorum H t xs \<longleftrightarrow>
     (\<exists>Q. quorum Q \<and> (\<forall>v \<in> Q. \<exists>ys. (t, v, ys) \<in> h_votes H \<and> up_to_date xs ys))"

definition hist_ok :: "(string set \<Rightarrow> bool) \<Rightarrow> nat \<Rightarrow> History \<Rightarrow> bool" where
  "hist_ok quorum k H \<longleftrightarrow>
     (\<forall>t r. h_reign H t = Some r \<longrightarrow> reign_ok k H t r \<and> elected_by quorum H t (rg_base r))
     \<and> (\<forall>t v i. (t, v, i) \<in> h_acks H \<longrightarrow> (\<exists>r. h_reign H t = Some r \<and> i \<le> length (rg_log r)))
     \<and> (\<forall>t v xs. (t, v, xs) \<in> h_votes H \<longrightarrow> traced H xs
          \<and> (\<forall>t0 i. t0 < t \<longrightarrow> acked H t0 v i \<longrightarrow> matches H t0 i xs \<or> lost H t0 t i))"

text \<open>
  A quorum has taken over the log of the leader of term \<open>t\<close> up to \<open>i\<close>, where there is an entry of
  that term.
\<close>

definition chosen :: "(string set \<Rightarrow> bool) \<Rightarrow> History \<Rightarrow> u64 \<Rightarrow> nat \<Rightarrow> bool" where
  "chosen quorum H t i \<longleftrightarrow> (\<exists>r. h_reign H t = Some r \<and> 0 < i \<and> i \<le> length (rg_log r)
     \<and> le_Term (rg_log r ! (i - 1)) = t) \<and> (\<exists>Q. quorum Q \<and> (\<forall>v \<in> Q. acked H t v i))"

section \<open>Traced logs\<close>

lemma hist_ok_reign: "hist_ok quorum k H \<Longrightarrow> h_reign H t = Some r \<Longrightarrow> reign_ok k H t r"
  by (simp add: hist_ok_def)

lemma reign_terms: "reign_ok k H t r \<Longrightarrow> e \<in> set (rg_log r) \<Longrightarrow> le_Term e \<le> t"
proof -
  assume r: "reign_ok k H t r" and e: "e \<in> set (rg_log r)"
  then have "rg_log r = rg_base r @ drop (length (rg_base r)) (rg_log r)"
    by (auto simp: reign_ok_def prefix_def)
  with e have "e \<in> set (rg_base r) \<union> set (drop (length (rg_base r)) (rg_log r))" by (metis set_append)
  with r show ?thesis by (auto simp: reign_ok_def)
qed

lemma reign_own:
  assumes "reign_ok k H t r" "i < length (rg_log r)" "le_Term (rg_log r ! i) = t"
  shows "length (rg_base r) \<le> i"
proof (rule ccontr)
  assume "\<not> ?thesis"
  then have "rg_log r ! i \<in> set (rg_base r)" using assms(1) by (auto simp: reign_ok_def prefix_def nth_append)
  then show False using assms by (auto simp: reign_ok_def)
qed

lemma take_eq_nth: "take (Suc i) xs = take (Suc i) ys \<Longrightarrow> i < length xs \<Longrightarrow> i < length ys \<and> xs ! i = ys ! i"
  by (metis Suc_leI length_take lessI min.absorb2 min_less_iff_conj nth_take)

lemma traced_nth:
  assumes "traced H xs" "i < length xs"
  obtains r where "h_reign H (le_Term (xs ! i)) = Some r" "take (Suc i) xs = take (Suc i) (rg_log r)"
    "i < length (rg_log r)" "xs ! i = rg_log r ! i"
  using assms take_eq_nth unfolding traced_def by blast

lemma traced_take: "traced H xs \<Longrightarrow> traced H (take i xs)"
  by (simp add: traced_def min_def)

lemma traced_Nil [simp]: "traced H []"
  by (simp add: traced_def)

text \<open>Log matching: logs with the same term at an index are equal up to there.\<close>

lemma traced_matching:
  assumes "traced H xs" "traced H ys" "i < length xs" "i < length ys" "le_Term (xs ! i) = le_Term (ys ! i)"
  shows "take (Suc i) xs = take (Suc i) ys"
  using assms unfolding traced_def by fastforce

lemma traced_good:
  assumes "hist_ok quorum k H" "traced H xs"
  shows "good_entries xs \<and> length xs \<le> k"
proof -
  have nth: "unat (le_Index (xs ! i)) = Suc i \<and> le_Term (xs ! i) \<noteq> 0 \<and> i < k" if i: "i < length xs" for i
    using traced_nth [OF assms(2) i] hist_ok_reign [OF assms(1)] unfolding reign_ok_def good_entries_def
    by (metis order.strict_trans2)
  then have "length xs \<le> k" by (meson not_le order_less_irrefl)
  with nth show ?thesis by (simp add: good_entries_def)
qed

lemma last_term_nth: "xs \<noteq> [] \<Longrightarrow> last_term xs = le_Term (xs ! (length xs - 1))"
  by (simp add: last_term_def last_conv_nth)

lemma traced_sorted:
  assumes ok: "hist_ok quorum k H" and tr: "traced H xs" and i: "i < length xs"
  shows "le_Term (xs ! i) \<le> last_term xs"
proof -
  let ?n = "length xs - 1"
  have n: "?n < length xs" using i by auto
  obtain r where r: "h_reign H (le_Term (xs ! ?n)) = Some r" "take (Suc ?n) xs = take (Suc ?n) (rg_log r)"
    using traced_nth [OF tr n] by blast
  have "xs = take (Suc ?n) (rg_log r)" using r(2) n by simp
  then have "xs ! i \<in> set (rg_log r)" using i by (metis in_set_takeD nth_mem)
  then show ?thesis
    using reign_terms [OF hist_ok_reign [OF ok r(1)]] last_term_nth [of xs] i by (cases xs) auto
qed

section \<open>Leader completeness\<close>

lemma matches_le: "matches H t i xs \<Longrightarrow> j \<le> i \<Longrightarrow> matches H t j xs"
  by (auto simp: matches_def) (metis min.absorb1 take_take)

lemma matches_length: "matches H t i xs \<Longrightarrow> i \<le> length xs"
  by (auto simp: matches_def) (metis length_take min.absorb2 nat_le_linear take_all)

lemma matches_prefix: "matches H t i xs \<Longrightarrow> prefix xs ys \<Longrightarrow> matches H t i ys"
  using matches_length [of H t i xs] by (auto simp: matches_def prefix_def)

lemma matches_take: "matches H t i xs \<Longrightarrow> i \<le> j \<Longrightarrow> matches H t i (take j xs)"
  by (auto simp: matches_def min_def)

lemma matches_cong: "take i xs = take i ys \<Longrightarrow> matches H t i xs = matches H t i ys"
  by (simp add: matches_def)

text \<open>A log whose last entry is of a term after \<open>t\<close> extends what the leader of that term began with.\<close>

lemma traced_base:
  assumes ok: "hist_ok quorum k H" and tr: "traced H xs" and ne: "xs \<noteq> []"
    and r: "h_reign H (last_term xs) = Some r"
  shows "prefix (rg_base r) xs" and "prefix xs (rg_log r)"
proof -
  let ?n = "length xs - 1"
  have n: "?n < length xs" "last_term xs = le_Term (xs ! ?n)" using ne by (simp_all add: last_term_nth)
  then obtain r' where r': "h_reign H (last_term xs) = Some r'" "take (Suc ?n) xs = take (Suc ?n) (rg_log r')"
      "?n < length (rg_log r')" "xs ! ?n = rg_log r' ! ?n"
    using traced_nth [OF tr n(1)] by metis
  with r have eq: "xs = take (Suc ?n) (rg_log r)" and nth: "?n < length (rg_log r)" "le_Term (rg_log r ! ?n) = last_term xs"
    using n by auto
  then show "prefix xs (rg_log r)" by (metis take_is_prefix)
  have "length (rg_base r) \<le> length xs"
    using reign_own [OF hist_ok_reign [OF ok r] nth] by simp
  then show "prefix (rg_base r) xs"
    using hist_ok_reign [OF ok r] \<open>prefix xs (rg_log r)\<close> unfolding reign_ok_def by (meson prefix_length_prefix)
qed

lemma last_term_reign:
  assumes "traced H xs" "xs \<noteq> []"
  obtains r where "h_reign H (last_term xs) = Some r"
proof -
  have "length xs - 1 < length xs" using assms(2) by simp
  then obtain r where "h_reign H (le_Term (xs ! (length xs - 1))) = Some r"
    using assms(1) unfolding traced_def by blast
  then show ?thesis using that last_term_nth [OF assms(2)] by simp
qed

text \<open>A log that is at least as up to date as one with the chosen entries has them too.\<close>

lemma up_to_date_matches:
  assumes ok: "hist_ok quorum k H" and tr: "traced H xs" "traced H ys" and utd: "up_to_date xs ys"
    and m: "matches H t i ys" "0 < i" and own: "le_Term (ys ! (i - 1)) = t"
    and between: "\<And>u r. t < u \<Longrightarrow> u \<le> last_term xs \<Longrightarrow> h_reign H u = Some r \<Longrightarrow> matches H t i (rg_base r)"
  shows "matches H t i xs"
proof -
  have i: "i \<le> length ys" using m by (rule_tac matches_length)
  then have "t \<le> last_term ys" using traced_sorted [OF ok tr(2), of "i - 1"] own m(2) by simp
  moreover have nz: "t \<noteq> 0"
    using traced_good [OF ok tr(2)] i m(2) own by (auto simp: good_entries_def)
  ultimately have ne: "xs \<noteq> []" and le: "t \<le> last_term xs"
    using utd by (auto simp: up_to_date_def last_term_def [of xs] split: if_splits)
  obtain r where r: "h_reign H (last_term xs) = Some r" using last_term_reign [OF tr(1) ne] by blast
  note base = traced_base [OF ok tr(1) ne r]
  show ?thesis
  proof (cases "last_term xs = t")
    case True
    then have "length ys \<le> length xs"
      using utd \<open>t \<le> last_term ys\<close> by (auto simp: up_to_date_def)
    then have "take i xs = take i (rg_log r)" "i \<le> length (rg_log r)"
      using base(2) i prefix_length_le [OF base(2)] by (auto simp: prefix_def)
    then show ?thesis using r True by (simp add: matches_def)
  next
    case False
    then show ?thesis using between [OF _ order_refl r] le matches_prefix [OF _ base(1)] by simp
  qed
qed

locale node_quorums = quorum_system quorum for quorum :: "'m \<Rightarrow> string set \<Rightarrow> bool"
begin

lemma chosen_in_later_reigns:
  assumes ok: "hist_ok (quorum m) k H" and ch: "chosen (quorum m) H t i"
  shows "t < t' \<Longrightarrow> h_reign H t' = Some r' \<Longrightarrow> matches H t i (rg_base r')"
proof (induction t' arbitrary: r' rule: less_induct)
  case (less t')
  have ro: "reign_ok k H t' r'" "elected_by (quorum m) H t' (rg_base r')"
    using ok less.prems(2) by (simp_all add: hist_ok_def)
  then have tr: "traced H (rg_base r')"
    using traced_take [of H "rg_log r'" "length (rg_base r')"] by (auto simp: reign_ok_def prefix_def)
  obtain Q where Q: "quorum m Q" "\<forall>v \<in> Q. \<exists>ys. (t', v, ys) \<in> h_votes H \<and> up_to_date (rg_base r') ys"
    using ro(2) unfolding elected_by_def by blast
  obtain r R where r: "h_reign H t = Some r" "0 < i" "i \<le> length (rg_log r)" "le_Term (rg_log r ! (i - 1)) = t"
      and R: "quorum m R" "\<forall>v \<in> R. acked H t v i"
    using ch unfolding chosen_def by blast
  obtain v ys where v: "acked H t v i" "(t', v, ys) \<in> h_votes H" "up_to_date (rg_base r') ys"
    using quorums_meet [OF Q(1) R(1)] Q(2) R(2) by blast
  have "\<not> lost H t t' i" using less.IH unfolding lost_def by blast
  then have mt: "matches H t i ys" and ty: "traced H ys"
    using ok v less.prems(1) unfolding hist_ok_def by blast+
  have "take i ys = take i (rg_log r)" using mt r(1) by (simp add: matches_def)
  then have own: "le_Term (ys ! (i - 1)) = t" using r(2-4) by (metis diff_less nth_take zero_less_one)
  have "last_term (rg_base r') < t' \<or> rg_base r' = []"
    using ro(1) by (auto simp: reign_ok_def last_term_def)
  moreover have "last_term [] = 0" by (simp add: last_term_def)
  ultimately have lt: "u \<le> last_term (rg_base r') \<Longrightarrow> u < t'" if "t < u" for u
    using that by auto
  show ?case
    using lt less.IH by (intro up_to_date_matches [OF ok tr ty v(3) mt r(2) own]) blast
qed

text \<open>Any two chosen positions lie in one log.\<close>

lemma chosen_agree:
  assumes ok: "hist_ok (quorum m) k H" and c: "chosen (quorum m) H t i" "chosen (quorum m) H u j"
    and x: "matches H t n xs" "n \<le> i" and y: "matches H u n ys" "n \<le> j"
  shows "take n xs = take n ys"
proof -
  have one: "take n xs = take n ys"
    if lt: "t < u" and c: "chosen (quorum m) H t i" and x: "matches H t n xs" "n \<le> i" and y: "matches H u n ys"
    for t u i xs ys
  proof -
    obtain r r' where r: "h_reign H t = Some r" "take n xs = take n (rg_log r)"
        "h_reign H u = Some r'" "take n ys = take n (rg_log r')"
      using x y by (auto simp: matches_def)
    have "matches H t i (rg_log r')"
      using chosen_in_later_reigns [OF ok c lt r(3)] hist_ok_reign [OF ok r(3)]
      by (auto simp: reign_ok_def intro: matches_prefix)
    from matches_le [OF this x(2)] r show ?thesis by (simp add: matches_def)
  qed
  consider "t < u" | "u < t" | "t = u" by (metis linorder_cases)
  then show ?thesis
  proof cases
    case 1
    then show ?thesis using one c x y by blast
  next
    case 2
    then show ?thesis using one [OF 2 c(2) y x(1)] by simp
  next
    case 3
    then show ?thesis using x y by (auto simp: matches_def)
  qed
qed

end

interpretation nodes: node_quorums majority_set
  by unfold_locales

section \<open>How histories grow\<close>

definition extends :: "History \<Rightarrow> History \<Rightarrow> bool" where
  "extends H H' \<longleftrightarrow> h_votes H \<subseteq> h_votes H' \<and> h_acks H \<subseteq> h_acks H'
     \<and> (\<forall>t r. h_reign H t = Some r \<longrightarrow> (\<exists>r'. h_reign H' t = Some r' \<and> rg_leader r' = rg_leader r
          \<and> rg_base r' = rg_base r \<and> prefix (rg_log r) (rg_log r')))"

lemma extends_refl [simp]: "extends H H"
  by (simp add: extends_def)

lemma extends_reign:
  assumes "extends H H'" "h_reign H t = Some r"
  obtains r' where "h_reign H' t = Some r'" "rg_leader r' = rg_leader r" "rg_base r' = rg_base r"
    "prefix (rg_log r) (rg_log r')"
  using assms unfolding extends_def by blast

lemma extends_trans:
  assumes "extends H H'" "extends H' H''"
  shows "extends H H''"
proof -
  have "\<exists>r''. h_reign H'' t = Some r'' \<and> rg_leader r'' = rg_leader r \<and> rg_base r'' = rg_base r \<and> prefix (rg_log r) (rg_log r'')"
    if r: "h_reign H t = Some r" for t r
  proof -
    obtain r' where r': "h_reign H' t = Some r'" "rg_leader r' = rg_leader r" "rg_base r' = rg_base r" "prefix (rg_log r) (rg_log r')"
      using extends_reign [OF assms(1) r] by blast
    obtain r'' where "h_reign H'' t = Some r''" "rg_leader r'' = rg_leader r'" "rg_base r'' = rg_base r'" "prefix (rg_log r') (rg_log r'')"
      using extends_reign [OF assms(2) r'(1)] by blast
    then show ?thesis using r' prefix_order.trans by auto
  qed
  then show ?thesis using assms unfolding extends_def by auto
qed

lemma prefix_take: "prefix xs ys \<Longrightarrow> i \<le> length xs \<Longrightarrow> take i ys = take i xs"
  by (auto simp: prefix_def)

lemma traced_extends: "extends H H' \<Longrightarrow> traced H xs \<Longrightarrow> traced H' xs"
proof -
  assume e: "extends H H'" and tr: "traced H xs"
  have "\<exists>r. h_reign H' (le_Term (xs ! i)) = Some r \<and> take (Suc i) xs = take (Suc i) (rg_log r)" if i: "i < length xs" for i
  proof -
    obtain r where r: "h_reign H (le_Term (xs ! i)) = Some r" "take (Suc i) xs = take (Suc i) (rg_log r)" "i < length (rg_log r)"
      using traced_nth [OF tr i] by blast
    obtain r' where r': "h_reign H' (le_Term (xs ! i)) = Some r'" "prefix (rg_log r) (rg_log r')"
      using extends_reign [OF e r(1)] by blast
    have "take (Suc i) (rg_log r') = take (Suc i) (rg_log r)" using r(3) by (intro prefix_take [OF r'(2)]) simp
    then show ?thesis using r'(1) r(2) by simp
  qed
  then show ?thesis by (simp add: traced_def)
qed

lemma acked_extends: "extends H H' \<Longrightarrow> acked H t v i \<Longrightarrow> acked H' t v i"
  unfolding extends_def acked_def by blast

lemma matches_extends_iff:
  assumes "extends H H'" "h_reign H t = Some r" "i \<le> length (rg_log r)"
  shows "matches H' t i xs = matches H t i xs"
proof -
  obtain r' where r': "h_reign H' t = Some r'" "prefix (rg_log r) (rg_log r')"
    using extends_reign [OF assms(1,2)] by blast
  then show ?thesis
    using assms(2,3) prefix_take [OF r'(2) assms(3)] prefix_length_le [OF r'(2)] by (auto simp: matches_def)
qed

lemma matches_extends: "extends H H' \<Longrightarrow> matches H t i xs \<Longrightarrow> matches H' t i xs"
  using matches_extends_iff [of H H' t _ i xs] by (auto simp: matches_def [of H])

lemma lost_extends:
  assumes "extends H H'" "h_reign H t = Some r" "i \<le> length (rg_log r)" "lost H t t' i"
  shows "lost H' t t' i"
proof -
  obtain u q where u: "t < u" "u < t'" "h_reign H u = Some q" "\<not> matches H t i (rg_base q)"
    using assms(4) unfolding lost_def by blast
  obtain q' where "h_reign H' u = Some q'" "rg_base q' = rg_base q" using extends_reign [OF assms(1) u(3)] by blast
  then show ?thesis
    using u matches_extends_iff [OF assms(1-3), of "rg_base q"] unfolding lost_def by metis
qed

lemma elected_by_extends: "extends H H' \<Longrightarrow> elected_by quorum H t xs \<Longrightarrow> elected_by quorum H' t xs"
  unfolding elected_by_def extends_def by blast

lemma chosen_extends: "extends H H' \<Longrightarrow> chosen quorum H t i \<Longrightarrow> chosen quorum H' t i"
proof -
  assume e: "extends H H'" and c: "chosen quorum H t i"
  then obtain r where r: "h_reign H t = Some r" "0 < i" "i \<le> length (rg_log r)" "le_Term (rg_log r ! (i - 1)) = t"
    unfolding chosen_def by blast
  obtain r' where r': "h_reign H' t = Some r'" "prefix (rg_log r) (rg_log r')" using extends_reign [OF e r(1)] by blast
  then have "rg_log r' ! (i - 1) = rg_log r ! (i - 1)" "i \<le> length (rg_log r')"
    using r(2,3) by (auto simp: prefix_def nth_append)
  then show ?thesis
    using r' r c acked_extends [OF e] unfolding chosen_def by metis
qed

lemma reign_ok_extends: "extends H H' \<Longrightarrow> k \<le> k' \<Longrightarrow> reign_ok k H t r \<Longrightarrow> reign_ok k' H' t r"
  by (auto simp: reign_ok_def traced_extends)

lemma hist_ok_ack: "hist_ok quorum k H \<Longrightarrow> acked H t v i \<Longrightarrow> \<exists>r. h_reign H t = Some r \<and> i \<le> length (rg_log r)"
proof -
  assume ok: "hist_ok quorum k H" and "acked H t v i"
  then obtain j where "i \<le> j" "(t, v, j) \<in> h_acks H" unfolding acked_def by blast
  then show ?thesis using ok le_trans [of i j] unfolding hist_ok_def by blast
qed

text \<open>What is to be shown of a history that grows: the new reigns, acknowledgements and votes are sound.\<close>

lemma hist_ok_extends:
  assumes ok: "hist_ok quorum k H" and e: "extends H H'" and k: "k \<le> k'"
    and reigns: "\<And>t r. h_reign H' t = Some r \<Longrightarrow> h_reign H t \<noteq> Some r \<Longrightarrow>
        reign_ok k' H' t r \<and> elected_by quorum H' t (rg_base r)"
    and acks: "\<And>t v i. (t, v, i) \<in> h_acks H' \<Longrightarrow> (t, v, i) \<notin> h_acks H \<Longrightarrow>
        (\<exists>r. h_reign H' t = Some r \<and> i \<le> length (rg_log r)) \<and> (\<forall>u xs. (u, v, xs) \<in> h_votes H' \<longrightarrow> u \<le> t)"
    and votes: "\<And>t v xs. (t, v, xs) \<in> h_votes H' \<Longrightarrow> (t, v, xs) \<notin> h_votes H \<Longrightarrow>
        traced H xs \<and> (\<forall>t0 i. t0 < t \<longrightarrow> acked H t0 v i \<longrightarrow> matches H t0 i xs \<or> lost H t0 t i)"
  shows "hist_ok quorum k' H'"
proof -
  have "reign_ok k' H' t r \<and> elected_by quorum H' t (rg_base r)" if "h_reign H' t = Some r" for t r
    using that reigns [OF that] ok reign_ok_extends [OF e k] elected_by_extends [OF e] unfolding hist_ok_def by blast
  moreover have "\<exists>r. h_reign H' t = Some r \<and> i \<le> length (rg_log r)" if a: "(t, v, i) \<in> h_acks H'" for t v i
  proof (cases "(t, v, i) \<in> h_acks H")
    case True
    then obtain r where r: "h_reign H t = Some r" "i \<le> length (rg_log r)" using ok unfolding hist_ok_def by blast
    show ?thesis using extends_reign [OF e r(1)] r(2) prefix_length_le by (metis le_trans)
  qed (use acks [OF a] in blast)
  moreover have "traced H' xs \<and> (\<forall>t0 i. t0 < t \<longrightarrow> acked H' t0 v i \<longrightarrow> matches H' t0 i xs \<or> lost H' t0 t i)"
    if v: "(t, v, xs) \<in> h_votes H'" for t v xs
  proof -
    have old: "traced H xs \<and> (\<forall>t0 i. t0 < t \<longrightarrow> acked H t0 v i \<longrightarrow> matches H t0 i xs \<or> lost H t0 t i)"
      using votes [OF v] ok unfolding hist_ok_def by blast
    have "matches H' t0 i xs \<or> lost H' t0 t i" if t0: "t0 < t" "acked H' t0 v i" for t0 i
    proof -
      obtain j where j: "i \<le> j" "(t0, v, j) \<in> h_acks H'" using t0(2) unfolding acked_def by blast
      have "(t0, v, j) \<in> h_acks H" using acks [OF j(2)] v t0(1) by (meson leD)
      then have a: "acked H t0 v i" using j(1) unfolding acked_def by blast
      obtain r where "h_reign H t0 = Some r" "i \<le> length (rg_log r)" using hist_ok_ack [OF ok a] by blast
      then show ?thesis using old t0(1) a matches_extends [OF e] lost_extends [OF e] by blast
    qed
    then show ?thesis using old traced_extends [OF e] by blast
  qed
  ultimately show ?thesis unfolding hist_ok_def by blast
qed

end
