(* ===== verification/LogInvariant.thy ===== *)
theory LogInvariant
  imports History
begin

text \<open>
  The logs of a cluster (theory \<open>Cluster\<close>) in runs without snapshots. An invariant ties the nodes and
  the calls under way to a history (theory \<open>History\<close>), and every step extends the history.
\<close>

section \<open>Logs without a snapshot\<close>

definition plain_log :: "LogEntry list \<Rightarrow> Log" where
  "plain_log xs = \<lparr>log_sentinel = mark_entry 0 0, log_tail = xs\<rparr>"

lemma plain_log_simps [simp]:
  "log_sentinel (plain_log xs) = mark_entry 0 0" "log_tail (plain_log xs) = xs"
  "log_base (plain_log xs) = 0" "log_top (plain_log xs) = length xs" "snapshotIndex (plain_log xs) = 0"
  "log_append (plain_log xs) ys = plain_log (xs @ ys)" "plain_log xs = plain_log zs \<longleftrightarrow> xs = zs"
  by (simp_all add: plain_log_def log_base_def log_top_def snapshotIndex_def log_append_def
      del: unat_snapshotIndex unat_sentinel_Index)

lemma newLog_plain: "newLog = plain_log []"
  by (simp add: newLog_def plain_log_def)

lemma wf_plain_log: "good_entries xs \<Longrightarrow> length xs + 1 < 2 ^ 64 \<Longrightarrow> wf_log (plain_log xs)"
  by (simp add: wf_log_alt good_entries_def)

lemma log_map_plain: "log_map (plain_log xs) j =
    (if j = 0 then Some (mark_entry 0 0) else if j \<le> length xs then Some (xs ! (j - 1)) else None)"
  by (cases j) (simp_all add: log_map_def)

lemma plain_log_eqI:
  assumes "log_sentinel l = mark_entry 0 0" "log_map l = log_map (plain_log xs)"
  shows "l = plain_log xs"
proof -
  have b: "l = plain_log (log_tail l)" using assms(1) by (simp add: plain_log_def)
  then have m: "log_map (plain_log (log_tail l)) j = log_map (plain_log xs) j" for j using assms(2) by simp
  have len: "length (log_tail l) = length xs"
    using m [of "length xs + 1"] m [of "length (log_tail l) + 1"] by (auto simp: log_map_plain split: if_splits)
  have "log_tail l ! i = xs ! i" if "i < length xs" for i
    using m [of "Suc i"] that len by (simp add: log_map_plain)
  then have "log_tail l = xs" using len by (intro nth_equalityI) simp_all
  then show ?thesis using b by simp
qed

lemma unat_lastIndex_plain: "wf_log (plain_log xs) \<Longrightarrow> unat (lastIndex (plain_log xs)) = length xs"
  by (simp add: unat_lastIndex)

lemma lastTerm_plain: "lastTerm (plain_log xs) = last_term xs"
  by (cases xs rule: rev_cases) (simp_all add: lastTerm_def last_term_def log_entries_def plain_log_def)

text \<open>
  Merging a piece of a leader's log into a log that agrees with it just before: nothing changes, or
  the result is the leader's log up to the end of the piece.
\<close>

lemma take_Suc_le: "take (Suc i) xs = take (Suc i) ys \<Longrightarrow> j \<le> Suc i \<Longrightarrow> take j xs = take j ys"
  by (metis min.absorb1 take_take)

lemma agree_at:
  assumes "traced H xs" "traced H ys" "n \<le> length xs" "n \<le> length ys"
    and "0 < n \<Longrightarrow> le_Term (xs ! (n - 1)) = le_Term (ys ! (n - 1))"
  shows "take n xs = take n ys"
  using traced_matching [OF assms(1,2), of "n - 1"] assms(3-5) by (cases n) auto

lemma merge_traced:
  assumes wf: "wf_log (plain_log xs)" and tr: "traced H xs" "traced H ys" and good: "good_entries ys" "length ys + 1 < 2 ^ 64"
    and es: "p + length es \<le> length ys" "es = take (length es) (drop p ys)"
    and prev: "p \<le> length xs" "0 < p \<Longrightarrow> le_Term (xs ! (p - 1)) = le_Term (ys ! (p - 1))"
  shows "merge_entries (plain_log xs) es = plain_log xs \<and> take (p + length es) xs = take (p + length es) ys
     \<and> p + length es \<le> length xs
   \<or> merge_entries (plain_log xs) es = plain_log (take (p + length es) ys)
     \<and> (\<forall>i. i \<le> length ys \<longrightarrow> take i xs = take i ys \<longrightarrow> i \<le> p + length es)"
proof -
  have nth: "es ! m = ys ! (p + m)" if "m < length es" for m
    using es that by (metis add_leD1 nth_drop nth_take)
  have num: "numbered (p + 1) es"
    using good es(1) nth by (auto simp: numbered_def good_entries_def)
  have ag: "agrees (plain_log xs) p es m \<longleftrightarrow> p + m < length xs \<and> le_Term (xs ! (p + m)) = le_Term (ys ! (p + m))"
    if "m < length es" for m
    using nth [OF that] by (auto simp: agrees_def log_map_plain)
  have upto: "take (p + m) xs = take (p + m) ys \<and> p + m \<le> length xs"
    if m: "m \<le> length es" "\<forall>j < m. agrees (plain_log xs) p es j" for m
  proof -
    have le: "p + m \<le> length xs" using m prev(1) ag [of "m - 1"] by (cases m) auto
    have "take (p + m) xs = take (p + m) ys"
      using le es(1) m prev(2) ag [of "m - 1"] by (intro agree_at [OF tr]) (cases m; auto)+
    with le show ?thesis by simp
  qed
  have "merge_result (plain_log xs) p es (merge_entries (plain_log xs) es)"
    using merge_entries_result [OF wf num] prev(1) by simp
  then consider (same) "merge_entries (plain_log xs) es = plain_log xs" "\<forall>m < length es. agrees (plain_log xs) p es m"
    | (cut) m where "merged_at (plain_log xs) p es m (merge_entries (plain_log xs) es)"
        "log_sentinel (merge_entries (plain_log xs) es) = mark_entry 0 0"
    by (auto simp: merge_result_def)
  then show ?thesis
  proof cases
    case same
    then show ?thesis using upto [of "length es"] by simp
  next
    case (cut m)
    let ?l = "merge_entries (plain_log xs) es" and ?ys = "take (p + length es) ys"
    have m: "m < length es" "\<not> agrees (plain_log xs) p es m" "\<forall>j < m. agrees (plain_log xs) p es j"
        and map: "log_map ?l j = (if j < p + 1 + m then log_map (plain_log xs) j
          else if j \<le> p + length es then Some (es ! (j - p - 1)) else None)" for j
      using cut(1) by (auto simp: merged_at_def)
    have up: "take (p + m) xs = take (p + m) ys" "p + m \<le> length xs" using upto [of m] m by simp_all
    have "log_map ?l j = log_map (plain_log ?ys) j" for j
    proof (cases "j < p + 1 + m")
      case True
      have "xs ! (j - 1) = ys ! (j - 1)" if "0 < j"
        using True that up(1) nth_take [of "j - 1" "p + m" xs] nth_take [of "j - 1" "p + m" ys] by simp
      then show ?thesis using True map m(1) es(1) up(2) by (auto simp: log_map_plain)
    next
      case False
      then show ?thesis using map nth [of "j - p - 1"] es(1) by (auto simp: log_map_plain)
    qed
    then have "?l = plain_log ?ys" using cut(2) by (intro plain_log_eqI) auto
    moreover have "i \<le> p + length es" if i: "i \<le> length ys" "take i xs = take i ys" for i
    proof (rule ccontr)
      assume "\<not> ?thesis"
      then have "p + m < i" using m(1) by simp
      then have "xs ! (p + m) = ys ! (p + m)" "p + m < length xs"
        using i nth_take [of "p + m" i xs] nth_take [of "p + m" i ys] by (simp, metis length_take min_less_iff_conj order.strict_trans2)
      then show False using m(1,2) ag by simp
    qed
    ultimately show ?thesis by blast
  qed
qed

section \<open>Invariant\<close>

text \<open>The log on disk is the one in memory, and there is no snapshot.\<close>

definition log_saved :: "RaftNode \<Rightarrow> bool" where
  "log_saved n \<longleftrightarrow> disk_works n \<and> read_file (disk n) snapshot_path = None
     \<and> (case read_file (disk n) state_path of
          None \<Rightarrow> rlog n = newLog
        | Some (Whole (StateBlob st)) \<Rightarrow> ps_Entries st = log_entries (rlog n)
        | Some _ \<Rightarrow> False)"

text \<open>The first \<open>c\<close> entries are known, in term \<open>T\<close>, to be chosen.\<close>

definition commit_cert :: "string list \<Rightarrow> History \<Rightarrow> u64 \<Rightarrow> LogEntry list \<Rightarrow> nat \<Rightarrow> bool" where
  "commit_cert ms H T xs c \<longleftrightarrow> c = 0
     \<or> (\<exists>t i. chosen (majority_set ms) H t i \<and> c \<le> i \<and> t \<le> T \<and> matches H t c xs)"

definition lost_to :: "History \<Rightarrow> u64 \<Rightarrow> u64 \<Rightarrow> nat \<Rightarrow> bool" where
  "lost_to H t T i \<longleftrightarrow> (\<exists>u r. t < u \<and> u \<le> T \<and> h_reign H u = Some r \<and> \<not> matches H t i (rg_base r))"

definition keeps_acks :: "History \<Rightarrow> string \<Rightarrow> u64 \<Rightarrow> LogEntry list \<Rightarrow> bool" where
  "keeps_acks H a T xs \<longleftrightarrow> (\<forall>t i. acked H t a i \<longrightarrow> t \<le> T \<and> (matches H t i xs \<or> lost_to H t T i))"

text \<open>A leader's log is that of its reign, and its match indices are acknowledged.\<close>

definition leads :: "History \<Rightarrow> string \<Rightarrow> RaftNode \<Rightarrow> LogEntry list \<Rightarrow> bool" where
  "leads H a n xs \<longleftrightarrow> (\<exists>r. h_reign H (currentTerm n) = Some r \<and> rg_leader r = a \<and> rg_log r = xs)
     \<and> acked H (currentTerm n) a (length xs)
     \<and> (\<forall>p \<in> set (peers n). go_read (matchIndex n) p \<noteq> 0 \<longrightarrow>
          acked H (currentTerm n) p (unat (go_read (matchIndex n) p)))"

definition log_inv_of :: "string list \<Rightarrow> History \<Rightarrow> string \<Rightarrow> RaftNode \<Rightarrow> LogEntry list \<Rightarrow> bool" where
  "log_inv_of ms H a n xs \<longleftrightarrow> traced H xs \<and> (\<forall>e \<in> set xs. le_Term e \<le> currentTerm n)
     \<and> keeps_acks H a (currentTerm n) xs
     \<and> commit_cert ms H (currentTerm n) xs (unat (commitIndex n))
     \<and> (nstate n = Leader \<longrightarrow> leads H a n xs)"

definition node_inv :: "string list \<Rightarrow> History \<Rightarrow> string \<Rightarrow> RaftNode \<Rightarrow> bool" where
  "node_inv ms H a n \<longleftrightarrow> (\<exists>xs. rlog n = plain_log xs \<and> log_inv_of ms H a n xs)
     \<and> log_saved n \<and> lastApplied n \<le> commitIndex n \<and> (nstate n \<noteq> Follower \<longrightarrow> currentTerm n \<noteq> 0)"

text \<open>A request carries a piece of the leader's log, up to at least what it says is committed.\<close>

definition piece :: "string list \<Rightarrow> History \<Rightarrow> u64 \<Rightarrow> LogEntry list \<Rightarrow> AppendEntriesArgs \<Rightarrow> bool" where
  "piece ms H t xs args \<longleftrightarrow> (let p = unat (ae_PrevLogIndex args); es = ae_Entries args in
     p + length es \<le> length xs \<and> es = take (length es) (drop p xs)
     \<and> (0 < p \<longrightarrow> ae_PrevLogTerm args = le_Term (xs ! (p - 1)))
     \<and> unat (ae_LeaderCommit args) \<le> p + length es
     \<and> commit_cert ms H t xs (unat (ae_LeaderCommit args)))"

definition append_ok :: "string list \<Rightarrow> History \<Rightarrow> string \<Rightarrow> string \<Rightarrow> u64 \<Rightarrow> AppendEntriesArgs \<Rightarrow> bool" where
  "append_ok ms H a b t args \<longleftrightarrow> a \<noteq> b \<and> ae_Term args = t
     \<and> (\<exists>r. h_reign H t = Some r \<and> rg_leader r = a
          \<and> (ae_PrevLogIndex args \<noteq> 0 \<and> ae_PrevLogTerm args = 0 \<or> piece ms H t (rg_log r) args))"

definition vote_req_ok :: "RaftNode \<Rightarrow> RequestVoteArgs \<Rightarrow> bool" where
  "vote_req_ok n args \<longleftrightarrow> rv_Term args \<le> currentTerm n
     \<and> (nstate n = Candidate \<longrightarrow> currentTerm n = rv_Term args \<longrightarrow>
          rv_LastLogTerm args = lastTerm (rlog n) \<and> rv_LastLogIndex args = lastIndex (rlog n))"

definition call_inv :: "string list \<Rightarrow> History \<Rightarrow> (string \<Rightarrow> RaftNode) \<Rightarrow> Call \<Rightarrow> bool" where
  "call_inv ms H N c \<longleftrightarrow> (case call_req c of
     VoteReq e args \<Rightarrow> vote_req_ok (N (call_from c)) args
   | AppendReq t args \<Rightarrow> append_ok ms H (call_from c) (call_to c) t args
       \<and> status_ok (\<lambda>ans. \<forall>r. ans = AppendAns r \<longrightarrow> aer_Success r \<longrightarrow>
            acked H t (call_to c) (unat (ae_PrevLogIndex args) + length (ae_Entries args))
            \<and> unat (ae_PrevLogIndex args) + length (ae_Entries args) < 2 ^ 64) (call_status c)
   | InstallReq t args \<Rightarrow> is_LastIncludedIndex args = 0)"

text \<open>The vote of \<open>v\<close> for a candidate that may still win was given to a log that is up to date.\<close>

definition grant_inv :: "string list \<Rightarrow> (string \<Rightarrow> Config) \<Rightarrow> History \<Rightarrow> (string \<Rightarrow> RaftNode) \<Rightarrow> u64 \<times> string \<times> string \<Rightarrow> bool" where
  "grant_inv ms cfgs H N = (\<lambda>(t, v, c). \<exists>b \<in> set ms. c = cfg_ID (cfgs b) \<and> t \<le> currentTerm (N b)
     \<and> (nstate (N b) = Candidate \<longrightarrow> currentTerm (N b) = t \<longrightarrow> h_reign H t = None \<longrightarrow>
          (\<exists>xs ys. (t, v, ys) \<in> h_votes H \<and> rlog (N b) = plain_log xs \<and> up_to_date xs ys)))"

definition reign_inv :: "string list \<Rightarrow> (string \<Rightarrow> Config) \<Rightarrow> Cluster \<Rightarrow> u64 \<Rightarrow> Reign \<Rightarrow> bool" where
  "reign_inv ms cfgs s t r \<longleftrightarrow> rg_leader r \<in> set ms \<and> elected ms cfgs s (rg_leader r) t
     \<and> t \<le> currentTerm (cl_nodes s (rg_leader r))
     \<and> (currentTerm (cl_nodes s (rg_leader r)) = t \<longrightarrow> nstate (cl_nodes s (rg_leader r)) \<noteq> Candidate)"

definition log_inv :: "string list \<Rightarrow> (string \<Rightarrow> Config) \<Rightarrow> nat \<Rightarrow> Cluster \<Rightarrow> History \<Rightarrow> bool" where
  "log_inv ms cfgs k s H \<longleftrightarrow> hist_ok (majority_set ms) k H
     \<and> (\<forall>a \<in> set ms. node_inv ms H a (cl_nodes s a))
     \<and> (\<forall>c \<in> set (cl_calls s). call_inv ms H (cl_nodes s) c)
     \<and> (\<forall>g \<in> set (cl_grants s). grant_inv ms cfgs H (cl_nodes s) g)
     \<and> (\<forall>t r. h_reign H t = Some r \<longrightarrow> reign_inv ms cfgs s t r)
     \<and> (\<forall>t v xs. (t, v, xs) \<in> h_votes H \<longrightarrow> t \<le> currentTerm (cl_nodes s v))"

lemma log_invD:
  assumes "log_inv ms cfgs k s H"
  shows "hist_ok (majority_set ms) k H" and "a \<in> set ms \<Longrightarrow> node_inv ms H a (cl_nodes s a)"
    and "c \<in> set (cl_calls s) \<Longrightarrow> call_inv ms H (cl_nodes s) c"
    and "g \<in> set (cl_grants s) \<Longrightarrow> grant_inv ms cfgs H (cl_nodes s) g"
    and "h_reign H t = Some r \<Longrightarrow> reign_inv ms cfgs s t r"
    and "(t, v, xs) \<in> h_votes H \<Longrightarrow> t \<le> currentTerm (cl_nodes s v)"
  using assms unfolding log_inv_def by blast+

section \<open>The invariant and growing histories\<close>

lemma commit_cert_extends: "extends H H' \<Longrightarrow> commit_cert ms H T xs c \<Longrightarrow> commit_cert ms H' T xs c"
  unfolding commit_cert_def using chosen_extends matches_extends by blast

lemma commit_cert_mono: "commit_cert ms H T xs c \<Longrightarrow> T \<le> T' \<Longrightarrow> commit_cert ms H T' xs c"
  unfolding commit_cert_def by (meson order_trans)

lemma commit_cert_prefix: "commit_cert ms H T xs c \<Longrightarrow> prefix xs ys \<Longrightarrow> commit_cert ms H T ys c"
  unfolding commit_cert_def using matches_prefix by blast

lemma lost_to_mono: "lost_to H t T i \<Longrightarrow> T \<le> T' \<Longrightarrow> lost_to H t T' i"
  unfolding lost_to_def by (meson order_trans)

lemma lost_to_lost: "lost_to H t T i \<Longrightarrow> T \<le> t' \<Longrightarrow> h_reign H t' = None \<Longrightarrow> lost H t t' i"
proof -
  assume "lost_to H t T i" "T \<le> t'" and none: "h_reign H t' = None"
  then obtain u r where u: "t < u" "u \<le> t'" "h_reign H u = Some r" "\<not> matches H t i (rg_base r)"
    unfolding lost_to_def by (meson order_trans)
  with none have "u \<noteq> t'" by auto
  with u show ?thesis unfolding lost_def by (meson order_le_less)
qed

lemma keeps_acks_mono: "keeps_acks H a T xs \<Longrightarrow> T \<le> T' \<Longrightarrow> keeps_acks H a T' xs"
  unfolding keeps_acks_def using lost_to_mono order_trans by blast

lemma lost_to_extends:
  assumes "extends H H'" "h_reign H t = Some r" "i \<le> length (rg_log r)" "lost_to H t T i"
  shows "lost_to H' t T i"
proof -
  obtain u q where u: "t < u" "u \<le> T" "h_reign H u = Some q" "\<not> matches H t i (rg_base q)"
    using assms(4) unfolding lost_to_def by blast
  obtain q' where "h_reign H' u = Some q'" "rg_base q' = rg_base q" using extends_reign [OF assms(1) u(3)] by blast
  then show ?thesis
    using u matches_extends_iff [OF assms(1-3), of "rg_base q"] unfolding lost_to_def by metis
qed

lemma keeps_acks_extends:
  assumes ok: "hist_ok quorum k H" and e: "extends H H'" and new: "\<And>t i. acked H' t a i \<Longrightarrow> acked H t a i"
    and "keeps_acks H a T xs"
  shows "keeps_acks H' a T xs"
  unfolding keeps_acks_def
proof (intro allI impI)
  fix t i assume "acked H' t a i"
  then have a: "acked H t a i" by (rule new)
  then obtain r where "h_reign H t = Some r" "i \<le> length (rg_log r)" using hist_ok_ack [OF ok] by blast
  then show "t \<le> T \<and> (matches H' t i xs \<or> lost_to H' t T i)"
    using a assms(4) lost_to_extends [OF e] matches_extends [OF e] unfolding keeps_acks_def by blast
qed

lemma piece_extends: "extends H H' \<Longrightarrow> prefix xs ys \<Longrightarrow> piece ms H t xs args \<Longrightarrow> piece ms H' t ys args"
  by (auto simp: piece_def Let_def prefix_def nth_append commit_cert_extends
      intro: commit_cert_extends [OF _ commit_cert_prefix])

lemma append_ok_extends:
  assumes "extends H H'" "append_ok ms H a b t args"
  shows "append_ok ms H' a b t args"
proof -
  obtain r where r: "h_reign H t = Some r" "rg_leader r = a"
      "ae_PrevLogIndex args \<noteq> 0 \<and> ae_PrevLogTerm args = 0 \<or> piece ms H t (rg_log r) args"
    using assms(2) unfolding append_ok_def by blast
  obtain r' where "h_reign H' t = Some r'" "rg_leader r' = rg_leader r" "prefix (rg_log r) (rg_log r')"
    using extends_reign [OF assms(1) r(1)] by blast
  then show ?thesis using r piece_extends [OF assms(1)] assms(2) unfolding append_ok_def by blast
qed

section \<open>One node changes\<close>

text \<open>A candidate is one of a new term, or the old candidate with the old log.\<close>

definition candidacy :: "RaftNode \<Rightarrow> RaftNode \<Rightarrow> bool" where
  "candidacy n n' \<longleftrightarrow> currentTerm n \<le> currentTerm n' \<and> (nstate n' = Candidate \<longrightarrow> currentTerm n < currentTerm n'
     \<or> nstate n = Candidate \<and> currentTerm n = currentTerm n' \<and> rlog n' = rlog n)"

lemma vote_req_ok_candidacy: "vote_req_ok n args \<Longrightarrow> candidacy n n' \<Longrightarrow> vote_req_ok n' args"
  unfolding vote_req_ok_def candidacy_def by (metis leD order_trans)

lemma grant_inv_candidacy:
  assumes "grant_inv ms cfgs H N g" "extends H H'" "\<And>b. candidacy (N b) (N' b)"
  shows "grant_inv ms cfgs H' N' g"
proof -
  obtain t v c where g: "g = (t, v, c)" by (cases g)
  obtain b where b: "b \<in> set ms" "c = cfg_ID (cfgs b)" "t \<le> currentTerm (N b)"
      and up: "nstate (N b) = Candidate \<longrightarrow> currentTerm (N b) = t \<longrightarrow> h_reign H t = None \<longrightarrow>
          (\<exists>xs ys. (t, v, ys) \<in> h_votes H \<and> rlog (N b) = plain_log xs \<and> up_to_date xs ys)"
    using assms(1) unfolding g grant_inv_def prod.case by (elim bexE conjE) (erule (3) that)
  have le: "t \<le> currentTerm (N' b)" using b(3) assms(3) [of b] unfolding candidacy_def by (meson order_trans)
  have "\<exists>xs ys. (t, v, ys) \<in> h_votes H' \<and> rlog (N' b) = plain_log xs \<and> up_to_date xs ys"
    if "nstate (N' b) = Candidate" "currentTerm (N' b) = t" "h_reign H' t = None"
  proof -
    have "nstate (N b) = Candidate" "currentTerm (N b) = t" "rlog (N' b) = rlog (N b)"
      using that b(3) assms(3) [of b] unfolding candidacy_def by auto
    moreover have "h_reign H t = None" using that(3) extends_reign [OF assms(2)] by (metis not_None_eq)
    ultimately show ?thesis using up assms(2) unfolding extends_def by fastforce
  qed
  then show ?thesis using b(1,2) le unfolding g grant_inv_def prod.case by (intro bexI [of _ b] conjI impI)
qed

text \<open>A call goes on, or is finished.\<close>

definition same_call :: "Call \<Rightarrow> Call \<Rightarrow> bool" where
  "same_call c c' \<longleftrightarrow> call_from c' = call_from c \<and> call_to c' = call_to c \<and> call_req c' = call_req c
     \<and> (call_status c' = call_status c \<or> call_status c' = Finished)"

lemma same_call_refl [simp]: "same_call c c"
  by (simp add: same_call_def)

lemma same_call_mem: "c \<in> cs \<Longrightarrow> \<exists>c0 \<in> cs. same_call c0 c"
  by (rule bexI [of _ c]) simp_all

lemma status_acked_extends:
  "extends H H' \<Longrightarrow> status_ok (\<lambda>ans. \<forall>r. ans = AppendAns r \<longrightarrow> aer_Success r \<longrightarrow> acked H t v i \<and> P) st \<Longrightarrow>
     status_ok (\<lambda>ans. \<forall>r. ans = AppendAns r \<longrightarrow> aer_Success r \<longrightarrow> acked H' t v i \<and> P) st"
  by (erule status_ok_mono) (blast intro: acked_extends)

lemma call_inv_extends:
  assumes "call_inv ms H N c" "extends H H'" "\<And>b. candidacy (N b) (N' b)" "same_call c c'"
  shows "call_inv ms H' N' c'"
proof (cases "call_req c")
  case (VoteReq e args)
  then show ?thesis
    using assms vote_req_ok_candidacy by (auto simp: call_inv_def same_call_def)
next
  case (AppendReq t args)
  then have "append_ok ms H' (call_from c) (call_to c) t args"
    using assms(1) append_ok_extends [OF assms(2)] by (simp add: call_inv_def)
  then show ?thesis
    using AppendReq assms(1,4) status_acked_extends [OF assms(2)] by (auto simp: call_inv_def same_call_def)
next
  case (InstallReq t args)
  then show ?thesis using assms(1,4) by (auto simp: call_inv_def same_call_def)
qed

lemma node_inv_extends:
  assumes ok: "hist_ok quorum k H" and e: "extends H H'"
    and acks: "\<And>t i. acked H' t a i \<Longrightarrow> acked H t a i"
    and reigns: "\<And>t r. h_reign H' t = Some r \<Longrightarrow> rg_leader r = a \<Longrightarrow> h_reign H t = Some r"
    and n: "node_inv ms H a n"
  shows "node_inv ms H' a n"
proof -
  obtain xs where xs: "rlog n = plain_log xs" "log_inv_of ms H a n xs"
    using n unfolding node_inv_def by blast
  have "leads H' a n xs" if l: "leads H a n xs"
  proof -
    obtain r where r: "h_reign H (currentTerm n) = Some r" "rg_leader r = a" "rg_log r = xs"
      using l unfolding leads_def by blast
    obtain r' where r': "h_reign H' (currentTerm n) = Some r'" "rg_leader r' = rg_leader r"
      using extends_reign [OF e r(1)] by blast
    then have "r' = r" using reigns [OF r'(1)] r by simp
    then show ?thesis using r r' l acked_extends [OF e] unfolding leads_def by blast
  qed
  moreover have "keeps_acks H' a (currentTerm n) xs"
    using keeps_acks_extends [OF ok e acks] xs(2) unfolding log_inv_of_def by blast
  ultimately have "log_inv_of ms H' a n xs"
    using xs(2) traced_extends [OF e] commit_cert_extends [OF e] unfolding log_inv_of_def by blast
  then show ?thesis using n xs(1) unfolding node_inv_def by blast
qed

text \<open>
  A step changes one node, finishes, answers or adds calls and adds votes; the history grows by
  what that node does. What is to be shown is that the new parts are sound.
\<close>

definition only_by :: "string \<Rightarrow> History \<Rightarrow> History \<Rightarrow> bool" where
  "only_by a H H' \<longleftrightarrow> (\<forall>t v i. (t, v, i) \<in> h_acks H' \<longrightarrow> (t, v, i) \<in> h_acks H \<or> v = a)
     \<and> (\<forall>t r. h_reign H' t = Some r \<longrightarrow> h_reign H t = Some r \<or> rg_leader r = a)
     \<and> (\<forall>t v xs. (t, v, xs) \<in> h_votes H' \<longrightarrow> (t, v, xs) \<in> h_votes H \<or> v = a)"

lemma only_by_refl [simp]: "only_by a H H"
  by (simp add: only_by_def)

lemma only_by_acked: "only_by a H H' \<Longrightarrow> v \<noteq> a \<Longrightarrow> acked H' t v i \<Longrightarrow> acked H t v i"
  unfolding only_by_def acked_def by blast

lemma log_inv_update:
  assumes inv: "log_inv ms cfgs k s H" and e: "extends H H'" and ok: "hist_ok (majority_set ms) k' H'"
    and by_a: "only_by a H H'" and node: "node_inv ms H' a n" and cand: "candidacy (cl_nodes s a) n"
    and nodes: "cl_nodes s' = (cl_nodes s)(a := n)" and grants: "set (cl_grants s) \<subseteq> set (cl_grants s')"
    and new_votes: "\<And>t xs. (t, a, xs) \<in> h_votes H' \<Longrightarrow> (t, a, xs) \<notin> h_votes H \<Longrightarrow> t \<le> currentTerm n"
    and new_reigns: "\<And>t r. h_reign H' t = Some r \<Longrightarrow> h_reign H t = None \<Longrightarrow> reign_inv ms cfgs s' t r"
    and new_grants: "\<And>g. g \<in> set (cl_grants s') \<Longrightarrow> g \<notin> set (cl_grants s) \<Longrightarrow> grant_inv ms cfgs H' (cl_nodes s') g"
    and calls: "\<And>c. c \<in> set (cl_calls s') \<Longrightarrow> (\<exists>c0 \<in> set (cl_calls s). same_call c0 c) \<or> call_inv ms H' (cl_nodes s') c"
  shows "log_inv ms cfgs k' s' H'"
proof -
  note D = log_invD [OF inv]
  have c: "candidacy (cl_nodes s b) (cl_nodes s' b)" for b
    using cand by (simp add: nodes candidacy_def)
  have "node_inv ms H' b (cl_nodes s' b)" if b: "b \<in> set ms" for b
  proof (cases "b = a")
    case False
    have "h_reign H t = Some r" if "h_reign H' t = Some r" "rg_leader r = b" for t r
      using that by_a False unfolding only_by_def by blast
    from node_inv_extends [OF D(1) e only_by_acked [OF by_a False] this D(2) [OF b]] False
    show ?thesis by (simp add: nodes)
  qed (simp add: nodes node)
  moreover have "call_inv ms H' (cl_nodes s') x" if "x \<in> set (cl_calls s')" for x
    using calls [OF that] call_inv_extends [OF D(3) e c] by blast
  moreover have "grant_inv ms cfgs H' (cl_nodes s') g" if "g \<in> set (cl_grants s')" for g
    using new_grants [OF that] grant_inv_candidacy [OF D(4) e c] by blast
  moreover have "reign_inv ms cfgs s' t r'" if r': "h_reign H' t = Some r'" for t r'
  proof (cases "h_reign H t")
    case (Some r)
    have l: "rg_leader r' = rg_leader r" using extends_reign [OF e Some] r' by auto
    have "reign_inv ms cfgs s t r" by (rule D(5) [OF Some])
    then show ?thesis
      using elected_mono [OF grants] c [of "rg_leader r"] unfolding reign_inv_def l candidacy_def by auto
  qed (use new_reigns [OF r'] in simp)
  moreover have "t \<le> currentTerm (cl_nodes s' v)" if v: "(t, v, xs) \<in> h_votes H'" for t v xs
  proof (cases "(t, v, xs) \<in> h_votes H")
    case True
    then show ?thesis using D(6) c [of v] unfolding candidacy_def by (blast intro: order_trans)
  next
    case False
    then have "v = a" using v by_a unfolding only_by_def by blast
    then show ?thesis using new_votes v False by (simp add: nodes)
  qed
  ultimately show ?thesis using ok unfolding log_inv_def by blast
qed

section \<open>Changes that leave the log alone\<close>

definition quiet :: "RaftNode \<Rightarrow> RaftNode \<Rightarrow> bool" where
  "quiet n n' \<longleftrightarrow> calm n n' \<and> rlog n' = rlog n \<and> (log_saved n \<longrightarrow> log_saved n')
     \<and> commitIndex n' \<in> {0, commitIndex n} \<and> (lastApplied n \<le> commitIndex n \<longrightarrow> lastApplied n' \<le> commitIndex n')
     \<and> (nstate n' = Leader \<longrightarrow> matchIndex n' = matchIndex n)"

named_theorems quiet_intros \<open>operations that leave the log alone\<close>

lemma quiet_refl [simp, quiet_intros]: "quiet n n"
  by (simp add: quiet_def)

lemma calm_leader: "calm n n' \<Longrightarrow> nstate n' \<noteq> Follower \<Longrightarrow> nstate n = nstate n' \<and> currentTerm n = currentTerm n'"
  by (simp add: calm_def)

lemma quiet_trans:
  assumes "quiet a b" "quiet b c"
  shows "quiet a c"
proof -
  note q = assms [unfolded quiet_def]
  have c: "calm a c" using q calm_trans by blast
  have "nstate c = Leader \<longrightarrow> matchIndex c = matchIndex a"
    using q calm_leader [of b c] by (metis NodeState.distinct(3))
  moreover have "commitIndex c \<in> {0, commitIndex a}" using q by (metis insert_iff singletonD)
  ultimately show ?thesis using c q unfolding quiet_def by simp
qed

lemma log_saved_cong: "rlog m = rlog n \<Longrightarrow> disk m = disk n \<Longrightarrow> log_saved m = log_saved n"
  by (auto simp: log_saved_def disk_works_def split: option.splits content.splits blob.splits)

lemma log_saved_works: "log_saved n \<Longrightarrow> disk_works n \<and> read_file (disk n) snapshot_path = None"
  by (simp add: log_saved_def)

lemma log_saved_persist:
  assumes "disk_works n" "read_file (disk n) snapshot_path = None"
  shows "log_saved (persist n)"
  using assms in_sync_persist [OF assms(1)] disk_works_persist [OF assms(1)] persist_keeps_snapshot [of n]
  by (simp add: log_saved_def disk_works_def in_sync_def persisted_of_def)

lemma quiet_same:
  "calm n m \<Longrightarrow> rlog m = rlog n \<Longrightarrow> disk m = disk n \<Longrightarrow> commitIndex m = commitIndex n \<Longrightarrow>
     lastApplied m = lastApplied n \<Longrightarrow> matchIndex m = matchIndex n \<Longrightarrow> quiet n m"
  by (simp add: quiet_def log_saved_cong [of m n])

lemma quiet_persist:
  "calm n (persist m) \<Longrightarrow> rlog m = rlog n \<Longrightarrow> disk m = disk n \<Longrightarrow> commitIndex m = commitIndex n \<Longrightarrow>
     lastApplied m = lastApplied n \<Longrightarrow> matchIndex m = matchIndex n \<Longrightarrow> quiet n (persist m)"
  using log_saved_persist [of m] by (auto simp: quiet_def log_saved_def disk_works_def)

lemma quiet_follower [quiet_intros]: "currentTerm n < t \<Longrightarrow> quiet n (becomeFollower t n)"
  using calm_follower [of n t] unfolding becomeFollower_def by (intro quiet_persist) simp_all

lemma quiet_HandleRequestVote [quiet_intros]: "quiet n (snd (HandleRequestVote now args n))"
proof -
  let ?n1 = "if rv_Term args > currentTerm n then becomeFollower (rv_Term args) n else n"
  let ?n2 = "?n1\<lparr>votedFor := rv_CandidateID args\<rparr>"
  have one: "quiet n ?n1" by (simp add: quiet_intros)
  have "snd (HandleRequestVote now args n) = n \<or> snd (HandleRequestVote now args n) = ?n1
      \<or> snd (HandleRequestVote now args n) = notifyHeartbeat (persist ?n2)"
    by (simp add: HandleRequestVote_def Let_def)
  then consider "snd (HandleRequestVote now args n) = n" | "snd (HandleRequestVote now args n) = ?n1"
    | "snd (HandleRequestVote now args n) = notifyHeartbeat (persist ?n2)"
    by blast
  then show ?thesis
  proof cases
    case 3
    have "calm n (notifyHeartbeat (persist ?n2))" using calm_HandleRequestVote [of n now args] 3 by simp
    moreover have "log_saved (persist ?n2)" if "log_saved n"
      using that one log_saved_works [of ?n1]
      by (intro log_saved_persist) (auto simp: quiet_def disk_works_def)
    ultimately have "quiet n (notifyHeartbeat (persist ?n2))"
      using log_saved_cong [of "notifyHeartbeat (persist ?n2)" "persist ?n2"] by (simp add: quiet_def)
    with 3 show ?thesis by simp
  qed (use one in simp_all)
qed

lemma quiet_ae_follower: "\<not> ae_Term args < currentTerm n \<Longrightarrow> quiet n (ae_follower now args n)"
proof -
  assume ge: "\<not> ae_Term args < currentTerm n"
  let ?n1 = "if ae_Term args > currentTerm n then becomeFollower (ae_Term args) n
       else if ae_Term args = currentTerm n \<and> nstate n = Candidate then n\<lparr>nstate := Follower\<rparr> else n"
  have "log_saved n \<longrightarrow> log_saved ?n1"
    using quiet_follower [of n "ae_Term args"] log_saved_cong [of "n\<lparr>nstate := Follower\<rparr>" n] by (auto simp: quiet_def)
  moreover have "log_saved (ae_follower now args n) = log_saved ?n1"
    unfolding ae_follower_def by (rule log_saved_cong) simp_all
  moreover have "matchIndex (ae_follower now args n) = matchIndex n" by (simp add: ae_follower_def)
  ultimately show ?thesis using calm_ae_follower [OF ge, of now] by (simp add: quiet_def)
qed

lemma quiet_append_failed:
  assumes "wf_log (rlog n)" "\<not> aer_Success (fst (HandleAppendEntries now args n))"
  shows "quiet n (snd (HandleAppendEntries now args n))"
proof (cases "ae_Term args < currentTerm n")
  case True
  then show ?thesis by (simp add: HandleAppendEntries_stale)
next
  case False
  then show ?thesis using HandleAppendEntries_failed [OF assms] quiet_ae_follower [OF False] by auto
qed

lemma quiet_install [quiet_intros]:
  assumes "is_LastIncludedIndex args = 0"
  shows "quiet n (snd (HandleInstallSnapshot args n))"
proof -
  let ?n1 = "if is_Term args > currentTerm n then becomeFollower (is_Term args) n else n"
  have "quiet m (notifyHeartbeat (m\<lparr>leaderID := x\<rparr>))" for m x
    by (intro quiet_same calm_same) simp_all
  moreover have "quiet n ?n1" by (simp add: quiet_intros)
  ultimately show ?thesis
    using assms by (auto simp: HandleInstallSnapshot_def Let_def intro: quiet_trans)
qed

lemma quiet_tick [quiet_intros]:
  assumes "\<not> (nstate n = Leader \<and> nstate (checkQuorum now n) \<noteq> Leader)"
  shows "quiet n (fst (Run_heartbeat_tick now n))"
proof -
  have "checkQuorum now n = n" using assms by (auto simp: checkQuorum_def split: if_splits)
  then show ?thesis
    using calm_tick [OF assms] by (auto simp: Run_heartbeat_tick_def sendHeartbeats_def Let_def intro!: quiet_same)
qed

lemma quiet_heard: "quiet n (heard_from p now n)"
  by (intro quiet_same calm_same) simp_all

lemma quiet_reply_failed:
  "\<not> aer_Success reply \<or> nstate n \<noteq> Leader \<or> currentTerm n \<noteq> trm \<or> aer_Term reply > currentTerm n \<Longrightarrow>
     quiet n (sendToPeer_reply now peer trm args reply n)"
  using quiet_follower [of n "aer_Term reply"] calm_sendToPeer_reply [of n now peer trm args reply]
  by (auto simp: sendToPeer_reply_def Let_def intro!: quiet_same)

lemma quiet_snapshot_reply [quiet_intros]:
  "is_LastIncludedIndex args = 0 \<Longrightarrow> quiet n (sendSnapshotToPeer_reply peer trm args reply n)"
  using quiet_follower [of n "isr_Term reply"] calm_sendSnapshotToPeer_reply [of n peer trm args reply]
  by (auto simp: sendSnapshotToPeer_reply_def Let_def intro!: quiet_same)

lemma quiet_restart:
  assumes "vote_saved n" "log_saved n"
  shows "\<exists>n' r. Run_start (NewRaftNode (config n) (disk n)) = Some (n', r) \<and> nstate n' = Follower
     \<and> rlog n' = rlog n \<and> log_saved n' \<and> commitIndex n' = 0 \<and> lastApplied n' = 0"
proof -
  let ?m = "NewRaftNode (config n) (disk n)"
  have d: "disk ?m = disk n" "rlog ?m = newLog" "nstate ?m = Follower" "commitIndex ?m = 0" "lastApplied ?m = 0"
    by (simp_all add: NewRaftNode_def Let_def)
  have l: "fst (loadState ?m) \<noteq> LoadPanics \<and> rlog (snd (loadState ?m)) = rlog n \<and> nstate (snd (loadState ?m)) = Follower
      \<and> disk (snd (loadState ?m)) = disk n \<and> commitIndex (snd (loadState ?m)) = 0 \<and> lastApplied (snd (loadState ?m)) = 0"
    using assms(2) d
    by (auto simp: log_saved_def loadState_def log_entries_def split: option.splits content.splits blob.splits list.splits)
  have s: "restoreFromSnapshot m = (m, None)" if "disk m = disk n" for m
    using that assms(2) by (simp add: restoreFromSnapshot_def loadSnapshotFile_def log_saved_def)
  obtain x m where lm: "loadState ?m = (x, m)" by fastforce
  then have "Run_start ?m = Some (m, None)" using l s [of m] by (cases x) (auto simp: Run_start_def)
  moreover have "log_saved m" using l lm assms(2) log_saved_cong [of m n] by simp
  ultimately show ?thesis using l lm by auto
qed

lemma node_inv_quiet:
  assumes "node_inv ms H a n" "quiet n n'"
  shows "node_inv ms H a n'"
proof -
  obtain xs where xs: "rlog n = plain_log xs" "log_inv_of ms H a n xs" using assms(1) unfolding node_inv_def by blast
  note q = assms(2) [unfolded quiet_def]
  have t: "currentTerm n \<le> currentTerm n'" and p: "peers n' = peers n"
    using q by (auto simp: calm_def vote_kept_def)
  have "commit_cert ms H (currentTerm n') xs (unat (commitIndex n'))"
    using xs(2) q commit_cert_mono [OF _ t] by (auto simp: log_inv_of_def commit_cert_def [of _ _ _ _ 0])
  moreover have "leads H a n' xs" if "nstate n' = Leader"
    using that xs(2) q calm_leader [of n n'] p by (auto simp: log_inv_of_def leads_def)
  moreover have "\<forall>e \<in> set xs. le_Term e \<le> currentTerm n'" using xs(2) t unfolding log_inv_of_def by (meson order_trans)
  ultimately have "log_inv_of ms H a n' xs"
    using xs(2) keeps_acks_mono [OF _ t] unfolding log_inv_of_def by blast
  moreover have "rlog n' = plain_log xs" "log_saved n'" "lastApplied n' \<le> commitIndex n'"
      "nstate n' \<noteq> Follower \<longrightarrow> currentTerm n' \<noteq> 0"
    using xs(1) q assms(1) calm_leader [of n n'] by (auto simp: node_inv_def)
  ultimately show ?thesis unfolding node_inv_def by blast
qed

lemma candidacy_quiet: "quiet n n' \<Longrightarrow> candidacy n n'"
  by (auto simp: quiet_def calm_def candidacy_def vote_kept_def)

lemma candidacy_refl [simp]: "candidacy n n"
  by (simp add: candidacy_def)

lemma hist_ok_mono: "hist_ok quorum k H \<Longrightarrow> k \<le> k' \<Longrightarrow> hist_ok quorum k' H"
  by (erule hist_ok_extends) simp_all

lemma log_inv_mono: "log_inv ms cfgs k s H \<Longrightarrow> k \<le> k' \<Longrightarrow> log_inv ms cfgs k' s H"
  by (auto simp: log_inv_def intro: hist_ok_mono)

text \<open>A quiet change of one node; new calls have to be shown sound.\<close>

lemma log_inv_quiet:
  assumes inv: "log_inv ms cfgs k s H" and a: "a \<in> set ms" and q: "quiet (cl_nodes s a) n"
    and "cl_nodes s' = (cl_nodes s)(a := n)" "cl_grants s' = cl_grants s"
    and "\<And>c. c \<in> set (cl_calls s') \<Longrightarrow> (\<exists>c0 \<in> set (cl_calls s). same_call c0 c) \<or> call_inv ms H (cl_nodes s') c"
  shows "log_inv ms cfgs k s' H"
  by (rule log_inv_update [OF inv extends_refl log_invD(1) [OF inv] only_by_refl
        node_inv_quiet [OF log_invD(2) [OF inv a] q] candidacy_quiet [OF q]])
    (use assms(4-6) in auto)

lemma same_call_update:
  assumes "c \<in> set (cs[i := (cs ! i)\<lparr>call_status := Finished\<rparr>])"
  shows "\<exists>c0 \<in> set cs. same_call c0 c"
proof (cases "i < length cs")
  case True
  from set_update_subset_insert [of cs i "(cs ! i)\<lparr>call_status := Finished\<rparr>"] assms
  consider "c = (cs ! i)\<lparr>call_status := Finished\<rparr>" | "c \<in> set cs" by blast
  then show ?thesis
  proof cases
    case 1
    then show ?thesis using nth_mem [OF True] by (intro bexI [of _ "cs ! i"]) (simp_all add: same_call_def)
  next
    case 2
    then show ?thesis by (intro bexI [of _ c]) simp_all
  qed
next
  case False
  then show ?thesis using assms by (intro bexI [of _ c]) (simp_all add: list_update_beyond)
qed

section \<open>Steps that leave the logs alone\<close>

lemma node_inv_wf:
  assumes "hist_ok quorum k H" "k + 1 < 2 ^ 64" "node_inv ms H a n"
  obtains xs where "rlog n = plain_log xs" "log_inv_of ms H a n xs" "wf_log (rlog n)" "good_entries xs" "length xs \<le> k"
proof -
  obtain xs where xs: "rlog n = plain_log xs" "log_inv_of ms H a n xs" using assms(3) unfolding node_inv_def by blast
  then have g: "good_entries xs" "length xs \<le> k" using traced_good [OF assms(1), of xs] by (auto simp: log_inv_of_def)
  then have "wf_log (rlog n)" using assms(2) xs(1) by (simp add: wf_plain_log)
  then show ?thesis using that xs g by blast
qed

text \<open>What a leader sends is a piece of its log.\<close>

lemma replicate_to_inv:
  assumes ok: "hist_ok quorum k H" "k + 1 < 2 ^ 64" and n: "node_inv ms H a n" and l: "nstate n = Leader" and p: "p \<noteq> a"
  shows "call_inv ms H N (spawn_call a (replicate_to n p))"
proof -
  obtain xs where xs: "rlog n = plain_log xs" "log_inv_of ms H a n xs" and wf: "wf_log (rlog n)"
    using node_inv_wf [OF ok n] by blast
  obtain r where r: "h_reign H (currentTerm n) = Some r" "rg_leader r = a" "rg_log r = xs"
      and cc: "commit_cert ms H (currentTerm n) xs (unat (commitIndex n))"
    using xs(2) l unfolding log_inv_of_def leads_def by blast
  show ?thesis
  proof (cases "go_read (nextIndex n) p \<le> snapshotIndex (rlog n)")
    case True
    then show ?thesis
      using xs(1) by (simp add: replicate_to_def call_inv_def new_call_def buildSnapshotArgsLocked_def)
  next
    case False
    let ?args = "buildArgsLocked n p" and ?i = "unat (go_read (nextIndex n) p) - 1"
    have nx: "snapshotIndex (rlog n) < go_read (nextIndex n) p" using False by simp
    note b = buildArgsLocked_facts [OF wf nx]
    have t: "ae_Term ?args = currentTerm n" "ae_LeaderCommit ?args = commitIndex n"
        "ae_PrevLogTerm ?args = le_Term (log_get (rlog n) (ae_PrevLogIndex ?args))"
      by (simp_all add: buildArgsLocked_def Let_def)
    have "ae_PrevLogIndex ?args \<noteq> 0 \<and> ae_PrevLogTerm ?args = 0 \<or> piece ms H (currentTerm n) xs ?args"
    proof (cases "?i \<le> length xs")
      case True
      have len: "?i + length (ae_Entries ?args) = length xs" using True b(4) xs(1) by simp
      have nth: "ae_Entries ?args ! j = xs ! (?i + j)" if "j < length (ae_Entries ?args)" for j
        using b(5) [OF that] xs(1) by (simp add: log_map_plain split: if_splits)
      have "ae_Entries ?args = take (length (ae_Entries ?args)) (drop ?i xs)"
        using len nth by (intro nth_equalityI) auto
      moreover have "unat (commitIndex n) \<le> length xs"
        using cc matches_length unfolding commit_cert_def by fastforce
      moreover have "ae_PrevLogTerm ?args = le_Term (xs ! (?i - 1))" if "0 < ?i"
        using that True b(1) xs(1) by (simp add: t(3) log_get_map [OF wf [unfolded xs(1)]] log_map_plain)
      ultimately show ?thesis using len cc b(1) by (simp add: piece_def Let_def t(2))
    next
      case False
      then show ?thesis
        using b(1) xs(1) by (auto simp: t(3) log_get_map [OF wf [unfolded xs(1)]] log_map_plain zero_entry_def)
    qed
    then show ?thesis
      using r p t(1) False by (simp add: replicate_to_def call_inv_def new_call_def append_ok_def)
  qed
qed

lemma peers_others: "wf_config ms cfgs \<Longrightarrow> cl_inv ms cfgs k s \<Longrightarrow> a \<in> set ms \<Longrightarrow> set (peers (cl_nodes s a)) = set ms - {a}"
  using node_okD [of ms cfgs k s a] by (simp add: node_ok_def wf_config_def)

lemma sends_inv:
  assumes "hist_ok quorum k H" "k + 1 < 2 ^ 64" "node_inv ms H a n" "nstate n = Leader" "a \<notin> set (peers n)"
    and "c \<in> set (map (spawn_call a) (map (replicate_to n) (peers n)))"
  shows "call_inv ms H N c"
proof -
  obtain p where p: "p \<in> set (peers n)" "c = spawn_call a (replicate_to n p)" using assms(6) by auto
  then have "p \<noteq> a" using assms(5) by auto
  then show ?thesis using replicate_to_inv [OF assms(1-4)] p(2) by blast
qed

lemma log_inv_tick:
  assumes wf: "wf_config ms cfgs" and ci: "cl_inv ms cfgs k s" and inv: "log_inv ms cfgs k s H" and k: "k + 1 < 2 ^ 64"
    and a: "a \<in> set ms" and l: "\<not> steps_down (HeartbeatTick a now) s"
  shows "log_inv ms cfgs k (step_tick a now s) H"
proof -
  let ?n = "fst (Run_heartbeat_tick now (cl_nodes s a))" and ?sends = "snd (Run_heartbeat_tick now (cl_nodes s a))"
  have q: "quiet (cl_nodes s a) ?n" using l by (intro quiet_tick) simp
  have n: "node_inv ms H a ?n" by (rule node_inv_quiet [OF log_invD(2) [OF inv a] q])
  have st: "step_tick a now s = add_calls (map (spawn_call a) ?sends) (set_node a ?n s)"
    by (simp add: step_tick_def case_prod_beta)
  have p: "a \<notin> set (peers ?n)" using peers_others [OF wf ci a] q by (simp add: quiet_def calm_def)
  have "call_inv ms H N c" if c: "c \<in> set (map (spawn_call a) ?sends)" for c N
  proof -
    have ld: "nstate (cl_nodes s a) = Leader" using c by (auto simp: Run_heartbeat_tick_def split: if_splits)
    then have s: "?sends = map (replicate_to ?n) (peers ?n)" "nstate ?n = Leader"
      using l by (auto simp: Run_heartbeat_tick_def sendHeartbeats_def Let_def replicate_to_heartbeats)
    show ?thesis using c unfolding s(1) by (rule sends_inv [OF log_invD(1) [OF inv] k n s(2) p])
  qed
  then show ?thesis
    unfolding st by (intro log_inv_quiet [OF inv a q]) (auto intro: same_call_mem)
qed

lemma log_inv_apply:
  assumes inv: "log_inv ms cfgs k s H" and a: "a \<in> set ms"
  shows "log_inv ms cfgs k (step_apply a s) H"
proof (cases "lastApplied (cl_nodes s a) < commitIndex (cl_nodes s a)")
  case True
  let ?n = "cl_nodes s a"
  let ?m = "?n\<lparr>lastApplied := lastApplied ?n + 1\<rparr>"
  have "calm ?n ?m" by (rule calm_same) simp_all
  moreover have "log_saved ?m = log_saved ?n" by (rule log_saved_cong) simp_all
  moreover have "lastApplied ?n + 1 \<le> commitIndex ?n" using True by (rule inc_le)
  ultimately have "quiet ?n ?m" by (simp add: quiet_def)
  moreover have "step_apply a s = set_node a ?m s" using True by (simp add: step_apply_def Let_def)
  ultimately show ?thesis by (intro log_inv_quiet [OF inv a]) (auto intro: same_call_mem)
qed (use inv in \<open>simp add: step_apply_def Let_def\<close>)

lemma log_inv_begin:
  assumes inv: "log_inv ms cfgs k s H" and a: "a \<in> set ms"
  shows "log_inv ms cfgs k (step_begin a s) H"
proof (cases "cl_begun s a = 0")
  case False
  have "call_inv ms H (cl_nodes s) (new_call a p (VoteReq e (fst (snd (startElection_begin (cl_nodes s a))))))" for p e
    by (simp add: call_inv_def new_call_def vote_req_ok_def startElection_begin_def)
  then show ?thesis
    using False by (intro log_inv_quiet [OF inv a quiet_refl])
      (auto simp: step_begin_def startElection_begin_def Let_def intro: same_call_mem)
qed (use inv in \<open>simp add: step_begin_def\<close>)

lemma log_inv_restart:
  assumes ci: "cl_inv ms cfgs k s" and inv: "log_inv ms cfgs k s H" and a: "a \<in> set ms"
  shows "log_inv ms cfgs k (step_restart a s) H"
proof -
  let ?n = "cl_nodes s a"
  have ok: "node_id ?n = cfg_ID (cfgs a)" "peers ?n = cfg_Peers (cfgs a)" "config ?n = cfg_defaults (cfgs a)" "vote_saved ?n"
    using node_okD [OF ci a] by (simp_all add: node_ok_def)
  have ls: "log_saved ?n" "lastApplied ?n \<le> commitIndex ?n" using log_invD(2) [OF inv a] by (simp_all add: node_inv_def)
  obtain n' r where r: "Run_start (NewRaftNode (config ?n) (disk ?n)) = Some (n', r)"
      and n': "currentTerm n' = currentTerm ?n" "votedFor n' = votedFor ?n" "nstate n' = Follower"
        "disk n' = disk ?n" "node_id n' = cfg_ID (config ?n)" "peers n' = cfg_Peers (config ?n)"
        "config n' = cfg_defaults (config ?n)"
    using Run_start_vote [OF ok(4)] by blast
  have l': "rlog n' = rlog ?n" "log_saved n'" "commitIndex n' = 0" "lastApplied n' = 0"
    using quiet_restart [OF ok(4) ls(1)] r by auto
  have "calm ?n n'"
    using n' ok vote_saved_cong [of n' ?n] by (simp add: calm_def vote_kept_def)
  then have "quiet ?n n'" using l' n'(3) by (simp add: quiet_def)
  moreover have "\<exists>c0 \<in> set (cl_calls s). same_call c0 c" if "c \<in> drop_caller a ` set (cl_calls s)" for c
    using that by (auto simp: same_call_def drop_caller_def)
  ultimately show ?thesis
    using r by (intro log_inv_quiet [OF inv a]) (auto simp: step_restart_def)
qed

section \<open>Votes\<close>

definition record_vote :: "u64 \<Rightarrow> string \<Rightarrow> LogEntry list \<Rightarrow> History \<Rightarrow> History" where
  "record_vote t v xs H = H\<lparr>h_votes := insert (t, v, xs) (h_votes H)\<rparr>"

lemma record_vote_simps [simp]:
  "h_reign (record_vote t v xs H) = h_reign H" "h_acks (record_vote t v xs H) = h_acks H"
  "h_votes (record_vote t v xs H) = insert (t, v, xs) (h_votes H)"
  "acked (record_vote t v xs H) = acked H" "extends H (record_vote t v xs H)" "only_by v H (record_vote t v xs H)"
  by (auto simp: record_vote_def extends_def only_by_def acked_def [abs_def])

lemma hist_ok_vote:
  assumes "hist_ok quorum k H" "traced H xs"
    and "\<And>t0 i. t0 < t \<Longrightarrow> acked H t0 v i \<Longrightarrow> matches H t0 i xs \<or> lost H t0 t i"
  shows "hist_ok quorum k (record_vote t v xs H)"
  by (rule hist_ok_extends [OF assms(1)]) (use assms(2,3) in auto)

lemma node_inv_vote: "hist_ok quorum k H \<Longrightarrow> node_inv ms H a n \<Longrightarrow> node_inv ms (record_vote t v xs H) a n"
  by (rule node_inv_extends) simp_all

lemma log_inv_keep: "log_inv ms cfgs k s' H \<Longrightarrow> \<exists>H'. extends H H' \<and> log_inv ms cfgs k s' H'"
  by (rule exI [of _ H]) simp

lemma lost_to_less: "lost_to H t T i \<Longrightarrow> T < t' \<Longrightarrow> lost H t t' i"
  unfolding lost_to_def lost_def by (meson le_less_trans)

lemma up_to_date_refl [simp]: "up_to_date xs xs"
  by (simp add: up_to_date_def)

lemma node_inv_candidate:
  assumes n: "node_inv ms H a n" and t: "currentTerm n < currentTerm n + 1"
  shows "node_inv ms H a (becomeCandidate n)"
proof -
  obtain xs where xs: "rlog n = plain_log xs" "log_inv_of ms H a n xs" using n unfolding node_inv_def by blast
  have le: "currentTerm n \<le> currentTerm n + 1" using t by simp
  have "\<forall>e \<in> set xs. le_Term e \<le> currentTerm n + 1" using xs(2) le unfolding log_inv_of_def by (meson order_trans)
  then have "log_inv_of ms H a (becomeCandidate n) xs"
    using xs(2) keeps_acks_mono [OF _ le] commit_cert_mono [OF _ le] by (simp add: log_inv_of_def)
  moreover have "log_saved (becomeCandidate n)"
    using n unfolding becomeCandidate_def node_inv_def by (intro log_saved_persist) (simp_all add: log_saved_def disk_works_def)
  moreover have "currentTerm n + 1 \<noteq> 0" using t by auto
  ultimately show ?thesis using xs(1) n unfolding node_inv_def by simp
qed

lemma log_inv_prevote_won:
  assumes wf: "wf_config ms cfgs" and ci: "cl_inv ms cfgs k s" and inv: "log_inv ms cfgs k s H" and k: "k + 1 < 2 ^ 64"
    and a: "a \<in> set ms"
  shows "\<exists>H'. extends H H' \<and> log_inv ms cfgs k (step_prevote_won a s) H'"
proof (cases "eligible (cl_nodes s a)")
  case True
  let ?n = "cl_nodes s a" and ?s' = "step_prevote_won a s"
  let ?t = "currentTerm ?n + 1"
  have "unat (currentTerm ?n) \<le> k" "node_id ?n = cfg_ID (cfgs a)" using node_okD [OF ci a] by (simp_all add: node_ok_def)
  then have t: "currentTerm ?n < ?t" and id: "node_id ?n = cfg_ID (cfgs a)"
    using k unat_u64_plus1 [of "currentTerm ?n"] by (simp_all add: u64_nat)
  obtain xs where xs: "rlog ?n = plain_log xs" "log_inv_of ms H a ?n xs"
    using log_invD(2) [OF inv a] unfolding node_inv_def by blast
  let ?H = "record_vote ?t a xs H"
  have ok: "hist_ok (majority_set ms) k ?H"
  proof (rule hist_ok_vote [OF log_invD(1) [OF inv]])
    show "traced H xs" using xs(2) by (simp add: log_inv_of_def)
    show "matches H t0 i xs \<or> lost H t0 ?t i" if "acked H t0 a i" for t0 i
      using that xs(2) lost_to_less [OF _ t] unfolding log_inv_of_def keeps_acks_def by blast
  qed
  have node: "node_inv ms ?H a (becomeCandidate ?n)"
    by (rule node_inv_vote [OF log_invD(1) [OF inv] node_inv_candidate [OF log_invD(2) [OF inv a] t]])
  have s': "cl_nodes ?s' = (cl_nodes s)(a := becomeCandidate ?n)" "cl_calls ?s' = cl_calls s"
      "cl_grants ?s' = (?t, a, cfg_ID (cfgs a)) # cl_grants s"
    using True id by (simp_all add: step_prevote_won_def Let_def Run_prevote_won_def)
  have "log_inv ms cfgs k ?s' ?H"
  proof (rule log_inv_update [OF inv _ ok _ node _ s'(1)])
    show "grant_inv ms cfgs ?H (cl_nodes ?s') g" if "g \<in> set (cl_grants ?s')" "g \<notin> set (cl_grants s)" for g
      using that a xs(1) by (auto simp: s' grant_inv_def intro!: bexI [of _ a])
  qed (use t in \<open>auto simp: s' candidacy_def intro: same_call_mem\<close>)
  then show ?thesis by (intro exI [of _ ?H]) simp
qed (use log_inv_keep [OF inv] in \<open>simp add: step_prevote_won_def\<close>)

lemma up_to_date_args:
  assumes "candidateUpToDate args n" "rlog n = plain_log ys" "wf_log (plain_log xs)" "wf_log (plain_log ys)"
    and "rv_LastLogTerm args = lastTerm (plain_log xs)" "rv_LastLogIndex args = lastIndex (plain_log xs)"
  shows "up_to_date xs ys"
  using assms by (auto simp: candidateUpToDate_def up_to_date_def lastTerm_plain u64_nat unat_lastIndex)

lemma answered_calls:
  assumes "c \<in> set (cs[i := c'])"
  shows "(\<exists>c0 \<in> set cs. same_call c0 c) \<or> c = c'"
  using assms set_update_subset_insert [of cs i c'] same_call_mem by blast

lemma log_inv_deliver_vote:
  assumes wf: "wf_config ms cfgs" and ci: "cl_inv ms cfgs k s" and inv: "log_inv ms cfgs k s H" and k: "k + 1 < 2 ^ 64"
    and i: "i < length (cl_calls s)" and c: "cl_calls s ! i = c" "call_status c = Waiting" "call_req c = VoteReq e args"
  shows "\<exists>H'. extends H H' \<and> log_inv ms cfgs k (step_deliver i now s) H'"
proof -
  let ?v = "call_to c" and ?b = "call_from c" and ?t = "rv_Term args" and ?s' = "step_deliver i now s"
  let ?h = "HandleRequestVote now args (cl_nodes s (call_to c))"
  let ?n = "cl_nodes s ?v" and ?c' = "c\<lparr>call_status := Answered (VoteAns (fst ?h))\<rparr>"
  have mem: "c \<in> set (cl_calls s)" using nth_mem [OF i] c(1) by simp
  have vo: "\<not> rv_IsPreVote args" "rv_CandidateID args = cfg_ID (cfgs ?b)" "?v \<in> set (cfg_Peers (cfgs ?b))"
      "?v \<in> set ms" "?b \<in> set ms"
    using ci mem c(3) unfolding cl_inv_def inv_calls_def call_ok_def vote_call_ok_def by fastforce+
  then have ne: "?v \<noteq> ?b" using wf by (auto simp: wf_config_def)
  have rq: "vote_req_ok (cl_nodes s ?b) args" using log_invD(3) [OF inv mem] c(3) by (simp add: call_inv_def)
  have q: "quiet ?n (snd ?h)" by (rule quiet_HandleRequestVote)
  have s': "cl_nodes ?s' = (cl_nodes s)(?v := snd ?h)" "cl_calls ?s' = (cl_calls s)[i := ?c']"
      "cl_grants ?s' = (if rvr_VoteGranted (fst ?h) then [(?t, ?v, cfg_ID (cfgs ?b))] else []) @ cl_grants s"
    using c vo(2) by (simp_all add: step_deliver_def Let_def case_prod_beta)
  have call: "call_inv ms H' (cl_nodes ?s') ?c'" for H'
    using rq ne c(3) by (simp add: call_inv_def s')
  obtain ys where ys: "rlog ?n = plain_log ys" "log_inv_of ms H ?v ?n ys" "wf_log (rlog ?n)"
    using node_inv_wf [OF log_invD(1) [OF inv] k log_invD(2) [OF inv vo(4)]] by metis
  obtain xs where xs: "rlog (cl_nodes s ?b) = plain_log xs" "wf_log (rlog (cl_nodes s ?b))"
    using node_inv_wf [OF log_invD(1) [OF inv] k log_invD(2) [OF inv vo(5)]] by metis
  show ?thesis
  proof (cases "rvr_VoteGranted (fst ?h) \<and> h_reign H ?t = None")
    case True
    let ?H = "record_vote ?t ?v ys H"
    have gr: "currentTerm ?n \<le> ?t" "currentTerm (snd ?h) = ?t" "candidateUpToDate args ?n"
      using True HandleRequestVote_iff [OF vo(1), of now ?n] HandleRequestVote_term [OF vo(1), of now ?n]
      by (simp_all add: max_def)
    have ok: "hist_ok (majority_set ms) k ?H"
    proof (rule hist_ok_vote [OF log_invD(1) [OF inv]])
      show "traced H ys" using ys(2) by (simp add: log_inv_of_def)
      show "matches H t0 j ys \<or> lost H t0 ?t j" if "acked H t0 ?v j" for t0 j
        using that ys(2) True lost_to_lost [OF _ gr(1)] unfolding log_inv_of_def keeps_acks_def by blast
    qed
    have node: "node_inv ms ?H ?v (snd ?h)"
      by (rule node_inv_vote [OF log_invD(1) [OF inv] node_inv_quiet [OF log_invD(2) [OF inv vo(4)] q]])
    have "log_inv ms cfgs k ?s' ?H"
    proof (rule log_inv_update [OF inv _ ok _ node candidacy_quiet [OF q] s'(1)])
      show "grant_inv ms cfgs ?H (cl_nodes ?s') g" if g: "g \<in> set (cl_grants ?s')" "g \<notin> set (cl_grants s)" for g
      proof -
        have "up_to_date xs ys" if "nstate (cl_nodes s ?b) = Candidate" "currentTerm (cl_nodes s ?b) = ?t"
          using that rq xs ys up_to_date_args [OF gr(3) ys(1), of xs] by (simp add: vote_req_ok_def)
        then show ?thesis
          using g True ne vo(5) rq xs(1) by (auto simp: s' grant_inv_def vote_req_ok_def intro!: bexI [of _ ?b])
      qed
      show "(\<exists>c0 \<in> set (cl_calls s). same_call c0 x) \<or> call_inv ms ?H (cl_nodes ?s') x" if "x \<in> set (cl_calls ?s')" for x
        using answered_calls [OF that [unfolded s'(2)]] call by blast
    qed (use gr(2) in \<open>auto simp: s'\<close>)
    then show ?thesis by (intro exI [of _ ?H]) simp
  next
    case False
    have "log_inv ms cfgs k ?s' H"
    proof (rule log_inv_update [OF inv extends_refl log_invD(1) [OF inv] only_by_refl
          node_inv_quiet [OF log_invD(2) [OF inv vo(4)] q] candidacy_quiet [OF q] s'(1)])
      show "grant_inv ms cfgs H (cl_nodes ?s') g" if g: "g \<in> set (cl_grants ?s')" "g \<notin> set (cl_grants s)" for g
        using g False ne vo(5) rq by (auto simp: s' grant_inv_def vote_req_ok_def split: if_splits intro!: bexI [of _ ?b])
      show "(\<exists>c0 \<in> set (cl_calls s). same_call c0 x) \<or> call_inv ms H (cl_nodes ?s') x" if "x \<in> set (cl_calls ?s')" for x
        using answered_calls [OF that [unfolded s'(2)]] call by blast
    qed (auto simp: s')
    then show ?thesis by (rule log_inv_keep)
  qed
qed

section \<open>Taking over entries\<close>

definition record_ack :: "u64 \<Rightarrow> string \<Rightarrow> nat \<Rightarrow> History \<Rightarrow> History" where
  "record_ack t v i H = H\<lparr>h_acks := insert (t, v, i) (h_acks H)\<rparr>"

lemma record_ack_simps [simp]:
  "h_reign (record_ack t v i H) = h_reign H" "h_votes (record_ack t v i H) = h_votes H"
  "h_acks (record_ack t v i H) = insert (t, v, i) (h_acks H)"
  "acked (record_ack t v i H) u w j \<longleftrightarrow> acked H u w j \<or> u = t \<and> w = v \<and> j \<le> i"
  "matches (record_ack t v i H) = matches H" "lost_to (record_ack t v i H) = lost_to H"
  "extends H (record_ack t v i H)" "only_by v H (record_ack t v i H)"
  by (auto simp: record_ack_def extends_def only_by_def acked_def matches_def [abs_def] lost_to_def [abs_def])

lemma hist_ok_record_ack:
  assumes "hist_ok quorum k H" "h_reign H t = Some r" "i \<le> length (rg_log r)"
    and "\<And>u xs. (u, v, xs) \<in> h_votes H \<Longrightarrow> u \<le> t"
  shows "hist_ok quorum k (record_ack t v i H)"
  by (rule hist_ok_extends [OF assms(1)]) (use assms(2-4) in auto)

text \<open>
  The log after a request was accepted: what it had in common with a leader of an earlier term
  is kept, unless the leader of the request was elected without it.
\<close>

definition taken_over :: "nat \<Rightarrow> LogEntry list \<Rightarrow> LogEntry list \<Rightarrow> LogEntry list \<Rightarrow> bool" where
  "taken_over m ys xs xs' \<longleftrightarrow> m \<le> length ys \<and> m \<le> length xs' \<and> take m xs' = take m ys
     \<and> (xs' = xs \<or> xs' = take m ys) \<and> (\<forall>i \<le> length ys. take i xs = take i ys \<longrightarrow> take i xs' = take i ys)"

lemma taken_over_matches:
  assumes "taken_over m (rg_log r) xs xs'" "h_reign H t = Some r" "prefix (rg_base r) (rg_log r)"
    and "matches H u i xs" and "u = t \<or> matches H u i (rg_base r)"
  shows "matches H u i xs'"
proof -
  have "matches H u i (rg_log r)"
    using assms(2-5) matches_prefix [of H u i "rg_base r" "rg_log r"] by (auto simp: matches_def)
  then have l: "i \<le> length (rg_log r)" "take i xs = take i (rg_log r)"
    using matches_length assms(4) by (auto simp: matches_def)
  then have "take i xs' = take i xs" using assms(1) by (auto simp: taken_over_def)
  then show ?thesis using assms(4) matches_cong by blast
qed

lemma taken_over_merge:
  assumes ok: "hist_ok quorum k H" "k + 1 < 2 ^ 64" and r: "h_reign H t = Some r" and tr: "traced H xs"
    and pc: "piece ms H t (rg_log r) args" and pv: "prev_ok args (plain_log xs)"
  shows "\<exists>xs'. merge_entries (plain_log xs) (ae_Entries args) = plain_log xs'
     \<and> taken_over (unat (ae_PrevLogIndex args) + length (ae_Entries args)) (rg_log r) xs xs'"
proof -
  let ?p = "unat (ae_PrevLogIndex args)" and ?es = "ae_Entries args" and ?ys = "rg_log r"
  have ro: "reign_ok k H t r" by (rule hist_ok_reign [OF ok(1) r])
  have p: "?p + length ?es \<le> length ?ys" "?es = take (length ?es) (drop ?p ?ys)"
      "0 < ?p \<Longrightarrow> ae_PrevLogTerm args = le_Term (?ys ! (?p - 1))"
    using pc by (simp_all add: piece_def Let_def)
  have wf: "wf_log (plain_log xs)"
    using traced_good [OF ok(1) tr] ok(2) by (intro wf_plain_log) simp_all
  have prev: "?p \<le> length xs" "0 < ?p \<Longrightarrow> le_Term (xs ! (?p - 1)) = le_Term (?ys ! (?p - 1))"
  proof -
    show "?p \<le> length xs" using prev_ok_top [OF pv] by simp
    assume pos: "0 < ?p"
    then obtain e where "log_map (plain_log xs) ?p = Some e" "le_Term e = ae_PrevLogTerm args"
      using pv unfolding prev_ok_def by (metis less_numeral_extra(3) unat_0)
    then show "le_Term (xs ! (?p - 1)) = le_Term (?ys ! (?p - 1))"
      using pos p(3) by (simp add: log_map_plain split: if_splits)
  qed
  have ys: "traced H ?ys" "good_entries ?ys" "length ?ys + 1 < 2 ^ 64"
    using ro ok(2) by (simp_all add: reign_ok_def)
  from merge_traced [OF wf tr ys p(1,2) prev] show ?thesis
  proof
    assume "merge_entries (plain_log xs) ?es = plain_log (take (?p + length ?es) ?ys)
      \<and> (\<forall>i. i \<le> length ?ys \<longrightarrow> take i xs = take i ?ys \<longrightarrow> i \<le> ?p + length ?es)"
    then show ?thesis using p(1) by (intro exI [of _ "take (?p + length ?es) ?ys"]) (auto simp: taken_over_def min_def)
  qed (use p(1) in \<open>auto simp: taken_over_def\<close>)
qed

text \<open>The node that accepts a request.\<close>

lemma accepted_log_inv:
  assumes ok: "hist_ok (majority_set ms) k H" and r: "h_reign H t = Some r"
    and li: "log_inv_of ms H v n xs" and t: "currentTerm n \<le> t" "currentTerm n' = t" "nstate n' \<noteq> Leader"
    and to: "taken_over m (rg_log r) xs xs'"
    and c: "commitIndex n' = commitIndex n \<or> unat (commitIndex n') \<le> m \<and> commit_cert ms H t (rg_log r) (unat (commitIndex n'))"
  shows "log_inv_of ms (record_ack t v m H) v n' xs'"
proof -
  let ?H = "record_ack t v m H" and ?c = "unat (commitIndex n')"
  note l = li [unfolded log_inv_of_def]
  have ro: "prefix (rg_base r) (rg_log r)" "traced H (rg_log r)" "\<forall>e \<in> set (rg_log r). le_Term e \<le> t"
    using hist_ok_reign [OF ok r] reign_terms by (auto simp: reign_ok_def)
  have xs': "xs' = xs \<or> xs' = take m (rg_log r)" using to by (simp add: taken_over_def)
  have "traced H xs'" using xs' l ro(2) traced_take by blast
  then have "traced ?H xs'" by (rule traced_extends [rotated]) simp
  moreover have "\<forall>e \<in> set xs'. le_Term e \<le> currentTerm n'"
    using xs' l ro(3) t by (auto dest: in_set_takeD intro: order_trans)
  moreover have "keeps_acks ?H v (currentTerm n') xs'"
    unfolding keeps_acks_def
  proof (intro allI impI)
    fix u i assume "acked ?H u v i"
    then consider "acked H u v i" | "u = t" "i \<le> m" by auto
    then show "u \<le> currentTerm n' \<and> (matches ?H u i xs' \<or> lost_to ?H u (currentTerm n') i)"
    proof cases
      case 1
      then have u: "u \<le> currentTerm n" "matches H u i xs \<or> lost_to H u (currentTerm n) i"
        using l by (auto simp: keeps_acks_def)
      have "matches H u i xs' \<or> lost_to H u t i"
      proof (cases "lost_to H u (currentTerm n) i")
        case True
        then show ?thesis using lost_to_mono [OF _ t(1)] by blast
      next
        case False
        then have m: "matches H u i xs" using u(2) by simp
        show ?thesis
        proof (cases "u = t \<or> matches H u i (rg_base r)")
          case True
          then show ?thesis using taken_over_matches [OF to r ro(1) m] by simp
        next
          case False
          then have "u < t" using order_trans [OF u(1) t(1)] by (simp add: order_le_less)
          then have "lost_to H u t i" using r False unfolding lost_to_def by blast
          then show ?thesis by simp
        qed
      qed
      then show ?thesis using u(1) t by (auto intro: order_trans)
    next
      case 2
      then have "matches H t i xs'"
        using to r by (auto simp: matches_def taken_over_def) (metis min.absorb1 take_take)
      then show ?thesis using 2 t by simp
    qed
  qed
  moreover have "commit_cert ms ?H (currentTerm n') xs' ?c"
  proof (rule commit_cert_extends [of H])
    show "commit_cert ms H (currentTerm n') xs' ?c"
      using c
    proof
      assume same: "commitIndex n' = commitIndex n"
      show ?thesis
      proof (cases "?c = 0")
        case False
        then obtain u i where u: "chosen (majority_set ms) H u i" "?c \<le> i" "u \<le> currentTerm n" "matches H u ?c xs"
          using l same by (auto simp: commit_cert_def)
        have "u = t \<or> matches H u ?c (rg_base r)"
          using nodes.chosen_in_later_reigns [OF ok u(1) _ r] matches_le [OF _ u(2)] u(3) t(1) by fastforce
        then have "matches H u ?c xs'" by (rule taken_over_matches [OF to r ro(1) u(4)])
        then show ?thesis using u t order_trans unfolding commit_cert_def by blast
      qed (simp add: commit_cert_def)
    next
      assume new: "?c \<le> m \<and> commit_cert ms H t (rg_log r) ?c"
      then have "take ?c xs' = take ?c (rg_log r)"
        using to unfolding taken_over_def by (metis min.absorb1 take_take)
      then show ?thesis using new t matches_cong [of ?c xs' "rg_log r" H] by (simp add: commit_cert_def)
    qed
  qed simp
  ultimately show ?thesis using t(3) by (simp add: log_inv_of_def)
qed

text \<open>The node after it accepted a request, and after it refused one.\<close>

lemma accept_node_inv:
  assumes ok: "hist_ok (majority_set ms) k H" "k + 1 < 2 ^ 64" and n: "node_inv ms H v n" and req: "append_ok ms H a v t args"
    and suc: "aer_Success (fst (HandleAppendEntries now args n))"
  defines "m \<equiv> unat (ae_PrevLogIndex args) + length (ae_Entries args)"
    and "n' \<equiv> snd (HandleAppendEntries now args n)"
  shows "node_inv ms (record_ack t v m H) v n' \<and> candidacy n n' \<and> currentTerm n' = t
     \<and> (\<exists>r. h_reign H t = Some r \<and> m \<le> length (rg_log r))"
proof -
  obtain xs where xs: "rlog n = plain_log xs" "log_inv_of ms H v n xs" "wf_log (rlog n)"
    using node_inv_wf [OF ok n] by metis
  obtain r where at: "a \<noteq> v" "ae_Term args = t" and r: "h_reign H t = Some r" "rg_leader r = a"
      and pc0: "ae_PrevLogIndex args \<noteq> 0 \<and> ae_PrevLogTerm args = 0 \<or> piece ms H t (rg_log r) args"
    using req unfolding append_ok_def by blast
  have ge: "\<not> t < currentTerm n" and pv: "prev_ok args (plain_log xs)"
    using suc HandleAppendEntries_success_iff [OF xs(3), of now args] at(2) xs(1) by simp_all
  have pc: "piece ms H t (rg_log r) args"
    using pc0 pv log_map_term_nonzero [OF xs(3)] unat_pos_u64 [of "ae_PrevLogIndex args"] xs(1) unfolding prev_ok_def by metis
  obtain xs' where xs': "merge_entries (plain_log xs) (ae_Entries args) = plain_log xs'" "taken_over m (rg_log r) xs xs'"
    using taken_over_merge [OF ok r(1) _ pc pv] xs(2) unfolding m_def log_inv_of_def by blast
  let ?m = "(ae_follower now args n)\<lparr>rlog := plain_log xs'\<rparr>"
  obtain h where n': "n' = (persist (follow_commit (ae_LeaderCommit args) ?m))\<lparr>heartbeatsRecv := h\<rparr>"
    using HandleAppendEntries_accepted [OF xs(3) suc] xs(1) xs'(1) unfolding n'_def by auto
  have len: "m \<le> length xs'" "m \<le> length (rg_log r)" using xs'(2) by (simp_all add: taken_over_def)
  have lc: "unat (ae_LeaderCommit args) \<le> m" "commit_cert ms H t (rg_log r) (unat (ae_LeaderCommit args))"
    using pc by (simp_all add: piece_def Let_def m_def)
  have "xs' = xs \<or> xs' = take m (rg_log r)" using xs'(2) by (simp add: taken_over_def)
  then have "traced H xs'"
    using xs(2) hist_ok_reign [OF ok(1) r(1)] traced_take by (auto simp: log_inv_of_def reign_ok_def)
  then have wf': "wf_log (plain_log xs')" using traced_good [OF ok(1)] ok(2) by (intro wf_plain_log) force+
  have "unat (ae_LeaderCommit args) \<le> unat (lastIndex (plain_log xs'))"
    using lc(1) len(1) unat_lastIndex_plain [OF wf'] by simp
  then have com: "commitIndex n' = (if ae_LeaderCommit args > commitIndex n then ae_LeaderCommit args else commitIndex n)"
    by (simp add: n' min_def u64_nat)
  have tn: "currentTerm n' = t" "lastApplied n' = lastApplied n" "rlog n' = plain_log xs'" using ge at(2) by (simp_all add: n')
  have fol: "nstate n' = Follower"
  proof -
    have "\<not> (nstate n = Leader \<and> currentTerm n = t)" using xs(2) r at(1) by (auto simp: log_inv_of_def leads_def)
    then show ?thesis
      using ge at(2) by (cases "nstate n") (auto simp: n' ae_follower_def)
  qed
  have "log_inv_of ms (record_ack t v m H) v n' xs'"
    using tn(1) ge fol com lc by (intro accepted_log_inv [OF ok(1) r(1) xs(2) _ _ _ xs'(2)]) auto
  moreover have "log_saved n'"
  proof -
    have "log_saved (ae_follower now args n)"
      using quiet_ae_follower [of args n now] n ge at(2) by (simp add: quiet_def node_inv_def)
    then have "log_saved (persist (follow_commit (ae_LeaderCommit args) ?m))"
      by (intro log_saved_persist) (simp_all add: log_saved_def disk_works_def)
    then show ?thesis unfolding n' by (rule log_saved_cong [THEN iffD2, rotated 2]) simp_all
  qed
  moreover have "lastApplied n' \<le> commitIndex n'" using n tn(2) com by (auto simp: node_inv_def)
  ultimately have "node_inv ms (record_ack t v m H) v n'" using tn(3) fol unfolding node_inv_def by blast
  moreover have "candidacy n n'" using tn(1) ge fol by (simp add: candidacy_def)
  ultimately show ?thesis using tn(1) r(1) len(2) by blast
qed

lemma log_inv_deliver_append:
  assumes ci: "cl_inv ms cfgs k s" and inv: "log_inv ms cfgs k s H" and k: "k + 1 < 2 ^ 64"
    and i: "i < length (cl_calls s)" and c: "cl_calls s ! i = c" "call_status c = Waiting" "call_req c = AppendReq t args"
  shows "\<exists>H'. extends H H' \<and> log_inv ms cfgs k (step_deliver i now s) H'"
proof -
  let ?v = "call_to c" and ?s' = "step_deliver i now s"
  let ?h = "HandleAppendEntries now args (cl_nodes s (call_to c))"
  let ?n = "cl_nodes s ?v" and ?c' = "c\<lparr>call_status := Answered (AppendAns (fst ?h))\<rparr>"
  let ?m = "unat (ae_PrevLogIndex args) + length (ae_Entries args)"
  have mem: "c \<in> set (cl_calls s)" using nth_mem [OF i] c(1) by simp
  have v: "?v \<in> set ms" using ci mem unfolding cl_inv_def inv_calls_def call_ok_def by blast
  note n = log_invD(2) [OF inv v]
  have req: "append_ok ms H (call_from c) ?v t args" using log_invD(3) [OF inv mem] c(3) by (simp add: call_inv_def)
  have s': "cl_nodes ?s' = (cl_nodes s)(?v := snd ?h)" "cl_calls ?s' = (cl_calls s)[i := ?c']" "cl_grants ?s' = cl_grants s"
    using c by (simp_all add: step_deliver_def Let_def case_prod_beta)
  show ?thesis
  proof (cases "aer_Success (fst ?h)")
    case True
    let ?H = "record_ack t ?v ?m H"
    obtain r where acc: "node_inv ms ?H ?v (snd ?h)" "candidacy ?n (snd ?h)" "currentTerm (snd ?h) = t"
        and r: "h_reign H t = Some r" "?m \<le> length (rg_log r)"
      using accept_node_inv [OF log_invD(1) [OF inv] k n req True] by blast
    have le: "u \<le> t" if "(u, ?v, xs) \<in> h_votes H" for u xs
      using order_trans [OF log_invD(6) [OF inv that]] acc(2,3) by (simp add: candidacy_def)
    have ok: "hist_ok (majority_set ms) k ?H" by (rule hist_ok_record_ack [OF log_invD(1) [OF inv] r le])
    have "?m < 2 ^ 64" using r(2) hist_ok_reign [OF log_invD(1) [OF inv] r(1)] k by (simp add: reign_ok_def)
    moreover have "append_ok ms ?H (call_from c) ?v t args" by (rule append_ok_extends [OF _ req]) simp
    ultimately have call: "call_inv ms ?H (cl_nodes ?s') ?c'" using c(3) by (simp add: call_inv_def)
    have "log_inv ms cfgs k ?s' ?H"
    proof (rule log_inv_update [OF inv _ ok _ acc(1,2) s'(1)])
      show "(\<exists>c0 \<in> set (cl_calls s). same_call c0 x) \<or> call_inv ms ?H (cl_nodes ?s') x" if "x \<in> set (cl_calls ?s')" for x
        using answered_calls [OF that [unfolded s'(2)]] call by blast
    qed (auto simp: s')
    then show ?thesis by (intro exI [of _ ?H]) simp
  next
    case False
    have wfl: "wf_log (rlog ?n)" using node_inv_wf [OF log_invD(1) [OF inv] k n] by blast
    have call: "call_inv ms H (cl_nodes ?s') ?c'" using req c(3) False by (simp add: call_inv_def)
    have "log_inv ms cfgs k ?s' H"
    proof (rule log_inv_quiet [OF inv v quiet_append_failed [OF wfl False] s'(1,3)])
      show "(\<exists>c0 \<in> set (cl_calls s). same_call c0 x) \<or> call_inv ms H (cl_nodes ?s') x" if "x \<in> set (cl_calls ?s')" for x
        using answered_calls [OF that [unfolded s'(2)]] call by blast
    qed
    then show ?thesis by (rule log_inv_keep)
  qed
qed

lemma log_inv_deliver_install:
  assumes ci: "cl_inv ms cfgs k s" and inv: "log_inv ms cfgs k s H"
    and i: "i < length (cl_calls s)" and c: "cl_calls s ! i = c" "call_status c = Waiting" "call_req c = InstallReq t args"
  shows "log_inv ms cfgs k (step_deliver i now s) H"
proof -
  let ?v = "call_to c" and ?s' = "step_deliver i now s"
  let ?h = "HandleInstallSnapshot args (cl_nodes s (call_to c))"
  let ?c' = "c\<lparr>call_status := Answered (InstallAns (fst ?h))\<rparr>"
  have mem: "c \<in> set (cl_calls s)" using nth_mem [OF i] c(1) by simp
  have v: "?v \<in> set ms" using ci mem unfolding cl_inv_def inv_calls_def call_ok_def by blast
  have z: "is_LastIncludedIndex args = 0" using log_invD(3) [OF inv mem] c(3) by (simp add: call_inv_def)
  have s': "cl_nodes ?s' = (cl_nodes s)(?v := snd ?h)" "cl_calls ?s' = (cl_calls s)[i := ?c']" "cl_grants ?s' = cl_grants s"
    using c by (simp_all add: step_deliver_def Let_def case_prod_beta)
  show ?thesis
  proof (rule log_inv_quiet [OF inv v quiet_install [OF z] s'(1,3)])
    show "(\<exists>c0 \<in> set (cl_calls s). same_call c0 x) \<or> call_inv ms H (cl_nodes ?s') x" if "x \<in> set (cl_calls ?s')" for x
      using answered_calls [OF that [unfolded s'(2)]] z c(3) by (auto simp: call_inv_def)
  qed
qed

section \<open>Leaders\<close>

text \<open>The leader of term \<open>t\<close> has the log \<open>xs\<close>, and counts as having taken it over.\<close>

definition record_reign :: "u64 \<Rightarrow> Reign \<Rightarrow> History \<Rightarrow> History" where
  "record_reign t r H = H\<lparr>h_reign := (h_reign H)(t \<mapsto> r),
     h_acks := insert (t, rg_leader r, length (rg_log r)) (h_acks H)\<rparr>"

lemma record_reign_simps [simp]:
  "h_reign (record_reign t r H) = (h_reign H)(t \<mapsto> r)" "h_votes (record_reign t r H) = h_votes H"
  "h_acks (record_reign t r H) = insert (t, rg_leader r, length (rg_log r)) (h_acks H)"
  "acked (record_reign t r H) u w j \<longleftrightarrow> acked H u w j \<or> u = t \<and> w = rg_leader r \<and> j \<le> length (rg_log r)"
  "only_by (rg_leader r) H (record_reign t r H)"
  by (auto simp: record_reign_def only_by_def acked_def)

lemma extends_record_reign:
  "(\<And>q. h_reign H t = Some q \<Longrightarrow> rg_leader r = rg_leader q \<and> rg_base r = rg_base q \<and> prefix (rg_log q) (rg_log r)) \<Longrightarrow>
     extends H (record_reign t r H)"
  by (simp add: extends_def) auto

lemma hist_ok_record_reign:
  assumes ok: "hist_ok quorum k H" and e: "extends H (record_reign t r H)" and "k \<le> k'"
    and r: "reign_ok k' (record_reign t r H) t r" and el: "elected_by quorum H t (rg_base r)"
    and le: "\<And>u xs. (u, rg_leader r, xs) \<in> h_votes H \<Longrightarrow> u \<le> t"
  shows "hist_ok quorum k' (record_reign t r H)"
proof (rule hist_ok_extends [OF ok e assms(3)])
  show "reign_ok k' (record_reign t r H) u q \<and> elected_by quorum (record_reign t r H) u (rg_base q)"
    if "h_reign (record_reign t r H) u = Some q" "h_reign H u \<noteq> Some q" for u q
    using that r elected_by_extends [OF e el] by (auto split: if_splits)
qed (use le in auto)

lemma node_inv_leader:
  assumes ok: "hist_ok quorum k H" and e: "extends H (record_reign t r H)"
    and li: "log_inv_of ms H a n xs" and t: "currentTerm n = t" "rg_leader r = a"
    and n': "rlog n' = plain_log (rg_log r)" "currentTerm n' = t" "commitIndex n' = commitIndex n" "lastApplied n' = lastApplied n"
    and xs: "prefix xs (rg_log r)" "\<forall>e \<in> set (drop (length xs) (rg_log r)). le_Term e = t" "traced (record_reign t r H) (rg_log r)"
    and acks: "\<And>p. p \<in> set (peers n') \<Longrightarrow> go_read (matchIndex n') p \<noteq> 0 \<Longrightarrow> acked H t p (unat (go_read (matchIndex n') p))"
    and rest: "log_saved n'" "lastApplied n \<le> commitIndex n" "t \<noteq> 0"
  shows "node_inv ms (record_reign t r H) a n'"
proof -
  let ?H = "record_reign t r H" and ?ys = "rg_log r"
  note l = li [unfolded log_inv_of_def]
  have split: "?ys = xs @ drop (length xs) ?ys" using xs(1) by (auto simp: prefix_def)
  have "\<forall>e \<in> set ?ys. le_Term e \<le> t"
  proof
    fix e assume "e \<in> set ?ys"
    then have "e \<in> set xs \<union> set (drop (length xs) ?ys)" using split by (metis set_append)
    then show "le_Term e \<le> t" using l t(1) xs(2) by auto
  qed
  moreover have "keeps_acks ?H a t ?ys"
    unfolding keeps_acks_def
  proof (intro allI impI)
    fix u i assume "acked ?H u a i"
    then consider "acked H u a i" | "u = t" "i \<le> length ?ys" by (auto split: if_splits)
    then show "u \<le> t \<and> (matches ?H u i ?ys \<or> lost_to ?H u t i)"
    proof cases
      case 1
      then have u: "u \<le> t" "matches H u i xs \<or> lost_to H u t i" using l t(1) by (auto simp: keeps_acks_def)
      obtain q where "h_reign H u = Some q" "i \<le> length (rg_log q)" using hist_ok_ack [OF ok 1] by blast
      then show ?thesis
        using u matches_prefix [OF matches_extends [OF e] xs(1)] lost_to_extends [OF e] by blast
    next
      case 2
      then show ?thesis by (simp add: matches_def)
    qed
  qed
  moreover have "commit_cert ms ?H t ?ys (unat (commitIndex n'))"
    using commit_cert_prefix [OF commit_cert_extends [OF e] xs(1)] l t(1) n'(3) by simp
  moreover have "leads ?H a n' ?ys"
    using t n'(2) acks by (simp add: leads_def)
  ultimately have "log_inv_of ms ?H a n' ?ys" using xs(3) n'(2) by (simp add: log_inv_of_def)
  then show ?thesis using n' rest unfolding node_inv_def by auto
qed

text \<open>A candidate with a majority of votes becomes leader; it is the first of its term.\<close>

lemma win_history:
  assumes wf: "wf_config ms cfgs" and ci: "cl_inv ms cfgs k s" and inv: "log_inv ms cfgs k s H" and a: "a \<in> set ms"
    and cand: "nstate (cl_nodes s a) = Candidate" and el: "elected ms cfgs s a (currentTerm (cl_nodes s a))"
    and xs: "rlog (cl_nodes s a) = plain_log xs"
  shows "h_reign H (currentTerm (cl_nodes s a)) = None"
    and "elected_by (majority_set ms) H (currentTerm (cl_nodes s a)) xs"
proof -
  let ?t = "currentTerm (cl_nodes s a)"
  show none: "h_reign H ?t = None"
  proof (rule ccontr)
    assume "h_reign H ?t \<noteq> None"
    then obtain r where r: "h_reign H ?t = Some r" by blast
    have ri: "reign_inv ms cfgs s ?t r" by (rule log_invD(5) [OF inv r])
    then have "rg_leader r = a" using elected_unique [OF wf ci _ a _ el] by (simp add: reign_inv_def)
    then show False using ri cand by (simp add: reign_inv_def)
  qed
  obtain Q where Q: "majority_set ms Q" "\<forall>v \<in> Q. (?t, v, cfg_ID (cfgs a)) \<in> set (cl_grants s)"
    using el unfolding elected_def by blast
  have "\<exists>ys. (?t, v, ys) \<in> h_votes H \<and> up_to_date xs ys" if v: "v \<in> Q" for v
  proof -
    have "grant_inv ms cfgs H (cl_nodes s) (?t, v, cfg_ID (cfgs a))" using Q(2) v log_invD(4) [OF inv] by blast
    then obtain b where b: "b \<in> set ms" "cfg_ID (cfgs a) = cfg_ID (cfgs b)"
        and up: "nstate (cl_nodes s b) = Candidate \<longrightarrow> currentTerm (cl_nodes s b) = ?t \<longrightarrow> h_reign H ?t = None \<longrightarrow>
          (\<exists>xs ys. (?t, v, ys) \<in> h_votes H \<and> rlog (cl_nodes s b) = plain_log xs \<and> up_to_date xs ys)"
      unfolding grant_inv_def prod.case by (elim bexE conjE) (erule (1) that)
    have "b = a" using b a wf by (auto simp: wf_config_def dest: inj_onD)
    then show ?thesis using up cand none xs by auto
  qed
  then show "elected_by (majority_set ms) H ?t xs" using Q(1) unfolding elected_by_def by blast
qed

lemma startElection_reply_quiet:
  "quiet n (snd (startElection_reply now r el n))
     \<or> nstate n = Candidate \<and> snd (startElection_reply now r el n) = becomeLeader now n"
  using quiet_follower [of n "rvr_Term r"] by (simp add: startElection_reply_def Let_def)

lemma log_saved_becomeLeader: "log_saved (becomeLeader now n) = log_saved n"
  by (rule log_saved_cong) simp_all

lemma log_inv_win:
  assumes wf: "wf_config ms cfgs" and ci: "cl_inv ms cfgs k s" and inv: "log_inv ms cfgs k s H" and a: "a \<in> set ms"
    and cand: "nstate (cl_nodes s a) = Candidate" and el: "elected ms cfgs s a (currentTerm (cl_nodes s a))"
    and s': "cl_nodes s' = (cl_nodes s)(a := becomeLeader now (cl_nodes s a))" "cl_grants s' = cl_grants s"
      "\<And>c. c \<in> set (cl_calls s') \<Longrightarrow> \<exists>c0 \<in> set (cl_calls s). same_call c0 c"
  shows "\<exists>H'. extends H H' \<and> log_inv ms cfgs k s' H'"
proof -
  let ?n = "cl_nodes s a" and ?n' = "becomeLeader now (cl_nodes s a)"
  let ?t = "currentTerm ?n"
  note n = log_invD(2) [OF inv a]
  obtain xs where xs: "rlog ?n = plain_log xs" "log_inv_of ms H a ?n xs" using n unfolding node_inv_def by blast
  note w = win_history [OF wf ci inv a cand el xs(1)]
  let ?r = "\<lparr>rg_leader = a, rg_base = xs, rg_log = xs\<rparr>"
  let ?H = "record_reign ?t ?r H"
  have e: "extends H ?H" by (rule extends_record_reign) (simp add: w(1))
  have tr: "traced H xs" "traced ?H xs" using xs(2) traced_extends [OF e] by (simp_all add: log_inv_of_def)
  have "le_Term x < ?t" if x: "x \<in> set xs" for x
  proof -
    have "h_reign H (le_Term x) \<noteq> None" using x tr(1) unfolding traced_def in_set_conv_nth by blast
    then have "le_Term x \<noteq> ?t" using w(1) by auto
    moreover have "le_Term x \<le> ?t" using x xs(2) by (simp add: log_inv_of_def)
    ultimately show ?thesis by (simp add: order_le_less)
  qed
  then have ro: "reign_ok k ?H ?t ?r" using tr(2) traced_good [OF log_invD(1) [OF inv] tr(1)] by (simp add: reign_ok_def)
  have ok: "hist_ok (majority_set ms) k ?H"
    by (rule hist_ok_record_reign [OF log_invD(1) [OF inv] e order_refl ro]) (use w(2) log_invD(6) [OF inv] in auto)
  have node: "node_inv ms ?H a ?n'"
  proof (rule node_inv_leader [OF log_invD(1) [OF inv] e xs(2)])
    show "acked H ?t p (unat (go_read (matchIndex ?n') p))" if "p \<in> set (peers ?n')" "go_read (matchIndex ?n') p \<noteq> 0" for p
      using that becomeLeader_indices(2) [of now ?n p] by (simp add: go_read_def)
  qed (use xs(1) n cand tr(2) in \<open>simp_all add: node_inv_def log_saved_becomeLeader\<close>)
  have "log_inv ms cfgs k s' ?H"
  proof (rule log_inv_update [OF inv e ok _ node _ s'(1)])
    show "reign_inv ms cfgs s' t r" if "h_reign ?H t = Some r" "h_reign H t = None" for t r
      using that a el elected_cong [OF s'(2), of ms cfgs] by (auto simp: reign_inv_def s'(1) split: if_splits)
  qed (use record_reign_simps(5) [of ?r H ?t] in \<open>auto simp: s'(2,3) candidacy_def\<close>)
  then show ?thesis using e by blast
qed

lemma log_inv_process_vote:
  assumes wf: "wf_config ms cfgs" and ci: "cl_inv ms cfgs k s" and inv: "log_inv ms cfgs k s H" and i: "i < length (cl_calls s)"
    and c: "cl_calls s ! i = c" "call_req c = VoteReq e args" "call_status c = Answered (VoteAns r)" "call_live c"
  shows "\<exists>H'. extends H H' \<and> log_inv ms cfgs k (step_process i now s) H'"
proof -
  let ?a = "call_from c" and ?s' = "step_process i now s"
  let ?rp = "startElection_reply now r (snd (cl_elections s ! e)) (cl_nodes s (call_from c))"
  have mem: "c \<in> set (cl_calls s)" using nth_mem [OF i] c(1) by simp
  have a: "?a \<in> set ms" using ci mem unfolding cl_inv_def inv_calls_def call_ok_def by blast
  have s': "cl_nodes ?s' = (cl_nodes s)(?a := snd ?rp)" "cl_grants ?s' = cl_grants s"
      "cl_calls ?s' = (cl_calls s)[i := (cl_calls s ! i)\<lparr>call_status := Finished\<rparr>]"
    using c by (simp_all add: step_process_def Let_def case_prod_beta)
  have same: "\<exists>c0 \<in> set (cl_calls s). same_call c0 x" if "x \<in> set (cl_calls ?s')" for x
    using that unfolding s'(3) by (rule same_call_update)
  consider "quiet (cl_nodes s ?a) (snd ?rp)" | "nstate (cl_nodes s ?a) = Candidate" "snd ?rp = becomeLeader now (cl_nodes s ?a)"
    using startElection_reply_quiet by blast
  then show ?thesis
  proof cases
    case 1
    have "log_inv ms cfgs k ?s' H" by (rule log_inv_quiet [OF inv a 1 s'(1,2)]) (use same in blast)
    then show ?thesis by (rule log_inv_keep)
  next
    case 2
    have "cl_inv ms cfgs k ?s'" by (rule cl_inv_process [OF wf ci i])
    then have "elected ms cfgs ?s' ?a (currentTerm (cl_nodes s ?a))"
      using a 2(2) s'(1) unfolding cl_inv_def inv_roles_def by fastforce
    then have "elected ms cfgs s ?a (currentTerm (cl_nodes s ?a))"
      using elected_cong [OF s'(2), of ms cfgs] by simp
    then show ?thesis by (rule log_inv_win [OF wf ci inv a 2(1) _ s'(1) [unfolded 2(2)] s'(2) same])
  qed
qed

lemma traced_snoc:
  assumes "traced H xs" "h_reign H (le_Term e) = Some r" "rg_log r = xs @ [e]"
  shows "traced H (xs @ [e])"
  unfolding traced_def
proof (intro allI impI)
  fix i assume "i < length (xs @ [e])"
  then consider "i < length xs" | "i = length xs" by fastforce
  then show "\<exists>r. h_reign H (le_Term ((xs @ [e]) ! i)) = Some r \<and> take (Suc i) (xs @ [e]) = take (Suc i) (rg_log r)"
  proof cases
    case 1
    then show ?thesis using assms(1) unfolding traced_def by (simp add: nth_append)
  next
    case 2
    then show ?thesis using assms(2,3) by (simp add: nth_append)
  qed
qed

lemma good_entries_snoc:
  "good_entries xs \<Longrightarrow> unat (le_Index e) = Suc (length xs) \<Longrightarrow> le_Term e \<noteq> 0 \<Longrightarrow> good_entries (xs @ [e])"
  by (auto simp: good_entries_def nth_append less_Suc_eq)

lemma log_inv_submit:
  assumes wf: "wf_config ms cfgs" and ci: "cl_inv ms cfgs k s" and inv: "log_inv ms cfgs k s H" and k: "k + 2 < 2 ^ 64"
    and a: "a \<in> set ms"
  shows "\<exists>H'. extends H H' \<and> log_inv ms cfgs (Suc k) (step_submit a command s) H'"
proof (cases "nstate (cl_nodes s a) = Leader")
  case False
  then have "step_submit a command s = s" by (simp add: step_submit_def Submit_def add_calls_def set_node_def)
  then show ?thesis using log_inv_keep [OF log_inv_mono [OF inv]] by simp
next
  case True
  let ?n = "cl_nodes s a" and ?s' = "step_submit a command s"
  let ?t = "currentTerm ?n"
  have k1: "k + 1 < 2 ^ 64" "Suc k + 1 < 2 ^ 64" using k by simp_all
  note n = log_invD(2) [OF inv a]
  obtain xs where xs: "rlog ?n = plain_log xs" "log_inv_of ms H a ?n xs" "wf_log (rlog ?n)" "good_entries xs" "length xs \<le> k"
    using node_inv_wf [OF log_invD(1) [OF inv] k1(1) n] by metis
  obtain q where q: "h_reign H ?t = Some q" "rg_leader q = a" "rg_log q = xs"
      and ld: "\<forall>p \<in> set (peers ?n). go_read (matchIndex ?n) p \<noteq> 0 \<longrightarrow> acked H ?t p (unat (go_read (matchIndex ?n) p))"
    using xs(2) True unfolding log_inv_of_def leads_def by blast
  define x where "x = zero_entry\<lparr>le_Term := ?t, le_Index := lastIndex (rlog ?n) + 1, le_Command := command\<rparr>"
  define n' where "n' = persist (?n\<lparr>rlog := log_append (rlog ?n) [x]\<rparr>)"
  have x: "le_Term x = ?t" "unat (le_Index x) = Suc (length xs)" "?t \<noteq> 0"
    using lastIndex_plus1 [OF xs(3)] xs(1) n True by (simp_all add: x_def node_inv_def)
  have n': "rlog n' = plain_log (xs @ [x])" "currentTerm n' = ?t" "nstate n' = Leader" "peers n' = peers ?n"
      "matchIndex n' = matchIndex ?n" "commitIndex n' = commitIndex ?n" "lastApplied n' = lastApplied ?n"
    using xs(1) True by (simp_all add: n'_def)
  let ?r = "q\<lparr>rg_log := xs @ [x]\<rparr>"
  let ?H = "record_reign ?t ?r H"
  have e: "extends H ?H" by (rule extends_record_reign) (use q in simp)
  have qo: "reign_ok k H ?t q" "elected_by (majority_set ms) H ?t (rg_base q)"
    using log_invD(1) [OF inv] q(1) by (simp_all add: hist_ok_def)
  have tr: "traced ?H (xs @ [x])"
    using traced_extends [OF e, of xs] xs(2) x(1) by (intro traced_snoc [of _ _ _ ?r]) (simp_all add: log_inv_of_def)
  have ro: "reign_ok (Suc k) ?H ?t ?r"
    using qo(1) q(3) tr good_entries_snoc [OF xs(4) x(2)] x xs(5)
    by (auto simp: reign_ok_def prefix_def)
  have ok: "hist_ok (majority_set ms) (Suc k) ?H"
    by (rule hist_ok_record_reign [OF log_invD(1) [OF inv] e _ ro]) (use qo(2) log_invD(6) [OF inv] q(2) in auto)
  have "log_saved n'"
    using n unfolding n'_def node_inv_def by (intro log_saved_persist) (simp_all add: log_saved_def disk_works_def)
  then have node: "node_inv ms ?H a n'"
    by (intro node_inv_leader [OF log_invD(1) [OF inv] e xs(2)]) (use q(2) n' x tr ld n in \<open>simp_all add: node_inv_def\<close>)
  have s': "cl_nodes ?s' = (cl_nodes s)(a := n')" "cl_grants ?s' = cl_grants s"
      "cl_calls ?s' = cl_calls s @ map (spawn_call a) (map (replicate_to n') (peers n'))"
    using True by (simp_all add: step_submit_def Submit_def Let_def n'_def x_def)
  have p: "a \<notin> set (peers n')" using peers_others [OF wf ci a] n'(4) by simp
  have "log_inv ms cfgs (Suc k) ?s' ?H"
  proof (rule log_inv_update [OF inv e ok _ node _ s'(1)])
    show "only_by a H ?H" using record_reign_simps(5) [of ?r H ?t] q(2) by simp
    show "(\<exists>c0 \<in> set (cl_calls s). same_call c0 c) \<or> call_inv ms ?H (cl_nodes ?s') c" if "c \<in> set (cl_calls ?s')" for c
      using that sends_inv [OF ok k1(2) node n'(3) p] same_call_mem [of c "set (cl_calls s)"] unfolding s'(3) set_append by blast
  qed (use n' q in \<open>auto simp: s'(2) candidacy_def split: if_splits\<close>)
  then show ?thesis using e by blast
qed

section \<open>Committing\<close>

text \<open>The members that hold the log up to \<open>i\<close>, for all the leader knows.\<close>

lemma replicas_majority:
  assumes "is_majority n (replicas n i)" "distinct (peers n)" "a \<notin> set (peers n)" "set ms = insert a (set (peers n))" "distinct ms"
  shows "majority_set ms ({p \<in> set (peers n). i \<le> go_read (matchIndex n) p} \<union> {p. p = a \<and> i \<le> lastIndex (rlog n)})"
proof -
  let ?P = "{p \<in> set (peers n). i \<le> go_read (matchIndex n) p}" and ?S = "{p. p = a \<and> i \<le> lastIndex (rlog n)}"
  have "length (filter (\<lambda>p. i \<le> go_read (matchIndex n) p) (peers n)) = card ?P"
    using distinct_card [OF distinct_filter [OF assms(2)], of "\<lambda>p. i \<le> go_read (matchIndex n) p"] by simp
  moreover have S: "?S = (if i \<le> lastIndex (rlog n) then {a} else {})" by auto
  ultimately have "replicas n i = card ?P + card ?S" by (simp add: replicas_def filter_map o_def)
  moreover have "card (?P \<union> ?S) = card ?P + card ?S" using assms(3) S by (intro card_Un_disjoint) auto
  moreover have "length ms = length (peers n) + 1"
    using distinct_card [OF assms(5)] distinct_card [OF assms(2)] assms(3,4) by simp
  ultimately show ?thesis using assms(1,4) by (auto simp: majority_set_def is_majority_def)
qed

lemma maybeCommit_cert:
  assumes wfl: "wf_log (rlog n)" and xs: "rlog n = plain_log xs" and l: "leads H a n xs" and t: "currentTerm n \<noteq> 0"
    and p: "distinct (peers n)" "a \<notin> set (peers n)" "set ms = insert a (set (peers n))" "distinct ms"
    and old: "commit_cert ms H (currentTerm n) xs (unat (commitIndex n))"
  shows "commit_cert ms H (currentTerm n) xs (unat (commitIndex (maybeCommit n)))"
proof (cases "commitIndex (maybeCommit n) = commitIndex n")
  case False
  let ?i = "commitIndex (maybeCommit n)" and ?t = "currentTerm n"
  let ?Q = "{p \<in> set (peers n). ?i \<le> go_read (matchIndex n) p} \<union> {p. p = a \<and> ?i \<le> lastIndex (rlog n)}"
  have q: "?i = quorum_index n" "le_Term (log_get (rlog n) ?i) = ?t"
    using False by (auto simp: maybeCommit_def Let_def split: if_splits)
  have i: "0 < unat ?i" "unat ?i \<le> length xs" "le_Term (xs ! (unat ?i - 1)) = ?t"
    using q(2) t wfl unfolding xs by (auto simp: log_get_map log_map_plain zero_entry_def split: if_splits)
  have nz: "?i \<noteq> 0" using i(1) by (simp add: unat_gt_0)
  have "majority_set ms ?Q"
    using replicas_majority [OF _ p] quorum_index_majority(1) [of n] q(1) by simp
  moreover have "acked H ?t v (unat ?i)" if v: "v \<in> ?Q" for v
  proof (cases "v = a")
    case True
    have le: "unat ?i \<le> length xs" by (rule i(2))
    show ?thesis using l True le unfolding leads_def acked_def by (meson order_trans)
  next
    case v': False
    then have m: "?i \<le> go_read (matchIndex n) v" "v \<in> set (peers n)" using v by auto
    then have "go_read (matchIndex n) v \<noteq> 0" using nz by auto
    then have "acked H ?t v (unat (go_read (matchIndex n) v))" using l m(2) unfolding leads_def by blast
    then show ?thesis using m(1) unfolding acked_def word_le_nat_alt by (meson order_trans)
  qed
  ultimately have "chosen (majority_set ms) H ?t (unat ?i)"
    using l i unfolding chosen_def leads_def by blast
  moreover have "matches H ?t (unat ?i) xs" using l i(2) by (auto simp: leads_def matches_def)
  ultimately show ?thesis unfolding commit_cert_def by blast
qed (use old in simp)

lemma maybeCommit_ge: "commitIndex n \<le> commitIndex (maybeCommit n)"
  by (auto simp: maybeCommit_def Let_def)

lemma reply_node_inv:
  assumes ok: "hist_ok (majority_set ms) k H" "k + 1 < 2 ^ 64" and n: "node_inv ms H a n"
    and p: "distinct (peers n)" "a \<notin> set (peers n)" "set ms = insert a (set (peers n))" "distinct ms"
    and now: "nstate n = Leader" "currentTerm n = t" "\<not> aer_Term r > currentTerm n" "aer_Success r"
    and ack: "acked H t b (unat (ae_PrevLogIndex args) + length (ae_Entries args))"
      "unat (ae_PrevLogIndex args) + length (ae_Entries args) < 2 ^ 64"
  shows "node_inv ms H a (sendToPeer_reply tm b t args r n) \<and> candidacy n (sendToPeer_reply tm b t args r n)"
proof -
  obtain xs where xs: "rlog n = plain_log xs" "log_inv_of ms H a n xs" "wf_log (rlog n)"
    using node_inv_wf [OF ok n] by metis
  note l = xs(2) [unfolded log_inv_of_def]
  let ?new = "ae_PrevLogIndex args + u64_len (ae_Entries args)"
  have new: "unat ?new = unat (ae_PrevLogIndex args) + length (ae_Entries args)"
    using ack(2) by (simp add: u64_len_def unat_plus_if' unat_of_nat_u64)
  obtain m where m: "sendToPeer_reply tm b t args r n = maybeCommit m"
      and f: "rlog m = rlog n" "currentTerm m = t" "nstate m = Leader" "peers m = peers n" "commitIndex m = commitIndex n"
        "lastApplied m = lastApplied n" "disk m = disk n"
        "\<And>q. go_read (matchIndex m) q = go_read (matchIndex n) q \<or> q = b \<and> go_read (matchIndex m) q = ?new"
    using now by (simp add: sendToPeer_reply_def Let_def)
  have "leads H a n xs" using l now(1) by blast
  then have ld: "leads H a m xs"
    using f(2,4,8) now(2) ack(1) new unfolding leads_def by metis
  have tz: "currentTerm m \<noteq> 0" using n now f(2) by (simp add: node_inv_def)
  have "commit_cert ms H (currentTerm m) xs (unat (commitIndex (maybeCommit m)))"
    by (rule maybeCommit_cert [OF _ _ ld tz]) (use xs f l now(2) p in auto)
  moreover have "leads H a (maybeCommit m) xs" using ld by (simp add: leads_def)
  ultimately have "log_inv_of ms H a (maybeCommit m) xs"
    using l f(2) now(2) by (simp add: log_inv_of_def)
  moreover have "log_saved (maybeCommit m)" using n f log_saved_cong [of "maybeCommit m" n] by (simp add: node_inv_def)
  moreover have "lastApplied n \<le> commitIndex (maybeCommit m)"
    using n f(5) maybeCommit_ge [of m] by (auto simp: node_inv_def intro: order_trans)
  ultimately have "node_inv ms H a (maybeCommit m)" using xs(1) f tz unfolding node_inv_def by auto
  then show ?thesis using m f(2,3) now(2) by (simp add: candidacy_def)
qed

lemma log_inv_process_append:
  assumes wf: "wf_config ms cfgs" and ci: "cl_inv ms cfgs k s" and inv: "log_inv ms cfgs k s H" and k: "k + 1 < 2 ^ 64"
    and i: "i < length (cl_calls s)"
    and c: "cl_calls s ! i = c" "call_req c = AppendReq t args" "call_status c = Answered (AppendAns r)" "call_live c"
  shows "log_inv ms cfgs k (step_process i now s) H"
proof -
  let ?a = "call_from c" and ?s' = "step_process i now s"
  let ?n = "cl_nodes s ?a"
  let ?n' = "sendToPeer_reply now (call_to c) t args r ?n"
  have mem: "c \<in> set (cl_calls s)" using nth_mem [OF i] c(1) by simp
  have a: "?a \<in> set ms" using ci mem unfolding cl_inv_def inv_calls_def call_ok_def by blast
  have s': "cl_nodes ?s' = (cl_nodes s)(?a := ?n')" "cl_grants ?s' = cl_grants s"
      "cl_calls ?s' = (cl_calls s)[i := (cl_calls s ! i)\<lparr>call_status := Finished\<rparr>]"
    using c by (simp_all add: step_process_def Let_def)
  have same: "\<exists>c0 \<in> set (cl_calls s). same_call c0 x" if "x \<in> set (cl_calls ?s')" for x
    using that unfolding s'(3) by (rule same_call_update)
  show ?thesis
  proof (cases "nstate ?n = Leader \<and> currentTerm ?n = t \<and> \<not> aer_Term r > currentTerm ?n \<and> aer_Success r")
    case True
    have "peers ?n = cfg_Peers (cfgs ?a)" using node_okD [OF ci a] by (simp add: node_ok_def)
    then have p: "distinct (peers ?n)" "?a \<notin> set (peers ?n)" "set ms = insert ?a (set (peers ?n))" "distinct ms"
      using wf a by (auto simp: wf_config_def)
    have ack: "acked H t (call_to c) (unat (ae_PrevLogIndex args) + length (ae_Entries args))"
        "unat (ae_PrevLogIndex args) + length (ae_Entries args) < 2 ^ 64"
      using log_invD(3) [OF inv mem] c(2,3) True by (simp_all add: call_inv_def)
    have now: "nstate ?n = Leader" "currentTerm ?n = t" "\<not> aer_Term r > currentTerm ?n" "aer_Success r"
      using True by blast+
    have nn: "node_inv ms H ?a ?n'" "candidacy ?n ?n'"
      using reply_node_inv [OF log_invD(1) [OF inv] k log_invD(2) [OF inv a] p now ack] by blast+
    show ?thesis
      by (rule log_inv_update [OF inv extends_refl log_invD(1) [OF inv] only_by_refl nn s'(1)]) (use s'(2) same in auto)
  next
    case False
    then have "quiet ?n ?n'" by (intro quiet_reply_failed) blast
    then show ?thesis by (rule log_inv_quiet [OF inv a _ s'(1,2)]) (use same in blast)
  qed
qed

lemma log_inv_process_install:
  assumes ci: "cl_inv ms cfgs k s" and inv: "log_inv ms cfgs k s H" and i: "i < length (cl_calls s)"
    and c: "cl_calls s ! i = c" "call_req c = InstallReq t args" "call_status c = Answered (InstallAns r)" "call_live c"
  shows "log_inv ms cfgs k (step_process i now s) H"
proof -
  let ?a = "call_from c" and ?s' = "step_process i now s"
  let ?n' = "sendSnapshotToPeer_reply (call_to c) t args r (cl_nodes s (call_from c))"
  have mem: "c \<in> set (cl_calls s)" using nth_mem [OF i] c(1) by simp
  have a: "?a \<in> set ms" using ci mem unfolding cl_inv_def inv_calls_def call_ok_def by blast
  have z: "is_LastIncludedIndex args = 0" using log_invD(3) [OF inv mem] c(2) by (simp add: call_inv_def)
  have s': "cl_nodes ?s' = (cl_nodes s)(?a := ?n')" "cl_grants ?s' = cl_grants s"
      "cl_calls ?s' = (cl_calls s)[i := (cl_calls s ! i)\<lparr>call_status := Finished\<rparr>]"
    using c by (simp_all add: step_process_def Let_def)
  show ?thesis
    by (rule log_inv_quiet [OF inv a quiet_snapshot_reply [OF z] s'(1,2)]) (use same_call_update s'(3) in metis)
qed

section \<open>Runs\<close>

fun takes_snapshot :: "Label \<Rightarrow> bool" where
  "takes_snapshot (Compact a data) \<longleftrightarrow> True"
| "takes_snapshot _ \<longleftrightarrow> False"

lemma log_inv_deliver:
  assumes wf: "wf_config ms cfgs" and ci: "cl_inv ms cfgs k s" and inv: "log_inv ms cfgs k s H" and k: "k + 1 < 2 ^ 64"
    and i: "i < length (cl_calls s)"
  shows "\<exists>H'. extends H H' \<and> log_inv ms cfgs k (step_deliver i now s) H'"
proof (cases "call_status (cl_calls s ! i) = Waiting")
  case True
  show ?thesis
  proof (cases "call_req (cl_calls s ! i)")
    case (VoteReq e args)
    then show ?thesis by (rule log_inv_deliver_vote [OF wf ci inv k i refl True])
  next
    case (AppendReq t args)
    then show ?thesis by (rule log_inv_deliver_append [OF ci inv k i refl True])
  next
    case (InstallReq t args)
    then show ?thesis by (rule log_inv_keep [OF log_inv_deliver_install [OF ci inv i refl True]])
  qed
qed (use log_inv_keep [OF inv] in \<open>simp add: step_deliver_def Let_def\<close>)

lemma step_process_cases:
  fixes s :: Cluster and i :: nat
  defines "c \<equiv> cl_calls s ! i"
  obtains (vote) e args r where "call_req c = VoteReq e args" "call_status c = Answered (VoteAns r)" "call_live c"
  | (append) t args r where "call_req c = AppendReq t args" "call_status c = Answered (AppendAns r)" "call_live c"
  | (install) t args r where "call_req c = InstallReq t args" "call_status c = Answered (InstallAns r)" "call_live c"
  | (none) "step_process i now s = s"
proof -
  have "step_process i now s = s"
    if "\<nexists>e args r. call_req c = VoteReq e args \<and> call_status c = Answered (VoteAns r) \<and> call_live c"
      "\<nexists>t args r. call_req c = AppendReq t args \<and> call_status c = Answered (AppendAns r) \<and> call_live c"
      "\<nexists>t args r. call_req c = InstallReq t args \<and> call_status c = Answered (InstallAns r) \<and> call_live c"
    using that by (auto simp: step_process_def Let_def c_def split: bool.splits Request.splits Status.splits Answer.splits)
  then show ?thesis using vote append install none by blast
qed

lemma log_inv_process:
  assumes wf: "wf_config ms cfgs" and ci: "cl_inv ms cfgs k s" and inv: "log_inv ms cfgs k s H" and k: "k + 1 < 2 ^ 64"
    and i: "i < length (cl_calls s)"
  shows "\<exists>H'. extends H H' \<and> log_inv ms cfgs k (step_process i now s) H'"
proof (cases rule: step_process_cases [where s = s and i = i and now = now])
  case (vote e args r)
  then show ?thesis by (rule log_inv_process_vote [OF wf ci inv i refl])
next
  case (append t args r)
  then show ?thesis by (rule log_inv_keep [OF log_inv_process_append [OF wf ci inv k i refl]])
next
  case (install t args r)
  then show ?thesis by (rule log_inv_keep [OF log_inv_process_install [OF ci inv i refl]])
qed (use log_inv_keep [OF inv] in simp)

lemma log_inv_step:
  assumes wf: "wf_config ms cfgs" and ci: "cl_inv ms cfgs k s" and inv: "log_inv ms cfgs k s H" and k: "k + 2 < 2 ^ 64"
    and l: "\<not> steps_down l s" "\<not> takes_snapshot l"
  shows "\<exists>H'. extends H H' \<and> log_inv ms cfgs (Suc k) (cl_step l s) H'"
proof -
  have ms: "cl_members s = ms" using ci by (simp add: cl_inv_def inv_nodes_def)
  have k1: "k + 1 < 2 ^ 64" using k by simp
  have up: "\<exists>H'. extends H H' \<and> log_inv ms cfgs (Suc k) s' H'" if "\<exists>H'. extends H H' \<and> log_inv ms cfgs k s' H'" for s'
    using that log_inv_mono [of ms cfgs k s' _ "Suc k"] by auto
  note keep = up [OF log_inv_keep]
  show ?thesis
  proof (cases l)
    case (PreVoteWon a)
    then show ?thesis using up [OF log_inv_prevote_won [OF wf ci inv k1]] keep [OF inv] ms by simp
  next
    case (BeginElection a)
    then show ?thesis using keep [OF log_inv_begin [OF inv]] keep [OF inv] ms by simp
  next
    case (HeartbeatTick a now)
    then show ?thesis using keep [OF log_inv_tick [OF wf ci inv k1]] keep [OF inv] ms l(1) by simp
  next
    case (ClientSubmit a command)
    then show ?thesis using log_inv_submit [OF wf ci inv k] keep [OF inv] ms by simp
  next
    case (ApplyNext a)
    then show ?thesis using keep [OF log_inv_apply [OF inv]] keep [OF inv] ms by simp
  next
    case (Compact a data)
    then show ?thesis using l(2) by simp
  next
    case (Deliver i now)
    then show ?thesis using up [OF log_inv_deliver [OF wf ci inv k1]] keep [OF inv] by simp
  next
    case (Process i now)
    then show ?thesis using up [OF log_inv_process [OF wf ci inv k1]] keep [OF inv] by simp
  next
    case (Restart a)
    then show ?thesis using keep [OF log_inv_restart [OF ci inv]] keep [OF inv] ms by simp
  qed
qed

definition no_history :: History where
  "no_history = \<lparr>h_reign = Map.empty, h_votes = {}, h_acks = {}\<rparr>"

lemma log_inv_boot: "log_inv ms cfgs 0 (boot ms cfgs) no_history"
proof -
  have e: "h_reign no_history t = None" "h_votes no_history = {}" "\<not> acked no_history t v i" for t v i
    by (simp_all add: no_history_def acked_def)
  have d: "log_saved (NewRaftNode c fs_empty)" for c
    by (simp add: log_saved_def disk_works_def disk_ok_def NewRaftNode_def Let_def)
  have f: "rlog (NewRaftNode c fs_empty) = plain_log []" "nstate (NewRaftNode c fs_empty) = Follower"
      "commitIndex (NewRaftNode c fs_empty) = 0" "lastApplied (NewRaftNode c fs_empty) = 0" for c
    by (simp_all add: NewRaftNode_def Let_def newLog_plain)
  have "node_inv ms no_history a (NewRaftNode c fs_empty)" for a c
    using d [of c] f [of c] by (simp add: node_inv_def log_inv_of_def keeps_acks_def commit_cert_def e)
  moreover have "hist_ok (majority_set ms) 0 no_history" by (simp add: hist_ok_def e) (simp add: no_history_def)
  ultimately show ?thesis by (simp add: log_inv_def boot_def e)
qed

lemma log_inv_run:
  assumes "wf_config ms cfgs" "cl_inv ms cfgs k s" "log_inv ms cfgs k s H" "k + length labs + 1 < 2 ^ 64"
    and "steady labs s" "\<forall>l \<in> set labs. \<not> takes_snapshot l"
  shows "\<exists>H'. extends H H' \<and> log_inv ms cfgs (k + length labs) (cl_run labs s) H' \<and> cl_inv ms cfgs (k + length labs) (cl_run labs s)"
  using assms(2-)
proof (induction labs arbitrary: k s H)
  case Nil
  then show ?case by (auto simp: cl_run_def intro: exI [of _ H])
next
  case (Cons l labs)
  have st: "\<not> steps_down l s" "steady labs (cl_step l s)" "\<not> takes_snapshot l" "\<forall>x \<in> set labs. \<not> takes_snapshot x"
    using Cons.prems(4,5) by simp_all
  have k: "k + 2 < 2 ^ 64" "Suc k < 2 ^ 64" "Suc k + length labs + 1 < 2 ^ 64" using Cons.prems(3) by simp_all
  obtain H1 where H1: "extends H H1" "log_inv ms cfgs (Suc k) (cl_step l s) H1"
    using log_inv_step [OF assms(1) Cons.prems(1,2) k(1) st(1,3)] by blast
  obtain H' where "extends H1 H'" "log_inv ms cfgs (Suc k + length labs) (cl_run labs (cl_step l s)) H'"
      "cl_inv ms cfgs (Suc k + length labs) (cl_run labs (cl_step l s))"
    using Cons.IH [OF cl_inv_step [OF assms(1) Cons.prems(1) k(2) st(1)] H1(2) k(3) st(2,4)] by blast
  then show ?case using extends_trans [OF H1(1)] by (auto simp: cl_run_def)
qed

end
