(* ===== verification/LogSafety.thy ===== *)
theory LogSafety
  imports LogInvariant
begin

text \<open>
  What the invariant of the logs gives: log matching, leader completeness and state machine safety,
  for a cluster in runs without snapshots and without step-downs for a lost quorum.
\<close>

section \<open>Plain runs\<close>

text \<open>
  The runs considered: from the start of a configured cluster, no leader steps down for a lost
  quorum, no node takes a snapshot, and indices and terms stay below \<open>2 ^ 64\<close>.
\<close>

definition plain_run :: "string list \<Rightarrow> (string \<Rightarrow> Config) \<Rightarrow> Label list \<Rightarrow> bool" where
  "plain_run ms cfgs labs \<longleftrightarrow> wf_config ms cfgs \<and> steady labs (boot ms cfgs)
     \<and> (\<forall>l \<in> set labs. \<not> takes_snapshot l) \<and> length labs + 1 < 2 ^ 64"

definition node_after :: "string list \<Rightarrow> (string \<Rightarrow> Config) \<Rightarrow> Label list \<Rightarrow> string \<Rightarrow> RaftNode" where
  "node_after ms cfgs labs a = cl_nodes (cl_run labs (boot ms cfgs)) a"

lemma cl_run_append: "cl_run (labs @ labs') s = cl_run labs' (cl_run labs s)"
  by (simp add: cl_run_def)

lemma steady_append: "steady (labs @ labs') s \<longleftrightarrow> steady labs s \<and> steady labs' (cl_run labs s)"
  by (induction labs arbitrary: s) (simp_all add: cl_run_def)

lemma plain_run_inv:
  assumes "plain_run ms cfgs (labs @ labs')"
  obtains k H H' where "hist_ok (majority_set ms) k H'" "k + 1 < 2 ^ 64" "extends H H'"
    "hist_ok (majority_set ms) (length labs) H"
    "\<And>a. a \<in> set ms \<Longrightarrow> node_inv ms H a (node_after ms cfgs labs a)"
    "\<And>a. a \<in> set ms \<Longrightarrow> node_inv ms H' a (node_after ms cfgs (labs @ labs') a)"
proof -
  let ?s = "cl_run labs (boot ms cfgs)"
  have wf: "wf_config ms cfgs" and st: "steady labs (boot ms cfgs)" "steady labs' ?s"
      and ns: "\<forall>l \<in> set labs. \<not> takes_snapshot l" "\<forall>l \<in> set labs'. \<not> takes_snapshot l"
      and len: "length labs + length labs' + 1 < 2 ^ 64"
    using assms by (auto simp: plain_run_def steady_append)
  obtain H where H: "log_inv ms cfgs (length labs) ?s H" "cl_inv ms cfgs (length labs) ?s"
    using log_inv_run [OF wf cl_inv_boot [OF wf] log_inv_boot _ st(1) ns(1)] len by auto
  obtain H' where H': "extends H H'" "log_inv ms cfgs (length labs + length labs') (cl_run labs' ?s) H'"
    using log_inv_run [OF wf H(2,1) _ st(2) ns(2)] len by auto
  show ?thesis
    by (rule that [OF log_invD(1) [OF H'(2)] len H'(1) log_invD(1) [OF H(1)]])
      (use log_invD(2) [OF H(1)] log_invD(2) [OF H'(2)] in \<open>simp_all add: node_after_def cl_run_append\<close>)
qed

lemma log_map_take:
  "take c xs = take c ys \<Longrightarrow> j \<le> c \<Longrightarrow> c \<le> length xs \<Longrightarrow> c \<le> length ys \<Longrightarrow> log_map (plain_log xs) j = log_map (plain_log ys) j"
  by (cases j) (auto simp: log_map_plain dest!: arg_cong [where f = "\<lambda>zs. zs ! (j - 1)"])

section \<open>Log matching, leader completeness, state machine safety\<close>

text \<open>
  C5: log matching, in runs with fixed membership in which no node takes a snapshot and no leader steps
  down for a lost quorum. When the logs of two nodes hold entries of the same term at an index, they
  are the same up to that index, commands included.
\<close>

theorem log_matching:
  assumes "plain_run ms cfgs labs" and "a \<in> set ms" and "b \<in> set ms"
    and "log_map (rlog (node_after ms cfgs labs a)) i = Some e"
    and "log_map (rlog (node_after ms cfgs labs b)) i = Some e'"
    and "le_Term e = le_Term e'" and "j \<le> i"
  shows "log_map (rlog (node_after ms cfgs labs a)) j = log_map (rlog (node_after ms cfgs labs b)) j"
proof -
  obtain H where H: "node_inv ms H a (node_after ms cfgs labs a)" "node_inv ms H b (node_after ms cfgs labs b)"
    using plain_run_inv [of ms cfgs labs "[]"] assms(1-3) by (metis append_Nil2)
  obtain xs ys where l: "rlog (node_after ms cfgs labs a) = plain_log xs" "traced H xs"
      "rlog (node_after ms cfgs labs b) = plain_log ys" "traced H ys"
    using H unfolding node_inv_def log_inv_of_def by blast
  show ?thesis
  proof (cases i)
    case 0
    then show ?thesis using assms(7) l by (simp add: log_map_plain)
  next
    case (Suc m)
    then have m: "m < length xs" "m < length ys" "le_Term (xs ! m) = le_Term (ys ! m)"
      using assms(4-6) l by (auto simp: log_map_plain split: if_splits)
    have "take (Suc m) xs = take (Suc m) ys" by (rule traced_matching [OF l(2,4) m])
    then show ?thesis using log_map_take [of "Suc m" xs ys j] m assms(7) Suc l by simp
  qed
qed

lemma committed_matches:
  assumes "node_inv ms H a n" "j \<le> unat (commitIndex n)" "0 < j"
  obtains xs t i where "rlog n = plain_log xs" "chosen (majority_set ms) H t i" "j \<le> i" "t \<le> currentTerm n"
    "matches H t j xs"
proof -
  obtain xs where xs: "rlog n = plain_log xs" "commit_cert ms H (currentTerm n) xs (unat (commitIndex n))"
    using assms(1) unfolding node_inv_def log_inv_of_def by blast
  then obtain t i where c: "chosen (majority_set ms) H t i" "unat (commitIndex n) \<le> i" "t \<le> currentTerm n"
      "matches H t (unat (commitIndex n)) xs"
    using assms(2,3) unfolding commit_cert_def by auto
  show ?thesis using that [OF xs(1) c(1) _ c(3) matches_le [OF c(4) assms(2)]] c(2) assms(2) by simp
qed

lemma matches_map:
  "take j xs = take j ys \<Longrightarrow> j \<le> length xs \<Longrightarrow> j \<le> length ys \<Longrightarrow> log_map (plain_log xs) j = log_map (plain_log ys) j"
  by (rule log_map_take) simp_all

text \<open>
  C4: leader completeness, in runs with fixed membership in which no node takes a snapshot and no leader
  steps down for a lost quorum. An entry that some node knows to be committed is in the log of every
  node that leads the same or a later term, then or at any later moment, whatever crashed in between.
\<close>

theorem leader_completeness:
  assumes "plain_run ms cfgs (labs @ labs')" and "a \<in> set ms" and "b \<in> set ms"
    and "j \<le> unat (commitIndex (node_after ms cfgs labs a))"
    and "nstate (node_after ms cfgs (labs @ labs') b) = Leader"
    and "currentTerm (node_after ms cfgs labs a) \<le> currentTerm (node_after ms cfgs (labs @ labs') b)"
  shows "log_map (rlog (node_after ms cfgs (labs @ labs') b)) j = log_map (rlog (node_after ms cfgs labs a)) j"
proof -
  let ?n = "node_after ms cfgs labs a" and ?m = "node_after ms cfgs (labs @ labs') b"
  obtain k H H' where ok: "hist_ok (majority_set ms) k H'" "extends H H'" and n: "node_inv ms H a ?n" "node_inv ms H' b ?m"
    using plain_run_inv [OF assms(1)] assms(2,3) by metis
  obtain ys where ys: "rlog ?m = plain_log ys" "leads H' b ?m ys"
    using n(2) assms(5) unfolding node_inv_def log_inv_of_def by blast
  obtain r where r: "h_reign H' (currentTerm ?m) = Some r" "rg_log r = ys" using ys(2) unfolding leads_def by blast
  obtain zs where zs: "rlog ?n = plain_log zs" using n(1) unfolding node_inv_def by blast
  show ?thesis
  proof (cases "j = 0")
    case True
    then show ?thesis using ys(1) zs by (simp add: log_map_plain)
  next
    case False
    then obtain xs t i where c: "rlog ?n = plain_log xs" "chosen (majority_set ms) H t i" "j \<le> i" "t \<le> currentTerm ?n"
        "matches H t j xs"
      using committed_matches [OF n(1) assms(4)] by blast
    have t: "t \<le> currentTerm ?m" using order_trans [OF c(4) assms(6)] .
    have mx: "matches H' t j xs" by (rule matches_extends [OF ok(2) c(5)])
    have "matches H' t j ys"
    proof (cases "t = currentTerm ?m")
      case True
      then show ?thesis using r mx by (auto simp: matches_def)
    next
      case False
      then have "matches H' t i (rg_base r)"
        using nodes.chosen_in_later_reigns [OF ok(1) chosen_extends [OF ok(2) c(2)] _ r(1)] t by (simp add: order_le_less)
      then show ?thesis
        using matches_le [OF _ c(3)] matches_prefix hist_ok_reign [OF ok(1) r(1)] r(2) unfolding reign_ok_def by blast
    qed
    then have "take j ys = take j xs" using mx by (auto simp: matches_def)
    then show ?thesis using matches_map [of j ys xs] matches_length [OF mx] matches_length [OF \<open>matches H' t j ys\<close>] ys(1) c(1) by simp
  qed
qed

lemma committed_agree:
  assumes "plain_run ms cfgs (labs @ labs')" and "a \<in> set ms" and "b \<in> set ms"
    and "j \<le> unat (commitIndex (node_after ms cfgs labs a))"
    and "j \<le> unat (commitIndex (node_after ms cfgs (labs @ labs') b))"
  shows "log_map (rlog (node_after ms cfgs labs a)) j = log_map (rlog (node_after ms cfgs (labs @ labs') b)) j
     \<and> log_map (rlog (node_after ms cfgs labs a)) j \<noteq> None"
proof -
  let ?n = "node_after ms cfgs labs a" and ?m = "node_after ms cfgs (labs @ labs') b"
  obtain k H H' where ok: "hist_ok (majority_set ms) k H'" "extends H H'" and n: "node_inv ms H a ?n" "node_inv ms H' b ?m"
    using plain_run_inv [OF assms(1)] assms(2,3) by metis
  obtain xs ys where l: "rlog ?n = plain_log xs" "rlog ?m = plain_log ys" using n unfolding node_inv_def by blast
  show ?thesis
  proof (cases "j = 0")
    case True
    then show ?thesis using l by (simp add: log_map_plain)
  next
    case False
    obtain t i where c: "chosen (majority_set ms) H t i" "j \<le> i" "matches H t j xs"
      using committed_matches [OF n(1) assms(4)] False l(1) plain_log_simps(7) by (metis neq0_conv)
    obtain u h where d: "chosen (majority_set ms) H' u h" "j \<le> h" "matches H' u j ys"
      using committed_matches [OF n(2) assms(5)] False l(2) plain_log_simps(7) by (metis neq0_conv)
    have "take j xs = take j ys"
      by (rule nodes.chosen_agree [OF ok(1) chosen_extends [OF ok(2) c(1)] d(1) matches_extends [OF ok(2) c(3)] c(2) d(3,2)])
    then show ?thesis
      using matches_map [of j xs ys] matches_length [OF c(3)] matches_length [OF d(3)] l False by (simp add: log_map_plain)
  qed
qed

lemma applied_committed:
  assumes "plain_run ms cfgs labs" and "a \<in> set ms"
  shows "lastApplied (node_after ms cfgs labs a) \<le> commitIndex (node_after ms cfgs labs a)"
    and "wf_log (rlog (node_after ms cfgs labs a))"
proof -
  obtain k H where inv: "hist_ok (majority_set ms) k H" "k + 1 < 2 ^ 64" "node_inv ms H a (node_after ms cfgs labs a)"
    using plain_run_inv [of ms cfgs labs "[]"] assms by (metis append_Nil2)
  then show "lastApplied (node_after ms cfgs labs a) \<le> commitIndex (node_after ms cfgs labs a)"
    by (simp add: node_inv_def)
  show "wf_log (rlog (node_after ms cfgs labs a))" by (rule node_inv_wf [OF inv])
qed

lemma plain_run_prefix: "plain_run ms cfgs (labs @ labs') \<Longrightarrow> plain_run ms cfgs labs"
  by (auto simp: plain_run_def steady_append)

text \<open>
  C2: state machine safety, in runs with fixed membership in which no node takes a snapshot and no
  leader steps down for a lost quorum. Two nodes never apply different entries at one index, at
  whatever moments they do: what one node has applied or knows to be committed is what any node knows to be
  committed there, then or later, across crashes and changes of leader; and nothing is applied that
  is not committed and stored.
\<close>

theorem state_machine_safety:
  assumes "plain_run ms cfgs (labs @ labs')" and "a \<in> set ms" and "b \<in> set ms"
    and "j \<le> unat (commitIndex (node_after ms cfgs labs a))"
    and "j \<le> unat (commitIndex (node_after ms cfgs (labs @ labs') b))"
  shows "log_map (rlog (node_after ms cfgs labs a)) j = log_map (rlog (node_after ms cfgs (labs @ labs') b)) j
     \<and> log_map (rlog (node_after ms cfgs labs a)) j \<noteq> None
     \<and> lastApplied (node_after ms cfgs labs a) \<le> commitIndex (node_after ms cfgs labs a)"
  using committed_agree [OF assms] applied_committed(1) [OF plain_run_prefix [OF assms(1)] assms(2)] by blast

section \<open>An example\<close>

text \<open>
  Node \<open>a\<close> is elected, takes a command and commits it with the answer of \<open>b\<close>; its next heartbeat
  tells \<open>b\<close>, which is then elected in its turn.
\<close>

definition commit_one :: "Label list" where
  "commit_one = elect_a @ [ClientSubmit ''a'' [7], Deliver 2 0, Process 2 0]"

definition next_leader :: "Label list" where
  "next_leader = [HeartbeatTick ''a'' 0, Deliver 4 0, PreVoteWon ''b'', BeginElection ''b'', Deliver 7 0, Process 7 0]"

fun is_tick :: "Label \<Rightarrow> bool" where
  "is_tick (HeartbeatTick a now) \<longleftrightarrow> True"
| "is_tick _ \<longleftrightarrow> False"

lemma steady_no_tick: "\<forall>l \<in> set labs. \<not> is_tick l \<Longrightarrow> steady labs s"
proof (induction labs arbitrary: s)
  case (Cons l labs)
  then show ?case by (cases l) simp_all
qed simp

definition entry_view :: "RaftNode \<Rightarrow> (u64 \<times> bytes) option" where
  "entry_view n = map_option (\<lambda>e. (le_Term e, le_Command e)) (log_map (rlog n) 1)"

definition node_view :: "RaftNode \<Rightarrow> u64 \<times> u64 \<times> NodeState \<times> (u64 \<times> bytes) option" where
  "node_view n = (commitIndex n, currentTerm n, nstate n, entry_view n)"

lemma example_views:
  "(let s = cl_run commit_one (boot three three_cfg); t = cl_run next_leader s in
      (node_view (cl_nodes s ''a''), entry_view (cl_nodes s ''b''),
       nstate (checkQuorum 0 (cl_nodes s ''a'')), node_view (cl_nodes t ''b'')))
   = ((1, 1, Leader, Some (1, [7])), Some (1, [7]), Leader, (1, 2, Leader, Some (1, [7])))"
  by code_simp

lemmas example_nodes = example_views [unfolded Let_def prod.inject, folded cl_run_append]

lemma example_steady: "steady (commit_one @ next_leader) (boot three three_cfg)"
proof -
  have "steady commit_one s" for s
    by (rule steady_no_tick) (simp add: commit_one_def elect_a_def)
  moreover have "steady next_leader (cl_run commit_one (boot three three_cfg))"
    using example_nodes by (simp add: next_leader_def steady_no_tick)
  ultimately show ?thesis by (simp add: steady_append)
qed

lemma example_steps:
  "commitIndex (node_after three three_cfg commit_one ''a'') = 1"
  "currentTerm (node_after three three_cfg commit_one ''a'') = 1"
  "commitIndex (node_after three three_cfg (commit_one @ next_leader) ''b'') = 1"
  "nstate (node_after three three_cfg (commit_one @ next_leader) ''b'') = Leader"
  "currentTerm (node_after three three_cfg (commit_one @ next_leader) ''b'') = 2"
  using example_nodes by (simp_all add: node_view_def node_after_def)

lemma example_plain: "plain_run three three_cfg (commit_one @ next_leader)" "plain_run three three_cfg commit_one"
  using example_steady
  by (simp_all add: plain_run_def three_wf steady_append) (simp_all add: commit_one_def next_leader_def elect_a_def)

lemma example_logs:
  "map_option le_Command (log_map (rlog (node_after three three_cfg commit_one ''a'')) 1) = Some [7]"
  "map_option le_Term (log_map (rlog (node_after three three_cfg commit_one ''a'')) 1) = Some 1"
  "map_option le_Term (log_map (rlog (node_after three three_cfg commit_one ''b'')) 1) = Some 1"
  using example_nodes by (auto simp: node_view_def entry_view_def node_after_def)

lemma three_members: "''a'' \<in> set three" "''b'' \<in> set three"
  by (simp_all add: three_def)

theorem log_matching_witness:
  "map_option le_Command (log_map (rlog (node_after three three_cfg commit_one ''b'')) 1) = Some [7]"
proof -
  obtain e e' where "log_map (rlog (node_after three three_cfg commit_one ''a'')) 1 = Some e"
      "log_map (rlog (node_after three three_cfg commit_one ''b'')) 1 = Some e'" "le_Term e = le_Term e'"
    using example_logs(2,3) by (auto simp: map_option_eq_Some)
  from log_matching [OF example_plain(2) three_members this order_refl] example_logs(1)
  show ?thesis by simp
qed

theorem leader_completeness_witness:
  "map_option le_Command (log_map (rlog (node_after three three_cfg (commit_one @ next_leader) ''b'')) 1) = Some [7]"
  using leader_completeness [OF example_plain(1) three_members, of 1] example_steps(1,2,4,5) example_logs(1) by simp

theorem state_machine_safety_witness:
  "log_map (rlog (node_after three three_cfg commit_one ''a'')) 1
     = log_map (rlog (node_after three three_cfg (commit_one @ next_leader) ''b'')) 1
   \<and> 0 < commitIndex (node_after three three_cfg (commit_one @ next_leader) ''b'')"
  using state_machine_safety [OF example_plain(1) three_members, of 1] example_steps(1,3) by simp

end
