(* ===== verification/Apply.thy ===== *)
theory Apply
  imports Client
begin

text \<open>
  \<open>src/raft/apply.go\<close> and \<open>src/raft/state_machine.go\<close>: the goroutine that feeds committed entries
  to the state machine. Its state is a program counter, the node it shares with the other
  goroutines, the state machine and the channel \<open>applyCh\<close>; a step is one branch of a \<open>select\<close>, one
  critical section, or one call of application code. Between two steps the other goroutines may
  change the node. The contract of a state machine is the locale \<open>state_machine\<close>.
\<close>

section \<open>State machines\<close>

text \<open>
  The interface \<open>StateMachine\<close>: \<open>Apply\<close> returns a result, \<open>Snapshot\<close> may fail, and \<open>Restore\<close> reports
  an error by \<open>True\<close>.
\<close>

record ('s, 'r) StateMachine =
  sm_Apply :: "bytes \<Rightarrow> 's \<Rightarrow> 'r \<times> 's"
  sm_Snapshot :: "'s \<Rightarrow> bytes option"
  sm_Restore :: "bytes \<Rightarrow> 's \<Rightarrow> bool \<times> 's"

definition replay :: "('s, 'r) StateMachine \<Rightarrow> bytes list \<Rightarrow> 's \<Rightarrow> 's" where
  "replay m cs s = fold (\<lambda>c t. snd (sm_Apply m c t)) cs s"

lemma replay_simps [simp]:
  "replay m [] s = s" "replay m (c # cs) s = replay m cs (snd (sm_Apply m c s))"
  "replay m (cs @ ds) s = replay m ds (replay m cs s)"
  by (simp_all add: replay_def)

text \<open>
  What the snapshot mechanism relies on, for the machines of a family \<open>machine g\<close>: what commands do
  to the replicated part of the state (its \<open>view\<close>) and what they answer depends on that part only,
  and a snapshot restores the view it was taken of.
\<close>

locale state_machine =
  fixes machine :: "'g \<Rightarrow> ('s, 'r) StateMachine"
    and lawful :: "'g \<Rightarrow> bool"
    and view :: "'s \<Rightarrow> 'v"
  assumes apply_view: "view s = view t \<Longrightarrow>
            fst (sm_Apply (machine g) c s) = fst (sm_Apply (machine g) c t)
            \<and> view (snd (sm_Apply (machine g) c s)) = view (snd (sm_Apply (machine g) c t))"
    and snapshot_restore: "lawful g \<Longrightarrow> sm_Snapshot (machine g) s = Some d \<Longrightarrow>
            \<not> fst (sm_Restore (machine g) d t) \<and> view (snd (sm_Restore (machine g) d t)) = view s"
begin

lemma replay_view: "view s = view t \<Longrightarrow> view (replay (machine g) cs s) = view (replay (machine g) cs t)"
proof (induction cs arbitrary: s t)
  case (Cons c cs)
  show ?case using Cons.IH [OF conjunct2 [OF apply_view [OF Cons.prems]]] by simp
qed simp

text \<open>Restoring a snapshot and replaying the rest is replaying everything.\<close>

lemma snapshot_then_replay:
  assumes "lawful g" "sm_Snapshot (machine g) (replay (machine g) cs s) = Some d"
  shows "view (replay (machine g) ds (snd (sm_Restore (machine g) d t))) = view (replay (machine g) (cs @ ds) s)"
  using replay_view [OF conjunct2 [OF snapshot_restore [OF assms]]] by simp

end

section \<open>The loop\<close>

text \<open>\<open>Result\<close> is nil for a snapshot message.\<close>

record 'r ApplyMsg =
  am_Index :: u64
  am_Term :: u64
  am_Command :: bytes
  am_Result :: "'r option"
  am_IsSnapshot :: bool
  am_SnapshotIndex :: u64
  am_SnapshotTerm :: u64
  am_SnapshotData :: bytes

datatype 'r apply_pc =
    Selecting
  | Restoring snapshotToApply
  | SendingSnapshot "'r ApplyMsg"
  | Draining
  | Applying LogEntry
  | Sending "'r ApplyMsg"
  | Returned

record ('s, 'r) ApplyLoop =
  al_node :: RaftNode
  al_state :: 's
  al_pc :: "'r apply_pc"
  al_ch :: "'r ApplyMsg list"

definition applyCh_cap :: nat where
  "applyCh_cap = 64"

definition entry_msg :: "LogEntry \<Rightarrow> 'r \<Rightarrow> 'r ApplyMsg" where
  "entry_msg e r = \<lparr>am_Index = le_Index e, am_Term = le_Term e, am_Command = le_Command e,
     am_Result = Some r, am_IsSnapshot = False, am_SnapshotIndex = 0, am_SnapshotTerm = 0,
     am_SnapshotData = []\<rparr>"

definition snapshot_msg :: "snapshotToApply \<Rightarrow> 'r ApplyMsg" where
  "snapshot_msg snap = \<lparr>am_Index = 0, am_Term = 0, am_Command = [], am_Result = None,
     am_IsSnapshot = True, am_SnapshotIndex = sta_index snap, am_SnapshotTerm = sta_term snap,
     am_SnapshotData = sta_data snap\<rparr>"

text \<open>
  One iteration of the loop under the lock: the next entry, if there is one; a configuration entry
  is applied at once.
\<close>

definition apply_next :: "instant \<Rightarrow> RaftNode \<Rightarrow> RaftNode \<times> 'r apply_pc" where
  "apply_next now n =
     (if lastApplied n < commitIndex n then
        let n1 = n\<lparr>lastApplied := lastApplied n + 1\<rparr>;
            entry = log_get (rlog n1) (lastApplied n1)
        in if le_IsConfig entry then (applyConfigEntry now entry n1, Draining)
           else (n1, Applying entry)
      else (n, Selecting))"

text \<open>
  The branches. Where several are possible, Go's \<open>select\<close> picks any; \<open>None\<close> is a branch that cannot
  be taken.
\<close>

datatype apply_label = OnStop | OnSnapshot | OnCommit | DoRestore | DoNext | DoApply | DoSend

fun apply_step ::
    "('s, 'r) StateMachine \<Rightarrow> instant \<Rightarrow> apply_label \<Rightarrow> ('s, 'r) ApplyLoop \<Rightarrow> ('s, 'r) ApplyLoop option" where
  "apply_step m now OnStop a =
     (case al_pc a of
        Selecting \<Rightarrow> if stopCh_closed (al_node a) then Some (a\<lparr>al_pc := Returned\<rparr>) else None
      | SendingSnapshot _ \<Rightarrow> if stopCh_closed (al_node a) then Some (a\<lparr>al_pc := Returned\<rparr>) else None
      | Sending _ \<Rightarrow> if stopCh_closed (al_node a) then Some (a\<lparr>al_pc := Returned\<rparr>) else None
      | _ \<Rightarrow> None)"
| "apply_step m now OnSnapshot a =
     (case (al_pc a, snapshotNotifyC (al_node a)) of
        (Selecting, Some snap) \<Rightarrow>
          Some (a\<lparr>al_node := (al_node a)\<lparr>snapshotNotifyC := None\<rparr>, al_pc := Restoring snap\<rparr>)
      | _ \<Rightarrow> None)"
| "apply_step m now OnCommit a =
     (case al_pc a of
        Selecting \<Rightarrow> if commitNotifyC (al_node a)
          then Some (a\<lparr>al_node := (al_node a)\<lparr>commitNotifyC := False\<rparr>, al_pc := Draining\<rparr>) else None
      | _ \<Rightarrow> None)"
| "apply_step m now DoRestore a =
     (case al_pc a of
        Restoring snap \<Rightarrow> Some (a\<lparr>al_state := snd (sm_Restore m (sta_data snap) (al_state a)),
                                al_pc := SendingSnapshot (snapshot_msg snap)\<rparr>)
      | _ \<Rightarrow> None)"
| "apply_step m now DoNext a =
     (case al_pc a of
        Draining \<Rightarrow> let (n, pc) = apply_next now (al_node a) in Some (a\<lparr>al_node := n, al_pc := pc\<rparr>)
      | _ \<Rightarrow> None)"
| "apply_step m now DoApply a =
     (case al_pc a of
        Applying e \<Rightarrow> let (r, s) = sm_Apply m (le_Command e) (al_state a)
                      in Some (a\<lparr>al_state := s, al_pc := Sending (entry_msg e r)\<rparr>)
      | _ \<Rightarrow> None)"
| "apply_step m now DoSend a =
     (if length (al_ch a) < applyCh_cap then
        case al_pc a of
          SendingSnapshot msg \<Rightarrow> Some (a\<lparr>al_ch := al_ch a @ [msg], al_pc := Selecting\<rparr>)
        | Sending msg \<Rightarrow> Some (a\<lparr>al_ch := al_ch a @ [msg], al_pc := Draining\<rparr>)
        | _ \<Rightarrow> None
      else None)"

section \<open>Applying in order\<close>

text \<open>
  \<open>hist\<close> is the sequence of committed entries. A node agrees with it when its log holds these
  entries where it still has to apply them.
\<close>

definition agreed :: "(nat \<Rightarrow> LogEntry) \<Rightarrow> RaftNode \<Rightarrow> bool" where
  "agreed hist n \<longleftrightarrow> wf_log (rlog n)
     \<and> (\<forall>j. unat (lastApplied n) < j \<and> j \<le> unat (commitIndex n) \<longrightarrow> log_map (rlog n) j = Some (hist j))"

text \<open>The commands of the entries after \<open>i\<close> up to \<open>j\<close>, without configuration entries.\<close>

definition commands :: "(nat \<Rightarrow> LogEntry) \<Rightarrow> nat \<Rightarrow> nat \<Rightarrow> bytes list" where
  "commands hist i j = map le_Command (filter (\<lambda>e. \<not> le_IsConfig e) (map hist [i + 1..<j + 1]))"

text \<open>
  Runs of the loop while the other goroutines change the node and \<open>readApplyCh\<close> receives; no
  snapshot is installed.
\<close>

inductive apply_run ::
    "('s, 'r) StateMachine \<Rightarrow> (nat \<Rightarrow> LogEntry) \<Rightarrow> ('s, 'r) ApplyLoop \<Rightarrow> ('s, 'r) ApplyLoop \<Rightarrow> bool"
  for m :: "('s, 'r) StateMachine" and hist :: "nat \<Rightarrow> LogEntry" and a0 :: "('s, 'r) ApplyLoop" where
  run_start: "apply_run m hist a0 a0"
| run_own: "apply_run m hist a0 a \<Longrightarrow> apply_step m now l a = Some a' \<Longrightarrow> apply_run m hist a0 a'"
| run_node: "apply_run m hist a0 a \<Longrightarrow> lastApplied n = lastApplied (al_node a) \<Longrightarrow> agreed hist n \<Longrightarrow>
     snapshotNotifyC n = None \<Longrightarrow> apply_run m hist a0 (a\<lparr>al_node := n\<rparr>)"
| run_read: "apply_run m hist a0 a \<Longrightarrow> al_ch a = msg # rest \<Longrightarrow> apply_run m hist a0 (a\<lparr>al_ch := rest\<rparr>)"

text \<open>The last entry the state machine has seen: one less than \<open>lastApplied\<close> while it is about to see it.\<close>

definition seen :: "('s, 'r) ApplyLoop \<Rightarrow> nat" where
  "seen a = (case al_pc a of Applying _ \<Rightarrow> unat (lastApplied (al_node a)) - 1 | _ \<Rightarrow> unat (lastApplied (al_node a)))"

definition msg_at ::
    "('s, 'r) StateMachine \<Rightarrow> (nat \<Rightarrow> LogEntry) \<Rightarrow> nat \<Rightarrow> 's \<Rightarrow> nat \<Rightarrow> 'r ApplyMsg" where
  "msg_at m hist k s j =
     entry_msg (hist j) (fst (sm_Apply m (le_Command (hist j)) (replay m (commands hist k (j - 1)) s)))"

definition in_flight :: "(nat \<Rightarrow> 'r ApplyMsg) \<Rightarrow> (nat \<Rightarrow> LogEntry) \<Rightarrow> nat \<Rightarrow> nat \<Rightarrow> 'r apply_pc \<Rightarrow> bool" where
  "in_flight msg hist k l pc \<longleftrightarrow> (case pc of
      Applying e \<Rightarrow> k < l \<and> e = hist l \<and> \<not> le_IsConfig e
    | Sending x \<Rightarrow> k < l \<and> x = msg l
    | Restoring _ \<Rightarrow> False | SendingSnapshot _ \<Rightarrow> False | _ \<Rightarrow> True)"

text \<open>Messages wait in the order of their entries, before the one in flight.\<close>

definition waiting :: "(nat \<Rightarrow> 'r ApplyMsg) \<Rightarrow> nat \<Rightarrow> 'r apply_pc \<Rightarrow> 'r ApplyMsg list \<Rightarrow> bool" where
  "waiting msg l pc ch \<longleftrightarrow> (\<exists>js. ch = map msg js \<and> sorted_wrt (<) js
     \<and> (\<forall>j \<in> set js. j \<le> l \<and> ((\<exists>e. pc = Applying e) \<or> (\<exists>x. pc = Sending x) \<longrightarrow> j < l)))"

definition apply_inv ::
    "('s, 'r) StateMachine \<Rightarrow> (nat \<Rightarrow> LogEntry) \<Rightarrow> nat \<Rightarrow> 's \<Rightarrow> ('s, 'r) ApplyLoop \<Rightarrow> bool" where
  "apply_inv m hist k s a \<longleftrightarrow>
     agreed hist (al_node a) \<and> snapshotNotifyC (al_node a) = None \<and> k \<le> seen a
     \<and> al_state a = replay m (commands hist k (seen a)) s
     \<and> in_flight (msg_at m hist k s) hist k (unat (lastApplied (al_node a))) (al_pc a)
     \<and> waiting (msg_at m hist k s) (unat (lastApplied (al_node a))) (al_pc a) (al_ch a)"

lemma commands_Suc:
  "i \<le> j \<Longrightarrow> commands hist i (Suc j) =
     commands hist i j @ (if le_IsConfig (hist (Suc j)) then [] else [le_Command (hist (Suc j))])"
  by (simp add: commands_def)

lemma commands_refl [simp]: "commands hist i i = []"
  by (simp add: commands_def)

lemma agreed_frame:
  "lastApplied m = lastApplied n \<Longrightarrow> commitIndex m = commitIndex n \<Longrightarrow> rlog m = rlog n \<Longrightarrow>
     agreed hist m = agreed hist n"
  by (simp add: agreed_def)

lemma applyConfigEntry_frame [simp]:
  "lastApplied (applyConfigEntry now e n) = lastApplied n"
  "commitIndex (applyConfigEntry now e n) = commitIndex n"
  "rlog (applyConfigEntry now e n) = rlog n"
  "snapshotNotifyC (applyConfigEntry now e n) = snapshotNotifyC n"
  "stopCh_closed (applyConfigEntry now e n) = stopCh_closed n"
  by (auto simp: applyConfigEntry_def Let_def)

lemma agreed_next:
  assumes "agreed hist n" and "lastApplied n < commitIndex n"
  shows "unat (lastApplied n + 1) = unat (lastApplied n) + 1"
    and "log_get (rlog n) (lastApplied n + 1) = hist (unat (lastApplied n) + 1)"
    and "agreed hist (n\<lparr>lastApplied := lastApplied n + 1\<rparr>)"
proof -
  have "unat (lastApplied n) + 1 < 2 ^ 64"
    using assms(2) unat_u64_bound [of "commitIndex n"] by (simp add: u64_nat)
  then show u: "unat (lastApplied n + 1) = unat (lastApplied n) + 1" by (rule unat_u64_plus1)
  have "log_map (rlog n) (unat (lastApplied n) + 1) = Some (hist (unat (lastApplied n) + 1))"
    using assms by (simp add: agreed_def u64_nat)
  then show "log_get (rlog n) (lastApplied n + 1) = hist (unat (lastApplied n) + 1)"
    using assms(1) u by (simp add: agreed_def log_get_map)
  show "agreed hist (n\<lparr>lastApplied := lastApplied n + 1\<rparr>)"
    using assms(1) u by (simp add: agreed_def)
qed

lemma waiting_weaken:
  "waiting msg l pc ch \<Longrightarrow> (\<nexists>e. pc' = Applying e) \<Longrightarrow> (\<nexists>x. pc' = Sending x) \<Longrightarrow> waiting msg l pc' ch"
  unfolding waiting_def by blast

lemma waiting_next: "waiting msg l pc ch \<Longrightarrow> waiting msg (l + 1) pc' ch"
  unfolding waiting_def by (metis less_Suc_eq_le Suc_eq_plus1 le_SucI)

lemma waiting_apply: "waiting msg l (Applying e) ch \<Longrightarrow> waiting msg l (Sending x) ch"
  unfolding waiting_def by blast

lemma waiting_send: "waiting msg l (Sending x) ch \<Longrightarrow> waiting msg l Draining (ch @ [msg l])"
proof -
  assume "waiting msg l (Sending x) ch"
  then obtain js where "ch = map msg js" "sorted_wrt (<) js" "\<forall>j \<in> set js. j < l"
    unfolding waiting_def by blast
  then have "ch @ [msg l] = map msg (js @ [l])" "sorted_wrt (<) (js @ [l])" "\<forall>j \<in> set (js @ [l]). j \<le> l"
    by (auto simp: sorted_wrt_append)
  then show ?thesis unfolding waiting_def by blast
qed

lemma waiting_read: "waiting msg l pc (x # ch) \<Longrightarrow> waiting msg l pc ch"
  unfolding waiting_def by (auto simp: Cons_eq_map_conv)

lemma apply_inv_next:
  assumes inv: "apply_inv m hist k s a" and pc: "al_pc a = Draining"
    and nx: "apply_next now (al_node a) = (n, pc')"
  shows "apply_inv m hist k s (a\<lparr>al_node := n, al_pc := pc'\<rparr>)"
proof (cases "lastApplied (al_node a) < commitIndex (al_node a)")
  case False
  then have "n = al_node a" "pc' = Selecting" using nx by (auto simp: apply_next_def)
  then show ?thesis
    using inv pc by (auto simp: apply_inv_def seen_def in_flight_def elim: waiting_weaken)
next
  case True
  let ?n = "al_node a" and ?l = "unat (lastApplied (al_node a))"
  have ag: "agreed hist ?n" "k \<le> ?l" "al_state a = replay m (commands hist k ?l) s"
      "waiting (msg_at m hist k s) ?l Draining (al_ch a)" "snapshotNotifyC ?n = None"
    using inv pc by (simp_all add: apply_inv_def seen_def)
  note step = agreed_next [OF ag(1) True]
  have w: "waiting (msg_at m hist k s) (?l + 1) q (al_ch a)" for q by (rule waiting_next [OF ag(4)])
  show ?thesis
  proof (cases "le_IsConfig (hist (?l + 1))")
    case cfg: True
    then have n: "n = applyConfigEntry now (hist (?l + 1)) (?n\<lparr>lastApplied := lastApplied ?n + 1\<rparr>)" "pc' = Draining"
      using nx True step(2) by (auto simp: apply_next_def Let_def)
    have "agreed hist n" using step(3) agreed_frame [of n "?n\<lparr>lastApplied := lastApplied ?n + 1\<rparr>"] by (simp add: n)
    then show ?thesis
      using ag w step(1) cfg by (simp add: apply_inv_def seen_def in_flight_def n commands_Suc)
  next
    case cmd: False
    then have n: "n = ?n\<lparr>lastApplied := lastApplied ?n + 1\<rparr>" "pc' = Applying (hist (?l + 1))"
      using nx True step(2) by (auto simp: apply_next_def Let_def)
    show ?thesis
      using ag w step(1,3) cmd by (simp add: apply_inv_def seen_def in_flight_def n)
  qed
qed

lemma apply_inv_apply:
  assumes inv: "apply_inv m hist k s a" and pc: "al_pc a = Applying e"
    and r: "sm_Apply m (le_Command e) (al_state a) = (r, s')"
  shows "apply_inv m hist k s (a\<lparr>al_state := s', al_pc := Sending (entry_msg e r)\<rparr>)"
proof -
  let ?l = "unat (lastApplied (al_node a))"
  have e: "k < ?l" "e = hist ?l" "\<not> le_IsConfig e" "al_state a = replay m (commands hist k (?l - 1)) s"
      "waiting (msg_at m hist k s) ?l (Applying e) (al_ch a)"
    using inv pc by (auto simp: apply_inv_def seen_def in_flight_def)
  then have "commands hist k ?l = commands hist k (?l - 1) @ [le_Command e]"
    using commands_Suc [of k "?l - 1" hist] by simp
  moreover have "entry_msg e r = msg_at m hist k s ?l"
    using e r by (simp add: msg_at_def)
  ultimately show ?thesis
    using inv e r waiting_apply [OF e(5)] by (simp add: apply_inv_def seen_def in_flight_def)
qed

lemma apply_inv_send:
  assumes inv: "apply_inv m hist k s a" and pc: "al_pc a = Sending x"
  shows "apply_inv m hist k s (a\<lparr>al_ch := al_ch a @ [x], al_pc := Draining\<rparr>)"
proof -
  let ?l = "unat (lastApplied (al_node a))"
  have "x = msg_at m hist k s ?l" "waiting (msg_at m hist k s) ?l (Sending x) (al_ch a)"
    using inv pc by (auto simp: apply_inv_def in_flight_def)
  then show ?thesis
    using inv pc waiting_send [of "msg_at m hist k s" ?l x] by (simp add: apply_inv_def seen_def in_flight_def)
qed

lemma apply_inv_step:
  assumes inv: "apply_inv m hist k s a" and st: "apply_step m now l a = Some a'"
  shows "apply_inv m hist k s a'"
proof -
  have idle: "apply_inv m hist k s (a\<lparr>al_node := n, al_pc := pc'\<rparr>)"
    if "seen (a\<lparr>al_node := n, al_pc := pc'\<rparr>) = seen a" "pc' \<in> {Draining, Returned}"
      "lastApplied n = lastApplied (al_node a)" "commitIndex n = commitIndex (al_node a)"
      "rlog n = rlog (al_node a)" "snapshotNotifyC n = snapshotNotifyC (al_node a)" for n pc'
    using inv that agreed_frame [of n "al_node a" hist]
      waiting_weaken [of "msg_at m hist k s" _ "al_pc a" "al_ch a" pc']
    by (auto simp: apply_inv_def in_flight_def)
  have ret: "apply_inv m hist k s (a\<lparr>al_pc := Returned\<rparr>)" if "\<nexists>e. al_pc a = Applying e"
    using idle [where n = "al_node a" and pc' = Returned] that by (auto simp: seen_def split: apply_pc.splits)
  show ?thesis
  proof (cases l)
    case OnStop
    then show ?thesis using st ret by (auto split: apply_pc.splits if_splits)
  next
    case OnSnapshot
    then show ?thesis using st inv by (auto simp: apply_inv_def split: apply_pc.splits)
  next
    case OnCommit
    then show ?thesis
      using st idle [where n = "(al_node a)\<lparr>commitNotifyC := False\<rparr>" and pc' = Draining]
      by (auto simp: seen_def split: apply_pc.splits if_splits)
  next
    case DoRestore
    then show ?thesis using st inv by (auto simp: apply_inv_def in_flight_def split: apply_pc.splits)
  next
    case DoNext
    then show ?thesis using st apply_inv_next [OF inv] by (auto split: apply_pc.splits prod.splits)
  next
    case DoApply
    then show ?thesis using st apply_inv_apply [OF inv] by (auto split: apply_pc.splits prod.splits)
  next
    case DoSend
    then show ?thesis
      using st inv apply_inv_send [OF inv]
      by (auto simp: in_flight_def apply_inv_def [of m hist k s a] split: apply_pc.splits if_splits)
  qed
qed

lemma apply_inv_run:
  assumes "apply_run m hist a0 a" and "apply_inv m hist k s a0"
  shows "apply_inv m hist k s a"
  using assms
proof (induction rule: apply_run.induct)
  case (run_own a now l a')
  then show ?case using apply_inv_step [of m hist k s a now l a'] by simp
next
  case (run_node a n)
  then have "seen (a\<lparr>al_node := n\<rparr>) = seen a" by (simp add: seen_def split: apply_pc.splits)
  then show ?case using run_node by (simp add: apply_inv_def)
next
  case (run_read a msg rest)
  have "seen (a\<lparr>al_ch := rest\<rparr>) = seen a" by (simp add: seen_def split: apply_pc.splits)
  then show ?case
    using run_read waiting_read [of "msg_at m hist k s" "unat (lastApplied (al_node a))" "al_pc a" msg rest]
    by (simp add: apply_inv_def)
qed

lemma apply_inv_init:
  assumes "al_pc a = Selecting" "al_ch a = []" "agreed hist (al_node a)" "snapshotNotifyC (al_node a) = None"
  shows "apply_inv m hist (unat (lastApplied (al_node a))) (al_state a) a"
  using assms by (simp add: apply_inv_def seen_def in_flight_def waiting_def)

text \<open>
  C9: however the loop is interleaved with the other goroutines, as long as they keep the committed
  entries and install no snapshot, the state machine has seen exactly the committed commands in
  index order, each once and without configuration entries, up to \<open>lastApplied\<close> (short of the
  entry being applied); and the messages waiting in \<open>applyCh\<close> are those of distinct entries in
  index order, each with the result of its command.
\<close>

theorem apply_loop_replays:
  assumes "apply_run m hist a0 a"
    and "al_pc a0 = Selecting" and "al_ch a0 = []" and "agreed hist (al_node a0)"
    and "snapshotNotifyC (al_node a0) = None" and "k = unat (lastApplied (al_node a0))"
  shows "al_state a = replay m (commands hist k (seen a)) (al_state a0)
     \<and> k \<le> seen a \<and> seen a \<le> unat (lastApplied (al_node a))
     \<and> (\<exists>js. al_ch a = map (msg_at m hist k (al_state a0)) js \<and> sorted_wrt (<) js
          \<and> (\<forall>j \<in> set js. j \<le> unat (lastApplied (al_node a))))"
proof -
  have "apply_inv m hist k (al_state a0) a"
    using apply_inv_run [OF assms(1)] apply_inv_init [OF assms(2-5)] assms(6) by simp
  then show ?thesis
    unfolding apply_inv_def waiting_def by (auto simp: seen_def split: apply_pc.splits)
qed

lemma apply_run_trans: "apply_run m hist b c \<Longrightarrow> apply_run m hist a b \<Longrightarrow> apply_run m hist a c"
  by (induction rule: apply_run.induct) (blast intro: apply_run.intros)+

lemma apply_run_empty: "apply_run m hist a0 a \<Longrightarrow> apply_run m hist a0 (a\<lparr>al_ch := []\<rparr>)"
proof (induction "al_ch a" arbitrary: a)
  case Nil
  have "a\<lparr>al_ch := []\<rparr> = a" using Nil.hyps by simp
  then show ?case using Nil.prems by simp
next
  case (Cons msg rest)
  have "apply_run m hist a0 (a\<lparr>al_ch := rest\<rparr>)" by (rule run_read [OF Cons.prems Cons.hyps(2) [symmetric]])
  then show ?case using Cons.hyps(1) [of "a\<lparr>al_ch := rest\<rparr>"] by simp
qed

lemma apply_one:
  assumes "agreed hist (al_node a)" "al_pc a = Draining" "lastApplied (al_node a) < commitIndex (al_node a)"
  shows "\<exists>a'. apply_run m hist a a' \<and> al_pc a' = Draining \<and> agreed hist (al_node a')
     \<and> lastApplied (al_node a') = lastApplied (al_node a) + 1 \<and> commitIndex (al_node a') = commitIndex (al_node a)"
proof -
  let ?n = "al_node a" and ?e = "log_get (rlog (al_node a)) (lastApplied (al_node a) + 1)"
  let ?n1 = "?n\<lparr>lastApplied := lastApplied ?n + 1\<rparr>"
  have ag: "agreed hist ?n1" by (rule agreed_next(3) [OF assms(1,3)])
  show ?thesis
  proof (cases "le_IsConfig ?e")
    case True
    let ?a = "a\<lparr>al_node := applyConfigEntry 0 ?e ?n1, al_pc := Draining\<rparr>"
    have "apply_run m hist a ?a"
      by (rule run_own [OF run_start, where l = DoNext and now = 0])
        (use assms True in \<open>simp add: apply_next_def Let_def\<close>)
    moreover have "agreed hist (al_node ?a)" using ag agreed_frame [of "al_node ?a" ?n1] by simp
    ultimately show ?thesis by (intro exI [of _ ?a]) simp
  next
    case False
    obtain r s where r: "sm_Apply m (le_Command ?e) (al_state a) = (r, s)" by fastforce
    let ?a1 = "a\<lparr>al_node := ?n1, al_pc := Applying ?e\<rparr>"
    let ?a2 = "?a1\<lparr>al_state := s, al_pc := Sending (entry_msg ?e r)\<rparr>"
    let ?a3 = "?a2\<lparr>al_ch := []\<rparr>" and ?a4 = "?a2\<lparr>al_ch := [entry_msg ?e r], al_pc := Draining\<rparr>"
    have "apply_run m hist a ?a1"
      by (rule run_own [OF run_start, where l = DoNext and now = 0])
        (use assms False in \<open>simp add: apply_next_def Let_def\<close>)
    then have "apply_run m hist a ?a2" by (rule run_own [where l = DoApply and now = 0]) (simp add: r)
    then have "apply_run m hist a ?a3" by (rule apply_run_empty)
    then have "apply_run m hist a ?a4"
      by (rule run_own [where l = DoSend and now = 0]) (simp add: applyCh_cap_def)
    then show ?thesis using ag by (intro exI [of _ ?a4]) simp
  qed
qed

text \<open>
  C22: the loop does not get stuck: from the head of its inner loop, as long as the consumer empties
  \<open>applyCh\<close>, it can go on to where everything committed is applied and it waits for the next signal.
\<close>

theorem apply_loop_drains:
  assumes "agreed hist (al_node a)" and "al_pc a = Draining"
    and "lastApplied (al_node a) \<le> commitIndex (al_node a)"
  shows "\<exists>a'. apply_run m hist a a' \<and> al_pc a' = Selecting
     \<and> lastApplied (al_node a') = commitIndex (al_node a) \<and> commitIndex (al_node a') = commitIndex (al_node a)"
  using assms
proof (induction "unat (commitIndex (al_node a)) - unat (lastApplied (al_node a))" arbitrary: a)
  case 0
  then have eq: "lastApplied (al_node a) = commitIndex (al_node a)" by (simp add: u64_nat word_unat_eq_iff)
  have "apply_run m hist a (a\<lparr>al_node := al_node a, al_pc := Selecting\<rparr>)"
    by (rule run_own [OF run_start, where l = DoNext and now = 0]) (use 0 eq in \<open>simp add: apply_next_def\<close>)
  then show ?case using eq by (intro exI [of _ "a\<lparr>al_node := al_node a, al_pc := Selecting\<rparr>"]) simp
next
  case (Suc d)
  then have lt: "lastApplied (al_node a) < commitIndex (al_node a)" by (simp add: u64_nat)
  obtain b where b: "apply_run m hist a b" "al_pc b = Draining" "agreed hist (al_node b)"
      "lastApplied (al_node b) = lastApplied (al_node a) + 1" "commitIndex (al_node b) = commitIndex (al_node a)"
    using apply_one [OF Suc.prems(1,2) lt] by blast
  have u: "unat (lastApplied (al_node b)) = unat (lastApplied (al_node a)) + 1"
    using agreed_next(1) [OF Suc.prems(1) lt] b(4) by simp
  have "d = unat (commitIndex (al_node b)) - unat (lastApplied (al_node b))"
      "lastApplied (al_node b) \<le> commitIndex (al_node b)"
    using Suc.hyps(2) u b(5) lt by (simp_all add: u64_nat)
  from Suc.hyps(1) [OF this(1) b(3,2) this(2)] show ?case
    using apply_run_trans [OF _ b(1)] b(5) by auto
qed

section \<open>An example machine\<close>

text \<open>A machine that keeps the commands it was given, and a committed sequence of two commands.\<close>

definition journal :: "(bytes list, unit) StateMachine" where
  "journal = \<lparr>sm_Apply = (\<lambda>c s. ((), s @ [c])), sm_Snapshot = (\<lambda>s. None), sm_Restore = (\<lambda>d s. (True, s))\<rparr>"

definition two_commands :: "nat \<Rightarrow> LogEntry" where
  "two_commands j = mark_entry (of_nat j) 1"

definition journal_loop :: "(bytes list, unit) ApplyLoop" where
  "journal_loop = \<lparr>al_node = (fresh_node ''n1'' ''a'' [''b''])\<lparr>rlog := two_entries, commitIndex := 2, commitNotifyC := True\<rparr>,
     al_state = [], al_pc = Selecting, al_ch = []\<rparr>"

lemma journal_loop_ok: "agreed two_commands (al_node journal_loop)"
proof -
  have "log_map two_entries j = Some (mark_entry (of_nat j) 1)" if "0 < j" "j \<le> 2" for j
  proof -
    from that have "j = 1 \<or> j = 2" by auto
    then show ?thesis by (auto simp: two_entries_def log_map_append)
  qed
  then show ?thesis by (simp add: agreed_def journal_loop_def two_commands_def)
qed

text \<open>After the signal the loop can apply both commands.\<close>

lemma journal_run:
  obtains a where "apply_run journal two_commands journal_loop a" "al_pc a = Draining" "unat (lastApplied (al_node a)) = 2"
proof -
  let ?b = "journal_loop\<lparr>al_node := (al_node journal_loop)\<lparr>commitNotifyC := False\<rparr>, al_pc := Draining\<rparr>"
  have b: "apply_run journal two_commands journal_loop ?b"
    by (rule run_own [OF run_start, where l = OnCommit and now = 0]) (simp add: journal_loop_def)
  have ag: "agreed two_commands (al_node ?b)"
    using journal_loop_ok agreed_frame [of "al_node ?b" "al_node journal_loop"] by simp
  have z: "lastApplied (al_node ?b) = 0" "commitIndex (al_node ?b) = 2" by (simp_all add: journal_loop_def)
  obtain c where c: "apply_run journal two_commands ?b c" "al_pc c = Draining" "agreed two_commands (al_node c)"
      "lastApplied (al_node c) = 1" "commitIndex (al_node c) = 2"
    using apply_one [OF ag, of journal] z by (auto simp: u64_nat)
  obtain d where d: "apply_run journal two_commands c d" "al_pc d = Draining" "lastApplied (al_node d) = 1 + 1"
    using apply_one [OF c(3,2), of journal] c(4,5) by (auto simp: u64_nat)
  show thesis
    by (rule that [OF apply_run_trans [OF d(1) apply_run_trans [OF c(1) b]] d(2)]) (simp add: d(3))
qed

theorem apply_loop_replays_witness:
  "\<exists>a. apply_run journal two_commands journal_loop a
     \<and> al_state a = [le_Command (two_commands 1), le_Command (two_commands 2)]"
proof -
  obtain a where a: "apply_run journal two_commands journal_loop a" "al_pc a = Draining" "unat (lastApplied (al_node a)) = 2"
    by (rule journal_run)
  have "snapshotNotifyC (al_node journal_loop) = None"
    by (simp add: journal_loop_def fresh_node_def NewRaftNode_def Let_def)
  then have "al_state a = replay journal (commands two_commands 0 2) []"
    using a apply_loop_replays [OF a(1) _ _ journal_loop_ok _ refl] by (simp add: journal_loop_def seen_def)
  moreover have "commands two_commands 0 2 = [le_Command (two_commands 1), le_Command (two_commands 2)]"
    using commands_Suc [of 0 0 two_commands] commands_Suc [of 0 1 two_commands]
    by (simp add: two_commands_def mark_entry_def zero_entry_def numeral_2_eq_2)
  ultimately show ?thesis using a(1) by (auto simp: replay_def journal_def)
qed

theorem apply_loop_drains_witness:
  "\<exists>a'. apply_run journal two_commands (journal_loop\<lparr>al_pc := Draining\<rparr>) a' \<and> al_pc a' = Selecting
     \<and> lastApplied (al_node a') = 2"
  using apply_loop_drains [of two_commands "journal_loop\<lparr>al_pc := Draining\<rparr>" journal] journal_loop_ok
  by (auto simp: journal_loop_def)

end
