(* ===== verification/Codec.thy ===== *)
theory Codec
  imports Prelude
begin

text \<open>
  The sources encode their messages, files and commands with \<open>encoding/json\<close>, \<open>encoding/gob\<close> and
  protobuf; the development takes these codecs as parameters of which it assumes only that they decode
  what they encode (for JSON: values whose strings are valid UTF-8). This theory has a concrete codec of
  that kind, used where an example run has to compute: a record is the list of its fields, a field is its bytes, each after a 1, and a 0.
\<close>

section \<open>Lists of byte strings\<close>

fun list_enc :: "('a \<Rightarrow> bytes) \<Rightarrow> 'a list \<Rightarrow> bytes" where
  "list_enc f [] = [0]"
| "list_enc f (x # xs) = 1 # f x @ list_enc f xs"

definition field_enc :: "bytes \<Rightarrow> bytes" where
  "field_enc = list_enc (\<lambda>b. [b])"

fun field_dec :: "bytes \<Rightarrow> (bytes \<times> bytes) option" where
  "field_dec (b # bs) = (if b = 0 then Some ([], bs) else
     (case bs of [] \<Rightarrow> None | c # cs \<Rightarrow> map_option (apfst (Cons c)) (field_dec cs)))"
| "field_dec [] = None"

fun fields_dec_at :: "nat \<Rightarrow> bytes \<Rightarrow> bytes list option" where
  "fields_dec_at 0 bs = None"
| "fields_dec_at (Suc k) [] = None"
| "fields_dec_at (Suc k) (b # bs) = (if b = 0 then Some [] else
     (case field_dec bs of None \<Rightarrow> None | Some (s, cs) \<Rightarrow> map_option (Cons s) (fields_dec_at k cs)))"

definition fields_enc :: "bytes list \<Rightarrow> bytes" where
  "fields_enc = list_enc field_enc"

definition fields_dec :: "bytes \<Rightarrow> bytes list option" where
  "fields_dec bs = fields_dec_at (length bs) bs"

lemma field_dec_enc [simp]: "field_dec (field_enc s @ bs) = Some (s, bs)"
  by (induction s) (simp_all add: field_enc_def)

lemma fields_dec_at_enc: "length xs < k \<Longrightarrow> fields_dec_at k (list_enc field_enc xs) = Some xs"
proof (induction xs arbitrary: k)
  case Nil
  then show ?case by (cases k) simp_all
next
  case (Cons x xs)
  then obtain j where "k = Suc j" "length xs < j" by (cases k) auto
  then show ?case using Cons.IH [of j] by simp
qed

lemma length_list_enc: "length xs < length (list_enc f xs)"
  by (induction xs) auto

lemma fields_dec_enc [simp]: "fields_dec (fields_enc xs) = Some xs"
  unfolding fields_dec_def fields_enc_def by (intro fields_dec_at_enc length_list_enc)

section \<open>Fields\<close>

definition str_bytes :: "string \<Rightarrow> bytes" where
  "str_bytes s = map (\<lambda>c. of_nat (of_char c)) s"

definition bytes_str :: "bytes \<Rightarrow> string" where
  "bytes_str bs = map (\<lambda>b. char_of (unat b)) bs"

definition u64_bytes :: "u64 \<Rightarrow> bytes" where
  "u64_bytes w = map (\<lambda>i. if bit w i then 1 else 0) [0..<64]"

definition bytes_u64 :: "bytes \<Rightarrow> u64" where
  "bytes_u64 bs = horner_sum of_bool 2 (map (\<lambda>b. b = 1) bs)"

definition bool_bytes :: "bool \<Rightarrow> bytes" where
  "bool_bytes b = (if b then [1] else [0])"

definition bytes_bool :: "bytes \<Rightarrow> bool" where
  "bytes_bool bs \<longleftrightarrow> bs = [1]"

lemma str_field [simp]: "bytes_str (str_bytes s) = s"
proof -
  have "char_of (unat (of_nat (of_char c) :: 8 word)) = c" for c :: char
  proof -
    have "(of_char c :: nat) < 256" by simp
    then have "unat (of_nat (of_char c) :: 8 word) = of_char c" by (simp add: unat_of_nat)
    then show ?thesis by simp
  qed
  then show ?thesis by (simp add: bytes_str_def str_bytes_def o_def)
qed

lemma u64_field [simp]: "bytes_u64 (u64_bytes w) = w"
proof -
  have "map (\<lambda>b. b = 1) (u64_bytes w) = map (bit w) [0..<64]" by (simp add: u64_bytes_def)
  then have "bytes_u64 (u64_bytes w) = take_bit 64 w"
    by (simp only: bytes_u64_def horner_sum_bit_eq_take_bit)
  also have "\<dots> = w" by (rule take_bit_word_eq_self) simp
  finally show ?thesis .
qed

lemma bool_field [simp]: "bytes_bool (bool_bytes b) = b"
  by (simp add: bytes_bool_def bool_bytes_def)

end
