(* ===== verification/KVStore.thy ===== *)
theory KVStore
  imports Apply Codec "HOL-Library.Finite_Map" "HOL-Library.List_Lexorder" "HOL-Library.Char_ord"
begin

text \<open>
  \<open>src/kvstore/kvstore.go\<close>: the key-value store that runs on the log. The Go map of the data is a
  finite map; a result channel (of capacity 1) is a number, and the
  store records what was sent on each. The bytes that \<open>encoding/gob\<close> writes depend on the order in
  which a process first used its types, so the codec is a parameter of every definition that uses it
  and \<open>gob_ok\<close> states its round trips.
\<close>

section \<open>Data\<close>

record op =
  op_Type :: string
  op_Key :: string
  op_Value :: string

record gob =
  op_enc :: "op \<Rightarrow> bytes"
  op_dec :: "bytes \<Rightarrow> op option"
  data_enc :: "(string, string) fmap \<Rightarrow> bytes"
  data_dec :: "bytes \<Rightarrow> (string, string) fmap option"

definition gob_ok :: "gob \<Rightarrow> bool" where
  "gob_ok g \<longleftrightarrow> (\<forall>o'. op_dec g (op_enc g o') = Some o') \<and> (\<forall>d. data_dec g (data_enc g d) = Some d)"

datatype kv_error = KVNotLeader | ErrKeyNotFound | ErrTimeout | DecodeError | UnknownOp string

record applyResult =
  ar_Value :: string
  ar_Err :: "kv_error option"

record pendingCall =
  pc_term :: u64
  pc_ch :: nat

record KVStore =
  kv_data :: "(string, string) fmap"
  kv_pending :: "(u64, pendingCall) fmap"
  kv_threshold :: u64
  kv_chans :: "nat \<Rightarrow> applyResult list"

definition kv_New :: KVStore where
  "kv_New = \<lparr>kv_data = fmempty, kv_pending = fmempty, kv_threshold = 100, kv_chans = (\<lambda>_. [])\<rparr>"

definition SetSnapshotThreshold :: "u64 \<Rightarrow> KVStore \<Rightarrow> KVStore" where
  "SetSnapshotThreshold k kv = kv\<lparr>kv_threshold := k\<rparr>"

section \<open>The state machine\<close>

definition encodeOp :: "gob \<Rightarrow> op \<Rightarrow> bytes" where
  "encodeOp g o' = op_enc g o'"

definition decodeOp :: "gob \<Rightarrow> bytes \<Rightarrow> op option" where
  "decodeOp g data = op_dec g data"

definition kv_Get :: "string \<Rightarrow> KVStore \<Rightarrow> kv_error + string" where
  "kv_Get key kv = (case fmlookup (kv_data kv) key of None \<Rightarrow> Inl ErrKeyNotFound | Some v \<Rightarrow> Inr v)"

definition ok_result :: applyResult where
  "ok_result = \<lparr>ar_Value = '''', ar_Err = None\<rparr>"

definition err_result :: "kv_error \<Rightarrow> applyResult" where
  "err_result e = \<lparr>ar_Value = '''', ar_Err = Some e\<rparr>"

definition kv_Apply :: "gob \<Rightarrow> bytes \<Rightarrow> KVStore \<Rightarrow> applyResult \<times> KVStore" where
  "kv_Apply g command kv =
     (case decodeOp g command of
        None \<Rightarrow> (err_result DecodeError, kv)
      | Some o' \<Rightarrow>
          if op_Type o' = ''SET'' then (ok_result, kv\<lparr>kv_data := fmupd (op_Key o') (op_Value o') (kv_data kv)\<rparr>)
          else if op_Type o' = ''DEL'' then (ok_result, kv\<lparr>kv_data := fmdrop (op_Key o') (kv_data kv)\<rparr>)
          else (err_result (UnknownOp (op_Type o')), kv))"

definition kv_Snapshot :: "gob \<Rightarrow> KVStore \<Rightarrow> bytes option" where
  "kv_Snapshot g kv = Some (data_enc g (kv_data kv))"

text \<open>\<open>True\<close> is an error; the data is then left alone.\<close>

definition kv_Restore :: "gob \<Rightarrow> bytes \<Rightarrow> KVStore \<Rightarrow> bool \<times> KVStore" where
  "kv_Restore g snapshot kv =
     (case data_dec g snapshot of None \<Rightarrow> (True, kv) | Some d \<Rightarrow> (False, kv\<lparr>kv_data := d\<rparr>))"

section \<open>Client calls\<close>

definition Set_op :: "string \<Rightarrow> string \<Rightarrow> op" where
  "Set_op key value = \<lparr>op_Type = ''SET'', op_Key = key, op_Value = value\<rparr>"

definition Delete_op :: "string \<Rightarrow> op" where
  "Delete_op key = \<lparr>op_Type = ''DEL'', op_Key = key, op_Value = ''''\<rparr>"

text \<open>\<open>call\<close> up to \<open>Submit\<close>, then the registration, then one of the two branches of its \<open>select\<close>.\<close>

definition call_submit :: "gob \<Rightarrow> op \<Rightarrow> RaftNode \<Rightarrow> (kv_error + u64 \<times> u64) \<times> RaftNode \<times> Spawn list" where
  "call_submit g o' n =
     (let (res, n', sends) = Submit (encodeOp g o') n
      in (case res of Inl _ \<Rightarrow> Inl KVNotLeader | Inr r \<Rightarrow> Inr r, n', sends))"

definition call_register :: "u64 \<Rightarrow> u64 \<Rightarrow> nat \<Rightarrow> KVStore \<Rightarrow> KVStore" where
  "call_register index trm ch kv = kv\<lparr>kv_pending := fmupd index \<lparr>pc_term = trm, pc_ch = ch\<rparr> (kv_pending kv)\<rparr>"

definition call_receive :: "nat \<Rightarrow> KVStore \<Rightarrow> (applyResult \<times> KVStore) option" where
  "call_receive ch kv =
     (case kv_chans kv ch of [] \<Rightarrow> None | r # rs \<Rightarrow> Some (r, kv\<lparr>kv_chans := (kv_chans kv)(ch := rs)\<rparr>))"

definition call_timeout :: "u64 \<Rightarrow> KVStore \<Rightarrow> kv_error \<times> KVStore" where
  "call_timeout index kv = (ErrTimeout, kv\<lparr>kv_pending := fmdrop index (kv_pending kv)\<rparr>)"

section \<open>Routing of results\<close>

definition kv_send :: "nat \<Rightarrow> applyResult \<Rightarrow> KVStore \<Rightarrow> KVStore" where
  "kv_send ch r kv = kv\<lparr>kv_chans := (kv_chans kv)(ch := kv_chans kv ch @ [r])\<rparr>"

text \<open>The loop over \<open>pending\<close>, in some order of its keys.\<close>

definition fail_pending :: "u64 \<Rightarrow> KVStore \<Rightarrow> KVStore" where
  "fail_pending idx k =
     (case fmlookup (kv_pending k) idx of
       None \<Rightarrow> k
     | Some call \<Rightarrow> (kv_send (pc_ch call) (err_result KVNotLeader) k)\<lparr>kv_pending := fmdrop idx (kv_pending k)\<rparr>)"

definition failAllPending :: "u64 list \<Rightarrow> KVStore \<Rightarrow> KVStore" where
  "failAllPending idxs kv = fold fail_pending idxs kv"

text \<open>
  The body of the loop of \<open>readApplyCh\<close>: the counter \<open>applied\<close>, the store, and whether the periodic
  snapshot is due. \<open>order\<close> is the order in which the loop over the pending calls visits the map.
\<close>

definition readApplyCh_step ::
    "u64 list \<Rightarrow> applyResult ApplyMsg \<Rightarrow> u64 \<times> KVStore \<Rightarrow> (u64 \<times> KVStore) \<times> bool" where
  "readApplyCh_step order msg st =
     (let (applied, kv) = st in
      if am_IsSnapshot msg then ((am_SnapshotIndex msg, failAllPending order kv), False)
      else
        let r = (case am_Result msg of None \<Rightarrow> ok_result | Some r \<Rightarrow> r);
            applied1 = applied + 1;
            kv1 = kv\<lparr>kv_pending := fmdrop (am_Index msg) (kv_pending kv)\<rparr>;
            kv2 = (case fmlookup (kv_pending kv) (am_Index msg) of
                     None \<Rightarrow> kv1
                   | Some call \<Rightarrow> kv_send (pc_ch call)
                       (if pc_term call \<noteq> am_Term msg then err_result KVNotLeader else r) kv1)
        in ((applied1, kv2), kv_threshold kv2 > 0 \<and> applied1 mod kv_threshold kv2 = 0))"

section \<open>The store as a state machine\<close>

definition kv_machine :: "gob \<Rightarrow> (KVStore, applyResult) StateMachine" where
  "kv_machine g = \<lparr>sm_Apply = kv_Apply g, sm_Snapshot = kv_Snapshot g, sm_Restore = kv_Restore g\<rparr>"

lemma kv_machine_simps [simp]:
  "sm_Apply (kv_machine g) = kv_Apply g" "sm_Snapshot (kv_machine g) = kv_Snapshot g"
  "sm_Restore (kv_machine g) = kv_Restore g"
  by (simp_all add: kv_machine_def)

interpretation kv: state_machine kv_machine gob_ok kv_data
proof
  fix s t :: KVStore and g c
  assume "kv_data s = kv_data t"
  then show "fst (sm_Apply (kv_machine g) c s) = fst (sm_Apply (kv_machine g) c t)
      \<and> kv_data (snd (sm_Apply (kv_machine g) c s)) = kv_data (snd (sm_Apply (kv_machine g) c t))"
    by (simp add: kv_Apply_def split: option.split)
next
  fix g d and s t :: KVStore
  assume "gob_ok g" and "sm_Snapshot (kv_machine g) s = Some d"
  then show "\<not> fst (sm_Restore (kv_machine g) d t) \<and> kv_data (snd (sm_Restore (kv_machine g) d t)) = kv_data s"
    by (auto simp: kv_Snapshot_def kv_Restore_def gob_ok_def)
qed

text \<open>What the store promises: the last write to a key, \<open>None\<close> if there was none, wins.\<close>

definition writes :: "string \<Rightarrow> op \<Rightarrow> bool" where
  "writes key o' \<longleftrightarrow> op_Key o' = key \<and> (op_Type o' = ''SET'' \<or> op_Type o' = ''DEL'')"

fun last_write :: "string \<Rightarrow> op list \<Rightarrow> op option" where
  "last_write key [] = None"
| "last_write key (o' # os) =
     (case last_write key os of Some w \<Rightarrow> Some w | None \<Rightarrow> if writes key o' then Some o' else None)"

definition read_after :: "string \<Rightarrow> op list \<Rightarrow> KVStore \<Rightarrow> kv_error + string" where
  "read_after key os kv = (case last_write key os of
      None \<Rightarrow> kv_Get key kv
    | Some w \<Rightarrow> if op_Type w = ''SET'' then Inr (op_Value w) else Inl ErrKeyNotFound)"

lemma kv_Get_data: "kv_data s = kv_data t \<Longrightarrow> kv_Get key s = kv_Get key t"
  by (simp add: kv_Get_def)

lemma kv_Get_Apply:
  "gob_ok g \<Longrightarrow> kv_Get key (snd (kv_Apply g (encodeOp g o') kv)) =
     (if writes key o' then if op_Type o' = ''SET'' then Inr (op_Value o') else Inl ErrKeyNotFound
      else kv_Get key kv)"
  by (auto simp: kv_Get_def kv_Apply_def encodeOp_def decodeOp_def gob_ok_def writes_def split: if_splits)

text \<open>
  C15: after any sequence of committed operations a read returns the value of the last operation
  that wrote its key: the value of a \<open>SET\<close>, \<open>ErrKeyNotFound\<close> after a \<open>DEL\<close>, and what the store held
  before if none did; operations of another type change nothing.
\<close>

theorem kv_last_write_wins:
  assumes "gob_ok g"
  shows "kv_Get key (replay (kv_machine g) (map (encodeOp g) os) kv) = read_after key os kv"
proof (induction os arbitrary: kv)
  case (Cons o' os)
  then show ?case
    using assms by (auto simp: read_after_def kv_Get_Apply split: option.split)
qed (simp add: read_after_def)

text \<open>
  C16: a store restored from a snapshot (for instance that of a follower that was sent it) and given
  the commands after it answers every read as the store that was given all commands, and gives every
  command the same result.
\<close>

theorem kv_snapshot_replay:
  assumes "gob_ok g" and "kv_Snapshot g (replay (kv_machine g) cs kv) = Some d"
  shows "kv_Get key (replay (kv_machine g) ds (snd (kv_Restore g d kv')))
           = kv_Get key (replay (kv_machine g) (cs @ ds) kv)
     \<and> fst (kv_Apply g c (replay (kv_machine g) ds (snd (kv_Restore g d kv'))))
           = fst (kv_Apply g c (replay (kv_machine g) (cs @ ds) kv))"
proof -
  have *: "kv_data (replay (kv_machine g) ds (snd (kv_Restore g d kv'))) = kv_data (replay (kv_machine g) (cs @ ds) kv)"
    using kv.snapshot_then_replay [of g cs kv d ds kv'] assms by simp
  show ?thesis using kv_Get_data [OF *] conjunct1 [OF kv.apply_view [OF *, of g c]] by simp
qed

section \<open>A codec\<close>

text \<open>A codec with the round trips of \<open>gob_ok\<close>, on which concrete runs evaluate.\<close>

fun pair_up :: "bytes list \<Rightarrow> (string \<times> string) list" where
  "pair_up (k # v # xs) = (bytes_str k, bytes_str v) # pair_up xs"
| "pair_up xs = []"

definition plain_gob :: gob where
  "plain_gob = \<lparr>
     op_enc = (\<lambda>o'. fields_enc [str_bytes (op_Type o'), str_bytes (op_Key o'), str_bytes (op_Value o')]),
     op_dec = (\<lambda>bs. case fields_dec bs of
        Some [t, k, v] \<Rightarrow> Some \<lparr>op_Type = bytes_str t, op_Key = bytes_str k, op_Value = bytes_str v\<rparr> | _ \<Rightarrow> None),
     data_enc = (\<lambda>d. fields_enc (concat (map (\<lambda>(k, v). [str_bytes k, str_bytes v]) (sorted_list_of_fmap d)))),
     data_dec = (\<lambda>bs. map_option (\<lambda>xs. fmap_of_list (pair_up xs)) (fields_dec bs))\<rparr>"

lemma pair_up_concat [simp]: "pair_up (concat (map (\<lambda>(k, v). [str_bytes k, str_bytes v]) d)) = d"
  by (induction d) auto

lemma plain_gob_ok: "gob_ok plain_gob"
proof -
  have "fmap_of_list (sorted_list_of_fmap d) = d" for d :: "(string, string) fmap"
    by (rule fmap_ext) (simp add: fmlookup_of_list)
  then show ?thesis unfolding gob_ok_def plain_gob_def by simp
qed

theorem kv_last_write_wins_witness:
  "gob_ok plain_gob \<and> kv_Get ''x'' (replay (kv_machine plain_gob) (map (encodeOp plain_gob)
     [Set_op ''x'' ''1'', Set_op ''x'' ''2'', Delete_op ''y'']) kv_New) = Inr ''2''"
  using plain_gob_ok kv_last_write_wins [OF plain_gob_ok, of "''x''" "[Set_op ''x'' ''1'', Set_op ''x'' ''2'', Delete_op ''y'']" kv_New]
  by (simp add: read_after_def writes_def Set_op_def Delete_op_def)

theorem kv_snapshot_replay_witness:
  "kv_Get ''x'' (replay (kv_machine plain_gob) [encodeOp plain_gob (Delete_op ''y'')]
       (snd (kv_Restore plain_gob (data_enc plain_gob (fmupd ''x'' ''1'' fmempty)) kv_New))) = Inr ''1''"
proof -
  let ?s = "[encodeOp plain_gob (Set_op ''x'' ''1'')]"
  have "kv_Snapshot plain_gob (replay (kv_machine plain_gob) ?s kv_New)
      = Some (data_enc plain_gob (fmupd ''x'' ''1'' fmempty))"
    using plain_gob_ok
    by (simp add: kv_Snapshot_def kv_Apply_def encodeOp_def decodeOp_def gob_ok_def Set_op_def kv_New_def)
  note kv_snapshot_replay [OF plain_gob_ok this, of "''x''" "[encodeOp plain_gob (Delete_op ''y'')]" kv_New "[]"]
  then show ?thesis using plain_gob_ok
    by (simp add: kv_Apply_def encodeOp_def decodeOp_def gob_ok_def Set_op_def Delete_op_def kv_New_def kv_Get_def)
qed

end
