(* ===== verification/KVSystem.thy ===== *)
theory KVSystem
  imports KVStore
begin

text \<open>
  The goroutines around one \<open>KVStore\<close> of \<open>src/kvstore/kvstore.go\<close>: the client calls, the apply loop of
  the node, and \<open>readApplyCh\<close>. A call is split at the points where it takes a lock or blocks; the
  number of a call is also that of its result channel. The rest of the system may change the node at
  any time.
\<close>

section \<open>State\<close>

datatype call_phase = Unregistered | Blocked | Returned_with "kv_error + string"

record client_call =
  cc_op :: op
  cc_at :: "(u64 \<times> u64) option"
  cc_phase :: call_phase

text \<open>The reader of \<open>applyCh\<close> waits, is about to call \<open>Snapshot\<close>, or about to call \<open>TakeSnapshot\<close>.\<close>

datatype reader_pc = Reading | SnapshotDue | Taking bytes

text \<open>\<open>ks_hist\<close> is a history variable: what \<open>Apply\<close> answered for which entry. No step reads it.\<close>

record KVSystem =
  ks_loop :: "(KVStore, applyResult) ApplyLoop"
  ks_applied :: u64
  ks_reader :: reader_pc
  ks_calls :: "client_call list"
  ks_hist :: "(u64 \<times> u64 \<times> applyResult) list"

definition kv_start :: "RaftNode \<Rightarrow> KVStore \<Rightarrow> KVSystem" where
  "kv_start n kv = \<lparr>ks_loop = \<lparr>al_node = n, al_state = kv, al_pc = Selecting, al_ch = []\<rparr>, ks_applied = 0,
     ks_reader = Reading, ks_calls = [], ks_hist = []\<rparr>"

abbreviation ks_node :: "KVSystem \<Rightarrow> RaftNode" where
  "ks_node s \<equiv> al_node (ks_loop s)"

abbreviation ks_store :: "KVSystem \<Rightarrow> KVStore" where
  "ks_store s \<equiv> al_state (ks_loop s)"

definition set_store :: "KVStore \<Rightarrow> KVSystem \<Rightarrow> KVSystem" where
  "set_store kv s = s\<lparr>ks_loop := (ks_loop s)\<lparr>al_state := kv\<rparr>\<rparr>"

definition set_ks_node :: "RaftNode \<Rightarrow> KVSystem \<Rightarrow> KVSystem" where
  "set_ks_node n s = s\<lparr>ks_loop := (ks_loop s)\<lparr>al_node := n\<rparr>\<rparr>"

definition set_phase :: "nat \<Rightarrow> call_phase \<Rightarrow> KVSystem \<Rightarrow> KVSystem" where
  "set_phase i ph s = s\<lparr>ks_calls := (ks_calls s)[i := (ks_calls s ! i)\<lparr>cc_phase := ph\<rparr>]\<rparr>"

section \<open>Steps\<close>

text \<open>\<open>return r.Value, r.Err\<close>.\<close>

definition call_result :: "applyResult \<Rightarrow> kv_error + string" where
  "call_result r = (case ar_Err r of None \<Rightarrow> Inr (ar_Value r) | Some e \<Rightarrow> Inl e)"

text \<open>\<open>call\<close> up to the registration: a refused \<open>Submit\<close> returns at once.\<close>

definition kv_call :: "gob \<Rightarrow> op \<Rightarrow> KVSystem \<Rightarrow> KVSystem" where
  "kv_call g o' s =
     (let (res, n, _) = call_submit g o' (ks_node s);
          c = (case res of
                 Inl e \<Rightarrow> \<lparr>cc_op = o', cc_at = None, cc_phase = Returned_with (Inl e)\<rparr>
               | Inr it \<Rightarrow> \<lparr>cc_op = o', cc_at = Some it, cc_phase = Unregistered\<rparr>)
      in (set_ks_node n s)\<lparr>ks_calls := ks_calls s @ [c]\<rparr>)"

definition kv_register :: "nat \<Rightarrow> KVSystem \<Rightarrow> KVSystem option" where
  "kv_register i s =
     (if i < length (ks_calls s) then
        case (cc_phase (ks_calls s ! i), cc_at (ks_calls s ! i)) of
          (Unregistered, Some (index, trm)) \<Rightarrow>
            Some (set_phase i Blocked (set_store (call_register index trm i (ks_store s)) s))
        | _ \<Rightarrow> None
      else None)"

definition kv_receive :: "nat \<Rightarrow> KVSystem \<Rightarrow> KVSystem option" where
  "kv_receive i s =
     (if i < length (ks_calls s) \<and> cc_phase (ks_calls s ! i) = Blocked then
        case call_receive i (ks_store s) of
          None \<Rightarrow> None
        | Some (r, kv) \<Rightarrow> Some (set_phase i (Returned_with (call_result r)) (set_store kv s))
      else None)"

definition kv_timeout :: "nat \<Rightarrow> KVSystem \<Rightarrow> KVSystem option" where
  "kv_timeout i s =
     (if i < length (ks_calls s) then
        case (cc_phase (ks_calls s ! i), cc_at (ks_calls s ! i)) of
          (Blocked, Some (index, trm)) \<Rightarrow>
            let (e, kv) = call_timeout index (ks_store s)
            in Some (set_phase i (Returned_with (Inl e)) (set_store kv s))
        | _ \<Rightarrow> None
      else None)"

text \<open>A step of the apply loop, with the answer of \<open>Apply\<close> recorded.\<close>

definition kv_loop :: "gob \<Rightarrow> instant \<Rightarrow> apply_label \<Rightarrow> KVSystem \<Rightarrow> KVSystem option" where
  "kv_loop g now l s =
     map_option (\<lambda>a. s\<lparr>ks_loop := a,
         ks_hist := (case al_pc a of Sending msg \<Rightarrow>
                       (am_Index msg, am_Term msg, the (am_Result msg)) # ks_hist s
                     | _ \<Rightarrow> ks_hist s)\<rparr>)
       (apply_step (kv_machine g) now l (ks_loop s))"

text \<open>\<open>readApplyCh\<close> takes one message; \<open>order\<close> is the order in which a loop over \<open>pending\<close> visits it.\<close>

definition kv_route :: "u64 list \<Rightarrow> KVSystem \<Rightarrow> KVSystem option" where
  "kv_route order s =
     (case (ks_reader s, al_ch (ks_loop s)) of
        (Reading, msg # rest) \<Rightarrow>
          if fset_of_list order = fmdom (kv_pending (ks_store s)) then
            let ((applied, kv), due) = readApplyCh_step order msg (ks_applied s, ks_store s)
            in Some (s\<lparr>ks_loop := (ks_loop s)\<lparr>al_state := kv, al_ch := rest\<rparr>, ks_applied := applied,
                       ks_reader := (if due then SnapshotDue else Reading)\<rparr>)
          else None
      | _ \<Rightarrow> None)"

definition kv_take_data :: "gob \<Rightarrow> KVSystem \<Rightarrow> KVSystem option" where
  "kv_take_data g s =
     (case ks_reader s of
        SnapshotDue \<Rightarrow> Some (s\<lparr>ks_reader := (case kv_Snapshot g (ks_store s) of
                               None \<Rightarrow> Reading | Some data \<Rightarrow> Taking data)\<rparr>)
      | _ \<Rightarrow> None)"

definition kv_take_snapshot :: "KVSystem \<Rightarrow> KVSystem option" where
  "kv_take_snapshot s =
     (case ks_reader s of
        Taking data \<Rightarrow> Some ((set_ks_node (snd (TakeSnapshot data (ks_node s))) s)\<lparr>ks_reader := Reading\<rparr>)
      | _ \<Rightarrow> None)"

datatype kv_label =
    KCall op | KRegister nat | KReceive nat | KTimeout nat
  | KLoop instant apply_label | KRoute "u64 list" | KSnapshot | KTake | KNode "RaftNode \<Rightarrow> RaftNode"

fun kv_step :: "gob \<Rightarrow> kv_label \<Rightarrow> KVSystem \<Rightarrow> KVSystem option" where
  "kv_step g (KCall o') s = Some (kv_call g o' s)"
| "kv_step g (KRegister i) s = kv_register i s"
| "kv_step g (KReceive i) s = kv_receive i s"
| "kv_step g (KTimeout i) s = kv_timeout i s"
| "kv_step g (KLoop now l) s = kv_loop g now l s"
| "kv_step g (KRoute order) s = kv_route order s"
| "kv_step g KSnapshot s = kv_take_data g s"
| "kv_step g KTake s = kv_take_snapshot s"
| "kv_step g (KNode f) s = Some (set_ks_node (f (ks_node s)) s)"

inductive kv_reach :: "gob \<Rightarrow> KVSystem \<Rightarrow> KVSystem \<Rightarrow> bool" for g :: gob and s0 :: KVSystem where
  kv_reach_start: "kv_reach g s0 s0"
| kv_reach_step: "kv_reach g s0 s \<Longrightarrow> kv_step g l s = Some s' \<Longrightarrow> kv_reach g s0 s'"

fun kv_run :: "gob \<Rightarrow> kv_label list \<Rightarrow> KVSystem \<Rightarrow> KVSystem option" where
  "kv_run g [] s = Some s"
| "kv_run g (l # ls) s = (case kv_step g l s of None \<Rightarrow> None | Some s' \<Rightarrow> kv_run g ls s')"

lemma kv_run_reach: "kv_reach g s0 s \<Longrightarrow> kv_run g ls s = Some s' \<Longrightarrow> kv_reach g s0 s'"
  by (induction ls arbitrary: s) (auto split: option.splits intro: kv_reach_step)

section \<open>Which answers a call can get\<close>

text \<open>
  \<open>answer_ok\<close>: a result on the channel of a call is a refusal or what \<open>Apply\<close> answered for the entry
  with the index and term of the call.
\<close>

definition answer_ok :: "(u64 \<times> u64 \<times> applyResult) list \<Rightarrow> (u64 \<times> u64) option \<Rightarrow> applyResult \<Rightarrow> bool" where
  "answer_ok h at' r \<longleftrightarrow> r = err_result KVNotLeader \<or> (\<exists>i t. at' = Some (i, t) \<and> (i, t, r) \<in> set h)"

definition msg_ok :: "(u64 \<times> u64 \<times> applyResult) list \<Rightarrow> applyResult ApplyMsg \<Rightarrow> bool" where
  "msg_ok h msg \<longleftrightarrow> am_IsSnapshot msg
     \<or> (\<exists>r. am_Result msg = Some r \<and> (am_Index msg, am_Term msg, r) \<in> set h)"

text \<open>A pending call is blocked, belongs to the index it is stored under, and its channel is empty.\<close>

definition pend_ok :: "client_call list \<Rightarrow> KVStore \<Rightarrow> bool" where
  "pend_ok cs kv \<longleftrightarrow> (\<forall>idx c. fmlookup (kv_pending kv) idx = Some c \<longrightarrow>
     pc_ch c < length cs \<and> cc_phase (cs ! pc_ch c) = Blocked
     \<and> cc_at (cs ! pc_ch c) = Some (idx, pc_term c) \<and> kv_chans kv (pc_ch c) = [])"

definition chan_ok :: "client_call list \<Rightarrow> (u64 \<times> u64 \<times> applyResult) list \<Rightarrow> KVStore \<Rightarrow> bool" where
  "chan_ok cs h kv \<longleftrightarrow> (\<forall>ch. kv_chans kv ch = []
     \<or> ch < length cs \<and> cc_phase (cs ! ch) \<noteq> Unregistered \<and> (\<exists>r. kv_chans kv ch = [r] \<and> answer_ok h (cc_at (cs ! ch)) r))"

definition call_done_ok :: "(u64 \<times> u64 \<times> applyResult) list \<Rightarrow> client_call \<Rightarrow> bool" where
  "call_done_ok h c \<longleftrightarrow> (\<forall>res. cc_phase c = Returned_with res \<longrightarrow>
     res = Inl ErrTimeout \<or> (\<exists>r. answer_ok h (cc_at c) r \<and> res = call_result r))"

definition loop_ok :: "(u64 \<times> u64 \<times> applyResult) list \<Rightarrow> (KVStore, applyResult) ApplyLoop \<Rightarrow> bool" where
  "loop_ok h a \<longleftrightarrow> (\<forall>msg \<in> set (al_ch a). msg_ok h msg)
     \<and> (case al_pc a of Sending msg \<Rightarrow> msg_ok h msg | SendingSnapshot msg \<Rightarrow> msg_ok h msg | _ \<Rightarrow> True)"

definition kv_inv :: "KVSystem \<Rightarrow> bool" where
  "kv_inv s \<longleftrightarrow> pend_ok (ks_calls s) (ks_store s) \<and> chan_ok (ks_calls s) (ks_hist s) (ks_store s)
     \<and> (\<forall>c \<in> set (ks_calls s). call_done_ok (ks_hist s) c) \<and> loop_ok (ks_hist s) (ks_loop s)"

lemma answer_ok_mono: "answer_ok h at' r \<Longrightarrow> answer_ok (x # h) at' r"
  by (auto simp: answer_ok_def)

lemma msg_ok_mono: "msg_ok h msg \<Longrightarrow> msg_ok (x # h) msg"
  by (auto simp: msg_ok_def)

lemma call_done_ok_mono: "call_done_ok h c \<Longrightarrow> call_done_ok (x # h) c"
  unfolding call_done_ok_def using answer_ok_mono by blast

lemma chan_ok_mono: "chan_ok cs h kv \<Longrightarrow> chan_ok cs (x # h) kv"
  unfolding chan_ok_def using answer_ok_mono by blast

lemma pend_ok_frame: "kv_pending k = kv_pending kv \<Longrightarrow> kv_chans k = kv_chans kv \<Longrightarrow> pend_ok cs k = pend_ok cs kv"
  by (simp add: pend_ok_def)

lemma chan_ok_frame: "kv_chans k = kv_chans kv \<Longrightarrow> chan_ok cs h k = chan_ok cs h kv"
  by (simp add: chan_ok_def)

lemma send_ok:
  assumes p: "pend_ok cs kv" and c: "chan_ok cs h kv" and l: "fmlookup (kv_pending kv) idx = Some call"
    and a: "answer_ok h (Some (idx, pc_term call)) r"
  shows "pend_ok cs (kv_send (pc_ch call) r (kv\<lparr>kv_pending := fmdrop idx (kv_pending kv)\<rparr>))
    \<and> chan_ok cs h (kv_send (pc_ch call) r (kv\<lparr>kv_pending := fmdrop idx (kv_pending kv)\<rparr>))"
proof
  have call: "pc_ch call < length cs" "cc_phase (cs ! pc_ch call) = Blocked" "cc_at (cs ! pc_ch call) = Some (idx, pc_term call)" "kv_chans kv (pc_ch call) = []"
    using p l by (auto simp: pend_ok_def)
  have "pc_ch c \<noteq> pc_ch call" if "fmlookup (kv_pending kv) i = Some c" "i \<noteq> idx" for i c
    using p that call(3) unfolding pend_ok_def by fastforce
  then show "pend_ok cs (kv_send (pc_ch call) r (kv\<lparr>kv_pending := fmdrop idx (kv_pending kv)\<rparr>))"
    using p by (auto simp: pend_ok_def kv_send_def)
  show "chan_ok cs h (kv_send (pc_ch call) r (kv\<lparr>kv_pending := fmdrop idx (kv_pending kv)\<rparr>))"
    using c call a by (auto simp: chan_ok_def kv_send_def)
qed

lemma fail_pending_ok:
  assumes "pend_ok cs kv" "chan_ok cs h kv"
  shows "pend_ok cs (fail_pending idx kv) \<and> chan_ok cs h (fail_pending idx kv)"
proof (cases "fmlookup (kv_pending kv) idx")
  case (Some call)
  have "fail_pending idx kv = kv_send (pc_ch call) (err_result KVNotLeader) (kv\<lparr>kv_pending := fmdrop idx (kv_pending kv)\<rparr>)"
    by (simp add: fail_pending_def Some kv_send_def)
  then show ?thesis using send_ok [OF assms Some] by (simp add: answer_ok_def)
qed (use assms in \<open>simp add: fail_pending_def\<close>)

lemma failAllPending_ok:
  "pend_ok cs kv \<Longrightarrow> chan_ok cs h kv \<Longrightarrow>
     pend_ok cs (failAllPending idxs kv) \<and> chan_ok cs h (failAllPending idxs kv)"
  unfolding failAllPending_def
  by (induction idxs arbitrary: kv) (simp_all add: fail_pending_ok)

lemma readApplyCh_ok:
  assumes "pend_ok cs kv" "chan_ok cs h kv" "msg_ok h msg"
    and "readApplyCh_step order msg (applied, kv) = ((applied', kv'), due)"
  shows "pend_ok cs kv' \<and> chan_ok cs h kv'"
proof (cases "am_IsSnapshot msg")
  case True
  then show ?thesis using assms failAllPending_ok by (auto simp: readApplyCh_step_def)
next
  case False
  then obtain r where r: "am_Result msg = Some r" "(am_Index msg, am_Term msg, r) \<in> set h"
    using assms(3) by (auto simp: msg_ok_def)
  show ?thesis
  proof (cases "fmlookup (kv_pending kv) (am_Index msg)")
    case None
    then have "kv' = kv\<lparr>kv_pending := fmdrop (am_Index msg) (kv_pending kv)\<rparr>"
      using assms(4) False by (auto simp: readApplyCh_step_def Let_def)
    then show ?thesis using assms(1,2) by (auto simp: pend_ok_def chan_ok_def)
  next
    case (Some call)
    let ?a = "if pc_term call \<noteq> am_Term msg then err_result KVNotLeader else r"
    have kv': "kv' = kv_send (pc_ch call) ?a (kv\<lparr>kv_pending := fmdrop (am_Index msg) (kv_pending kv)\<rparr>)"
      using assms(4) False r(1) Some by (auto simp: readApplyCh_step_def Let_def)
    have "answer_ok h (Some (am_Index msg, pc_term call)) ?a" using r(2) by (auto simp: answer_ok_def)
    from send_ok [OF assms(1,2) Some this] show ?thesis by (simp add: kv')
  qed
qed

lemma kv_Apply_frame:
  "kv_pending (snd (kv_Apply g c kv)) = kv_pending kv" "kv_chans (snd (kv_Apply g c kv)) = kv_chans kv"
  by (simp_all add: kv_Apply_def split: option.split)

lemma kv_Restore_frame:
  "kv_pending (snd (kv_Restore g d kv)) = kv_pending kv" "kv_chans (snd (kv_Restore g d kv)) = kv_chans kv"
  by (simp_all add: kv_Restore_def split: option.split)

lemma apply_step_store:
  assumes "apply_step (kv_machine g) now l a = Some a'"
  shows "kv_pending (al_state a') = kv_pending (al_state a) \<and> kv_chans (al_state a') = kv_chans (al_state a)"
  using assms kv_Apply_frame [of g] kv_Restore_frame [of g]
  by (cases l) (auto simp: case_prod_beta split: apply_pc.splits if_splits option.splits)

lemma apply_step_msgs:
  assumes st: "apply_step (kv_machine g) now l a = Some a'" and ok: "loop_ok h a"
  shows "loop_ok (case al_pc a' of Sending msg \<Rightarrow> (am_Index msg, am_Term msg, the (am_Result msg)) # h | _ \<Rightarrow> h) a'"
proof (cases l)
  case DoRestore
  then show ?thesis
    using assms by (auto simp: loop_ok_def msg_ok_def snapshot_msg_def split: apply_pc.splits)
next
  case DoNext
  then obtain n pc where n: "al_pc a = Draining" "apply_next now (al_node a) = (n, pc)" "a' = a\<lparr>al_node := n, al_pc := pc\<rparr>"
    using st by (auto split: apply_pc.splits prod.splits)
  then have "pc = Draining \<or> pc = Selecting \<or> (\<exists>e. pc = Applying e)"
    by (auto simp: apply_next_def Let_def split: if_splits)
  then show ?thesis using ok n by (auto simp: loop_ok_def)
next
  case DoApply
  then obtain e r kv where "al_pc a = Applying e" "a' = a\<lparr>al_state := kv, al_pc := Sending (entry_msg e r)\<rparr>"
    using st by (auto split: apply_pc.splits prod.splits)
  then show ?thesis using ok msg_ok_mono by (auto simp: loop_ok_def msg_ok_def entry_msg_def)
qed (use assms in \<open>auto simp: loop_ok_def split: apply_pc.splits if_splits option.splits\<close>)

lemma kv_inv_loop:
  assumes "kv_inv s" "kv_loop g now l s = Some s'"
  shows "kv_inv s'"
proof -
  obtain a where a: "apply_step (kv_machine g) now l (ks_loop s) = Some a"
      "s' = s\<lparr>ks_loop := a, ks_hist := (case al_pc a of Sending msg \<Rightarrow>
         (am_Index msg, am_Term msg, the (am_Result msg)) # ks_hist s | _ \<Rightarrow> ks_hist s)\<rparr>"
    using assms(2) by (auto simp: kv_loop_def)
  have "ks_hist s' = ks_hist s \<or> (\<exists>x. ks_hist s' = x # ks_hist s)"
    by (simp add: a(2) split: apply_pc.split)
  then have "chan_ok (ks_calls s) (ks_hist s') (ks_store s) \<and> (\<forall>c \<in> set (ks_calls s). call_done_ok (ks_hist s') c)"
    using assms(1) chan_ok_mono call_done_ok_mono unfolding kv_inv_def by metis
  then show ?thesis
    using assms(1) apply_step_store [OF a(1)] apply_step_msgs [OF a(1), of "ks_hist s"] a(2)
      pend_ok_frame [of "al_state a" "ks_store s"] chan_ok_frame [of "al_state a" "ks_store s"]
    by (simp add: kv_inv_def)
qed

lemma kv_inv_route:
  assumes "kv_inv s" "kv_route order s = Some s'"
  shows "kv_inv s'"
proof -
  obtain msg rest applied kv due where m: "al_ch (ks_loop s) = msg # rest"
      "readApplyCh_step order msg (ks_applied s, ks_store s) = ((applied, kv), due)"
      "s' = s\<lparr>ks_loop := (ks_loop s)\<lparr>al_state := kv, al_ch := rest\<rparr>, ks_applied := applied,
              ks_reader := (if due then SnapshotDue else Reading)\<rparr>"
    using assms(2) by (auto simp: kv_route_def split: reader_pc.splits list.splits if_splits prod.splits)
  have "msg_ok (ks_hist s) msg" using assms(1) m(1) by (simp add: kv_inv_def loop_ok_def)
  then show ?thesis
    using assms(1) readApplyCh_ok [OF _ _ _ m(2)] m(1,3) by (auto simp: kv_inv_def loop_ok_def)
qed

lemma kv_inv_call: "kv_inv s \<Longrightarrow> kv_inv (kv_call g o' s)"
proof -
  assume inv: "kv_inv s"
  obtain c n where c: "kv_call g o' s = (set_ks_node n s)\<lparr>ks_calls := ks_calls s @ [c]\<rparr>"
      "call_done_ok (ks_hist s) c"
  proof -
    obtain res n sends where "call_submit g o' (ks_node s) = (res, n, sends)" by (metis prod_cases3)
    moreover have "res = Inl KVNotLeader \<or> (\<exists>it. res = Inr it)"
      using calculation by (auto simp: call_submit_def split: prod.splits sum.splits)
    ultimately show thesis
      by (intro that [where n = n and c = "case res of Inl e \<Rightarrow> \<lparr>cc_op = o', cc_at = None, cc_phase = Returned_with (Inl e)\<rparr>
               | Inr it \<Rightarrow> \<lparr>cc_op = o', cc_at = Some it, cc_phase = Unregistered\<rparr>"])
        (auto simp: kv_call_def call_done_ok_def answer_ok_def call_result_def err_result_def)
  qed
  have "pend_ok (ks_calls s @ [c]) (ks_store s)" "chan_ok (ks_calls s @ [c]) (ks_hist s) (ks_store s)"
    using inv by (fastforce simp: kv_inv_def pend_ok_def chan_ok_def nth_append)+
  then show ?thesis using inv c by (simp add: kv_inv_def set_ks_node_def loop_ok_def)
qed

lemma set_phase_calls [simp]:
  "ks_calls (set_phase i ph s) = (ks_calls s)[i := (ks_calls s ! i)\<lparr>cc_phase := ph\<rparr>]"
  "ks_loop (set_phase i ph s) = ks_loop s" "ks_hist (set_phase i ph s) = ks_hist s"
  "ks_calls (set_store kv s) = ks_calls s" "ks_hist (set_store kv s) = ks_hist s"
  "al_state (ks_loop (set_store kv s)) = kv" "al_ch (ks_loop (set_store kv s)) = al_ch (ks_loop s)"
  "al_pc (ks_loop (set_store kv s)) = al_pc (ks_loop s)"
  by (simp_all add: set_phase_def set_store_def)

lemma kv_inv_phase:
  assumes "kv_inv s" "i < length (ks_calls s)" "call_done_ok (ks_hist s) ((ks_calls s ! i)\<lparr>cc_phase := ph\<rparr>)"
    and "pend_ok ((ks_calls s)[i := (ks_calls s ! i)\<lparr>cc_phase := ph\<rparr>]) kv" and "chan_ok (ks_calls s) (ks_hist s) kv"
    and "ph \<noteq> Unregistered"
  shows "kv_inv (set_phase i ph (set_store kv s))"
proof -
  have "chan_ok ((ks_calls s)[i := (ks_calls s ! i)\<lparr>cc_phase := ph\<rparr>]) (ks_hist s) kv"
    using assms(2,5,6) unfolding chan_ok_def by (auto simp: nth_list_update)
  moreover have "\<forall>c \<in> set ((ks_calls s)[i := (ks_calls s ! i)\<lparr>cc_phase := ph\<rparr>]). call_done_ok (ks_hist s) c"
    using assms(1,3) set_update_subset_insert unfolding kv_inv_def by fastforce
  ultimately show ?thesis using assms by (simp add: kv_inv_def loop_ok_def)
qed

lemma kv_inv_register:
  assumes inv: "kv_inv s" and st: "kv_register i s = Some s'"
  shows "kv_inv s'"
proof -
  obtain index trm where i: "i < length (ks_calls s)" "cc_phase (ks_calls s ! i) = Unregistered"
      "cc_at (ks_calls s ! i) = Some (index, trm)"
      "s' = set_phase i Blocked (set_store (call_register index trm i (ks_store s)) s)"
    using st by (auto simp: kv_register_def split: if_splits call_phase.splits option.splits)
  have p: "pend_ok (ks_calls s) (ks_store s)" and c: "chan_ok (ks_calls s) (ks_hist s) (ks_store s)"
    using inv by (simp_all add: kv_inv_def)
  have "kv_chans (ks_store s) i = []" using c i(2) unfolding chan_ok_def by blast
  then have "pend_ok ((ks_calls s)[i := (ks_calls s ! i)\<lparr>cc_phase := Blocked\<rparr>]) (call_register index trm i (ks_store s))"
    using p i(1,3) unfolding pend_ok_def call_register_def by (auto simp: nth_list_update split: if_splits)
  moreover have "chan_ok (ks_calls s) (ks_hist s) (call_register index trm i (ks_store s))"
    using c by (simp add: chan_ok_def call_register_def)
  ultimately show ?thesis
    unfolding i(4) using kv_inv_phase [OF inv i(1)] by (simp add: call_done_ok_def)
qed

lemma pend_ok_unblock:
  assumes "pend_ok cs kv" "i < length cs" "\<forall>idx c. fmlookup (kv_pending kv') idx = Some c \<longrightarrow>
      fmlookup (kv_pending kv) idx = Some c \<and> pc_ch c \<noteq> i"
    and "\<forall>ch. ch \<noteq> i \<longrightarrow> kv_chans kv' ch = kv_chans kv ch"
  shows "pend_ok (cs[i := c']) kv'"
  using assms unfolding pend_ok_def by (metis length_list_update nth_list_update_neq)

lemma kv_inv_receive:
  assumes inv: "kv_inv s" and st: "kv_receive i s = Some s'"
  shows "kv_inv s'"
proof -
  obtain r kv where i: "i < length (ks_calls s)" "cc_phase (ks_calls s ! i) = Blocked"
      "call_receive i (ks_store s) = Some (r, kv)"
      "s' = set_phase i (Returned_with (call_result r)) (set_store kv s)"
    using st by (auto simp: kv_receive_def split: if_splits option.splits)
  have p: "pend_ok (ks_calls s) (ks_store s)" and c: "chan_ok (ks_calls s) (ks_hist s) (ks_store s)"
    using inv by (simp_all add: kv_inv_def)
  obtain rs where kv: "kv_chans (ks_store s) i = r # rs" "kv = (ks_store s)\<lparr>kv_chans := (kv_chans (ks_store s))(i := rs)\<rparr>"
    using i(3) by (auto simp: call_receive_def split: list.splits)
  then have r: "rs = []" "answer_ok (ks_hist s) (cc_at (ks_calls s ! i)) r"
    using c unfolding chan_ok_def by (metis list.discI list.inject)+
  have "chan_ok (ks_calls s) (ks_hist s) kv" using c r(1) kv(2) by (simp add: chan_ok_def)
  moreover have "pend_ok ((ks_calls s)[i := c']) kv" for c'
    using p i(1) kv by (intro pend_ok_unblock [of _ "ks_store s"]) (auto simp: pend_ok_def)
  ultimately show ?thesis
    unfolding i(4) using r(2) by (intro kv_inv_phase [OF inv i(1)]) (auto simp: call_done_ok_def)
qed

lemma kv_inv_timeout:
  assumes inv: "kv_inv s" and st: "kv_timeout i s = Some s'"
  shows "kv_inv s'"
proof -
  obtain index trm where i: "i < length (ks_calls s)" "cc_at (ks_calls s ! i) = Some (index, trm)"
      "s' = set_phase i (Returned_with (Inl ErrTimeout)) (set_store (snd (call_timeout index (ks_store s))) s)"
    using st by (auto simp: kv_timeout_def call_timeout_def split: if_splits call_phase.splits option.splits)
  have p: "pend_ok (ks_calls s) (ks_store s)" and c: "chan_ok (ks_calls s) (ks_hist s) (ks_store s)"
    using inv by (simp_all add: kv_inv_def)
  have "pend_ok ((ks_calls s)[i := c']) (snd (call_timeout index (ks_store s)))" for c'
    using p i(1,2) by (intro pend_ok_unblock [of _ "ks_store s"]) (auto simp: pend_ok_def call_timeout_def)
  moreover have "chan_ok (ks_calls s) (ks_hist s) (snd (call_timeout index (ks_store s)))"
    using c by (simp add: chan_ok_def call_timeout_def)
  ultimately show ?thesis
    unfolding i(3) using kv_inv_phase [OF inv i(1)] by (simp add: call_done_ok_def)
qed

lemma kv_inv_node: "kv_inv (set_ks_node n s) = kv_inv s"
proof -
  have "loop_ok h (a\<lparr>al_node := n\<rparr>) = loop_ok h a" for h a by (simp add: loop_ok_def)
  then show ?thesis by (simp add: kv_inv_def set_ks_node_def)
qed

lemma kv_inv_reader: "kv_inv (s\<lparr>ks_reader := pc\<rparr>) = kv_inv s"
  by (simp add: kv_inv_def)

lemma kv_inv_step: "kv_inv s \<Longrightarrow> kv_step g l s = Some s' \<Longrightarrow> kv_inv s'"
  by (cases l)
    (auto intro: kv_inv_call kv_inv_register kv_inv_receive kv_inv_timeout kv_inv_loop kv_inv_route
      simp: kv_inv_node kv_inv_reader kv_take_data_def kv_take_snapshot_def split: reader_pc.splits)

lemma kv_inv_reach: "kv_reach g s0 s \<Longrightarrow> kv_inv s0 \<Longrightarrow> kv_inv s"
  by (induction rule: kv_reach.induct) (auto intro: kv_inv_step)

lemma kv_inv_start: "kv_pending kv = fmempty \<Longrightarrow> kv_chans kv = (\<lambda>_. []) \<Longrightarrow> kv_inv (kv_start n kv)"
  by (simp add: kv_start_def kv_inv_def pend_ok_def chan_ok_def loop_ok_def)

text \<open>
  C17: under any interleaving of client calls, apply loop, result routing, timeouts and changes of the
  node, a client call returns a timeout, a refusal, or exactly the result \<open>Apply\<close> gave for the entry
  with the index and term \<open>Submit\<close> had returned to it, never that of another entry; and no channel
  ever holds two results, so the goroutine that routes results never blocks.
\<close>

theorem kv_call_answers:
  assumes "kv_reach g (kv_start n kv) s" and "kv_pending kv = fmempty" and "kv_chans kv = (\<lambda>_. [])"
  shows "(\<forall>c \<in> set (ks_calls s). \<forall>res. cc_phase c = Returned_with res \<longrightarrow>
       res = Inl ErrTimeout \<or> res = Inl KVNotLeader
       \<or> (\<exists>i t r. cc_at c = Some (i, t) \<and> (i, t, r) \<in> set (ks_hist s) \<and> res = call_result r))
     \<and> (\<forall>ch. length (kv_chans (ks_store s) ch) \<le> 1)"
proof -
  have inv: "kv_inv s" by (rule kv_inv_reach [OF assms(1) kv_inv_start [OF assms(2,3)]])
  have "length (kv_chans (ks_store s) ch) \<le> 1" for ch
    using inv unfolding kv_inv_def chan_ok_def by (metis One_nat_def le_numeral_extra(4) length_0_conv length_Cons zero_le_one)
  moreover have "call_result (err_result KVNotLeader) = Inl KVNotLeader"
    by (simp add: call_result_def err_result_def)
  ultimately show ?thesis
    using inv unfolding kv_inv_def call_done_ok_def answer_ok_def by metis
qed

text \<open>
  When the message of the entry of a registered call comes up, with the term of the call, the
  routing puts its result on the channel of that call and the call then returns it; with another term
  the call returns that the node is not the leader.
\<close>

lemma kv_route_then_receive:
  assumes "kv_reach g (kv_start n kv) s" and "kv_pending kv = fmempty" and "kv_chans kv = (\<lambda>_. [])"
    and "ks_reader s = Reading" and "al_ch (ks_loop s) = entry_msg e r # rest"
    and "fmlookup (kv_pending (ks_store s)) (le_Index e) = Some call"
    and "fset_of_list order = fmdom (kv_pending (ks_store s))"
  shows "\<exists>s1 s2. kv_route order s = Some s1 \<and> kv_receive (pc_ch call) s1 = Some s2
     \<and> cc_phase (ks_calls s2 ! pc_ch call)
         = Returned_with (if pc_term call = le_Term e then call_result r else Inl KVNotLeader)
     \<and> fmlookup (kv_pending (ks_store s2)) (le_Index e) = None"
proof -
  let ?a = "if pc_term call \<noteq> le_Term e then err_result KVNotLeader else r"
  let ?kv = "kv_send (pc_ch call) ?a ((ks_store s)\<lparr>kv_pending := fmdrop (le_Index e) (kv_pending (ks_store s))\<rparr>)"
  have "pend_ok (ks_calls s) (ks_store s)"
    using kv_inv_reach [OF assms(1) kv_inv_start [OF assms(2,3)]] by (simp add: kv_inv_def)
  then have call: "pc_ch call < length (ks_calls s)" "cc_phase (ks_calls s ! pc_ch call) = Blocked"
      "kv_chans (ks_store s) (pc_ch call) = []"
    using assms(6) by (auto simp: pend_ok_def)
  obtain applied due where "readApplyCh_step order (entry_msg e r) (ks_applied s, ks_store s) = ((applied, ?kv), due)"
    using assms(6) by (simp add: readApplyCh_step_def entry_msg_def Let_def)
  then obtain s1 where s1: "kv_route order s = Some s1" "ks_store s1 = ?kv" "ks_calls s1 = ks_calls s"
    using assms(4,5,7) by (simp add: kv_route_def)
  have "call_receive (pc_ch call) ?kv = Some (?a, ?kv\<lparr>kv_chans := (kv_chans ?kv)(pc_ch call := [])\<rparr>)"
    using call(3) by (simp add: call_receive_def kv_send_def)
  then have "kv_receive (pc_ch call) s1 = Some (set_phase (pc_ch call) (Returned_with (call_result ?a))
      (set_store (?kv\<lparr>kv_chans := (kv_chans ?kv)(pc_ch call := [])\<rparr>) s1))"
    using s1 call by (simp add: kv_receive_def)
  then show ?thesis
    using s1 call(1) by (simp add: kv_send_def call_result_def err_result_def)
qed

section \<open>Runs\<close>

text \<open>
  A leader of term 1 with an empty log, and what the rest of the system does to it in the runs: its
  only peer acknowledges everything, which commits it; or another leader replaces its log, and it is
  elected again.
\<close>

definition kv_leader :: RaftNode where
  "kv_leader = becomeLeader 0 (becomeCandidate (fresh_node ''n1'' ''a'' [''b'']))"

definition acked :: "RaftNode \<Rightarrow> RaftNode" where
  "acked n = sendToPeer_reply 0 ''b'' (currentTerm n) (buildArgsLocked n ''b'')
     \<lparr>aer_Term = currentTerm n, aer_Success = True, aer_ConflictTerm = 0, aer_ConflictIndex = 0\<rparr> n"

definition overwritten :: "RaftNode \<Rightarrow> RaftNode" where
  "overwritten n = snd (HandleAppendEntries 0 \<lparr>ae_Term = 2, ae_LeaderID = ''b'', ae_PrevLogIndex = 0, ae_PrevLogTerm = 0,
     ae_Entries = [mark_entry 1 2], ae_LeaderCommit = 0\<rparr> n)"

definition apply_one_labels :: "kv_label list" where
  "apply_one_labels = [KLoop 0 DoNext, KLoop 0 DoApply, KLoop 0 DoSend]"

definition set_run :: "kv_label list" where
  "set_run = [KCall (Set_op ''x'' ''1''), KRegister 0, KNode acked, KLoop 0 OnCommit] @ apply_one_labels"

definition kv_answered :: "KVSystem option \<Rightarrow> nat \<Rightarrow> (kv_error + string) option" where
  "kv_answered s i = (case s of None \<Rightarrow> None | Some s' \<Rightarrow>
     (case cc_phase (ks_calls s' ! i) of Returned_with r \<Rightarrow> Some r | _ \<Rightarrow> None))"

lemma set_run_answers:
  "kv_answered (kv_run plain_gob (set_run @ [KRoute [1], KReceive 0]) (kv_start kv_leader kv_New)) 0 = Some (Inr '''')"
  by code_simp

lemma run_someI: "(case kv_run g ls s of None \<Rightarrow> False | Some s' \<Rightarrow> P s') \<Longrightarrow> \<exists>s'. kv_run g ls s = Some s' \<and> P s'"
  by (auto split: option.splits)

theorem kv_call_answers_witness:
  "\<exists>s. kv_reach plain_gob (kv_start kv_leader kv_New) s
     \<and> cc_phase (ks_calls s ! 0) = Returned_with (Inr '''') \<and> (\<exists>i t r. cc_at (ks_calls s ! 0) = Some (i, t) \<and> (i, t, r) \<in> set (ks_hist s))"
proof -
  have "\<exists>s. kv_run plain_gob (set_run @ [KRoute [1], KReceive 0]) (kv_start kv_leader kv_New) = Some s
      \<and> 0 < length (ks_calls s) \<and> cc_phase (ks_calls s ! 0) = Returned_with (Inr '''')"
    by (rule run_someI) code_simp
  then obtain s where s: "kv_reach plain_gob (kv_start kv_leader kv_New) s"
      "0 < length (ks_calls s)" "cc_phase (ks_calls s ! 0) = Returned_with (Inr '''')"
    using kv_run_reach [OF kv_reach_start] by blast
  then have "\<exists>i t r. cc_at (ks_calls s ! 0) = Some (i, t) \<and> (i, t, r) \<in> set (ks_hist s)"
    using kv_call_answers [OF s(1)] nth_mem [OF s(2)] by (fastforce simp: kv_New_def)
  then show ?thesis using s by blast
qed

section \<open>A timeout can drop another call\<close>

text \<open>A call that nothing can answer any more: it is not pending, and its channel is empty.\<close>

definition unlisted :: "nat \<Rightarrow> KVStore \<Rightarrow> bool" where
  "unlisted i kv \<longleftrightarrow> (\<forall>c \<in> fmran' (kv_pending kv). pc_ch c \<noteq> i) \<and> kv_chans kv i = []"

definition abandoned :: "nat \<Rightarrow> KVSystem \<Rightarrow> bool" where
  "abandoned i s \<longleftrightarrow> i < length (ks_calls s) \<and> cc_phase (ks_calls s ! i) \<in> {Blocked, Returned_with (Inl ErrTimeout)}
     \<and> unlisted i (ks_store s)"

lemma unlisted_frame:
  "kv_pending kv' = kv_pending kv \<Longrightarrow> kv_chans kv' = kv_chans kv \<Longrightarrow> unlisted i kv' = unlisted i kv"
  by (simp add: unlisted_def)

lemma unlisted_drop: "unlisted i kv \<Longrightarrow> unlisted i (kv\<lparr>kv_pending := fmdrop idx (kv_pending kv)\<rparr>)"
  by (auto simp: unlisted_def fmran'_def split: if_splits)

lemma unlisted_send: "unlisted i kv \<Longrightarrow> fmlookup (kv_pending kv) idx = Some c \<Longrightarrow> unlisted i (kv_send (pc_ch c) r kv)"
  by (auto simp: unlisted_def kv_send_def dest: fmran'I)

lemma unlisted_register: "unlisted i kv \<Longrightarrow> j \<noteq> i \<Longrightarrow> unlisted i (call_register idx t j kv)"
  by (auto simp: unlisted_def call_register_def fmran'_def split: if_splits)

lemma unlisted_receive:
  "unlisted i kv \<Longrightarrow> call_receive j kv = Some (r, kv') \<Longrightarrow> j \<noteq> i \<and> unlisted i kv'"
  by (auto simp: unlisted_def call_receive_def split: list.splits)

lemma unlisted_answer:
  "unlisted i kv \<Longrightarrow> fmlookup (kv_pending kv) idx = Some c \<Longrightarrow>
     unlisted i (kv\<lparr>kv_pending := fmdrop idx (kv_pending kv), kv_chans := (kv_chans kv)(pc_ch c := rs)\<rparr>)"
  by (auto simp: unlisted_def fmran'_def split: if_splits)

lemma unlisted_fail: "unlisted i kv \<Longrightarrow> unlisted i (fail_pending idx kv)"
  using unlisted_drop [OF unlisted_send, of i kv idx]
  by (auto simp: fail_pending_def kv_send_def split: option.split)

lemma unlisted_failAll: "unlisted i kv \<Longrightarrow> unlisted i (failAllPending idxs kv)"
  unfolding failAllPending_def by (induction idxs arbitrary: kv) (simp_all add: unlisted_fail)

lemma unlisted_route:
  assumes "unlisted i kv" and "readApplyCh_step order msg (applied, kv) = ((applied', kv'), due)"
  shows "unlisted i kv'"
  using assms(2) unlisted_failAll [OF assms(1), of order] assms(1)
  by (auto simp: readApplyCh_step_def Let_def kv_send_def unlisted_answer unlisted_drop split: if_splits option.splits)

lemma abandoned_step:
  assumes a: "abandoned i s" and st: "kv_step g l s = Some s'"
  shows "abandoned i s'"
proof (cases l)
  case (KCall o')
  then show ?thesis
    using a st by (auto simp: abandoned_def kv_call_def set_ks_node_def nth_append case_prod_beta Let_def)
next
  case (KRegister j)
  then show ?thesis
    using a st by (auto simp: abandoned_def kv_register_def set_phase_def set_store_def nth_list_update
        intro!: unlisted_register split: if_splits call_phase.splits option.splits prod.splits)
next
  case (KReceive j)
  then show ?thesis
    using a st by (auto simp: abandoned_def kv_receive_def set_phase_def set_store_def
        dest: unlisted_receive split: if_splits option.splits)
next
  case (KTimeout j)
  then show ?thesis
    using a st by (auto simp: abandoned_def kv_timeout_def call_timeout_def set_phase_def set_store_def
        nth_list_update unlisted_drop split: if_splits call_phase.splits option.splits prod.splits)
next
  case (KLoop now b)
  then obtain x where "apply_step (kv_machine g) now b (ks_loop s) = Some x" "ks_loop s' = x" "ks_calls s' = ks_calls s"
    using st by (auto simp: kv_loop_def)
  then show ?thesis using a apply_step_store unlisted_frame unfolding abandoned_def by metis
next
  case (KRoute order)
  then obtain msg applied kv due where
      "readApplyCh_step order msg (ks_applied s, ks_store s) = ((applied, kv), due)" "ks_store s' = kv" "ks_calls s' = ks_calls s"
    using st by (auto simp: kv_route_def Let_def split: reader_pc.splits list.splits if_splits prod.splits)
  then show ?thesis using a unlisted_route unfolding abandoned_def by metis
next
  case KSnapshot
  then show ?thesis using a st by (auto simp: abandoned_def kv_take_data_def split: reader_pc.splits)
next
  case KTake
  then show ?thesis using a st by (auto simp: abandoned_def kv_take_snapshot_def set_ks_node_def split: reader_pc.splits)
next
  case (KNode f)
  then show ?thesis using a st by (auto simp: abandoned_def set_ks_node_def)
qed

lemma abandoned_reach: "kv_reach g s s' \<Longrightarrow> abandoned i s \<Longrightarrow> abandoned i s'"
  by (induction rule: kv_reach.induct) (auto intro: abandoned_step)

text \<open>
  C21: a timeout can drop another call. When a call times out while another call is registered under the
  same index (the entry of the first was overwritten, and the node was elected again), it removes the
  other one: whatever happens afterwards, in particular when the entry of that other call is
  committed, applied and routed, that call stays blocked or times out.
\<close>

theorem kv_timeout_drops_other_call:
  assumes "kv_reach g (kv_start n kv) s" and "kv_pending kv = fmempty" and "kv_chans kv = (\<lambda>_. [])"
    and "cc_at (ks_calls s ! i) = Some (idx, t)" and "fmlookup (kv_pending (ks_store s)) idx = Some other"
    and "pc_ch other \<noteq> i" and "kv_timeout i s = Some s1" and "kv_reach g s1 s2"
  shows "cc_phase (ks_calls s ! pc_ch other) = Blocked
     \<and> cc_phase (ks_calls s2 ! pc_ch other) \<in> {Blocked, Returned_with (Inl ErrTimeout)}"
proof -
  let ?j = "pc_ch other"
  have p: "pend_ok (ks_calls s) (ks_store s)"
    using kv_inv_reach [OF assms(1) kv_inv_start [OF assms(2,3)]] by (simp add: kv_inv_def)
  then have j: "?j < length (ks_calls s)" "cc_phase (ks_calls s ! ?j) = Blocked"
      "cc_at (ks_calls s ! ?j) = Some (idx, pc_term other)" "kv_chans (ks_store s) ?j = []"
    using assms(5) by (simp_all add: pend_ok_def)
  have only: "idx' = idx" if "fmlookup (kv_pending (ks_store s)) idx' = Some c" "pc_ch c = ?j" for idx' c
    using p that(1) j(3) unfolding pend_ok_def that(2) [symmetric] by fastforce
  have "unlisted ?j ((ks_store s)\<lparr>kv_pending := fmdrop idx (kv_pending (ks_store s))\<rparr>)"
    using only j(4) by (auto simp: unlisted_def fmran'_def split: if_splits)
  then have "abandoned ?j s1"
    using assms(4,6,7) j unfolding abandoned_def
    by (auto simp: kv_timeout_def call_timeout_def set_phase_def set_store_def split: if_splits call_phase.splits)
  then show ?thesis using abandoned_reach [OF assms(8)] j(2) by (simp add: abandoned_def)
qed

text \<open>Two calls of term 1, an overwritten log, and a call of term 3 under the index of the second.\<close>

definition reused_index :: "kv_label list" where
  "reused_index = [KCall (Set_op ''x'' ''1''), KRegister 0, KCall (Set_op ''y'' ''1''), KRegister 1,
     KNode overwritten, KNode becomeCandidate, KNode (becomeLeader 0), KCall (Set_op ''y'' ''2''), KRegister 2]"

text \<open>The entry of the dropped call is committed, applied and routed.\<close>

definition after_timeout :: "kv_label list" where
  "after_timeout = [KNode acked, KLoop 0 OnCommit] @ apply_one_labels @ apply_one_labels @ [KRoute [1], KRoute []]"

theorem kv_timeout_drops_other_call_witness:
  "\<exists>s2. kv_reach plain_gob (kv_start kv_leader kv_New) s2 \<and> (2, 3, ok_result) \<in> set (ks_hist s2)
     \<and> kv_Get ''y'' (ks_store s2) = Inr ''2'' \<and> cc_at (ks_calls s2 ! 2) = Some (2, 3)
     \<and> cc_phase (ks_calls s2 ! 2) \<in> {Blocked, Returned_with (Inl ErrTimeout)}"
proof -
  let ?s0 = "kv_start kv_leader kv_New"
  have "\<exists>s. kv_run plain_gob reused_index ?s0 = Some s \<and> cc_at (ks_calls s ! 1) = Some (2, 1)
      \<and> fmlookup (kv_pending (ks_store s)) 2 = Some \<lparr>pc_term = 3, pc_ch = 2\<rparr>
      \<and> (case kv_timeout 1 s of None \<Rightarrow> False | Some s1 \<Rightarrow> (case kv_run plain_gob after_timeout s1 of None \<Rightarrow> False
          | Some s2 \<Rightarrow> (2, 3, ok_result) \<in> set (ks_hist s2) \<and> kv_Get ''y'' (ks_store s2) = Inr ''2''
              \<and> cc_at (ks_calls s2 ! 2) = Some (2, 3)))"
    by (rule run_someI) code_simp
  then obtain s s1 s2 where s: "kv_run plain_gob reused_index ?s0 = Some s" "cc_at (ks_calls s ! 1) = Some (2, 1)"
      "fmlookup (kv_pending (ks_store s)) 2 = Some \<lparr>pc_term = 3, pc_ch = 2\<rparr>" "kv_timeout 1 s = Some s1"
      "kv_run plain_gob after_timeout s1 = Some s2" "(2, 3, ok_result) \<in> set (ks_hist s2)"
      "kv_Get ''y'' (ks_store s2) = Inr ''2''" "cc_at (ks_calls s2 ! 2) = Some (2, 3)"
    by (auto split: option.splits)
  have r: "kv_reach plain_gob ?s0 s" by (rule kv_run_reach [OF kv_reach_start s(1)])
  have r2: "kv_reach plain_gob s1 s2" by (rule kv_run_reach [OF kv_reach_start s(5)])
  have "kv_reach plain_gob ?s0 s1" by (rule kv_reach_step [OF r, of "KTimeout 1"]) (simp only: kv_step.simps s(4))
  from kv_run_reach [OF this s(5)] show ?thesis
    using kv_timeout_drops_other_call [OF r _ _ s(2,3) _ s(4) r2] s(6-8) by (auto simp: kv_New_def)
qed

section \<open>A periodic snapshot can miss an entry\<close>

lemma Restore_data: "gob_ok g \<Longrightarrow> kv_Get key (snd (kv_Restore g (data_enc g (kv_data kv)) kv')) = kv_Get key kv"
  by (simp add: gob_ok_def kv_Restore_def kv_Get_def)


text \<open>One entry applied and routed, a snapshot due, a second entry committed.\<close>

definition snapshot_due :: "kv_label list" where
  "snapshot_due = [KCall (Set_op ''x'' ''1''), KCall (Set_op ''y'' ''1''), KNode acked, KLoop 0 OnCommit]
     @ apply_one_labels @ [KRoute []]"

definition due_state :: KVSystem where
  "due_state = the (kv_run plain_gob snapshot_due (kv_start kv_leader (SetSnapshotThreshold 1 kv_New)))"

lemma due_state_ok:
  "al_pc (ks_loop due_state) = Draining" "ks_reader due_state = SnapshotDue"
  "lastApplied (ks_node due_state) = 1" "commitIndex (ks_node due_state) = 2"
  "snapshotIndex (rlog (ks_node due_state)) = 0" "\<not> le_IsConfig (log_get (rlog (ks_node due_state)) 2)"
  "kv_Get ''y'' (ks_store due_state) = Inl ErrKeyNotFound"
proof -
  have "(al_pc (ks_loop due_state), ks_reader due_state, lastApplied (ks_node due_state), commitIndex (ks_node due_state),
      snapshotIndex (rlog (ks_node due_state)), le_IsConfig (log_get (rlog (ks_node due_state)) 2),
      kv_Get ''y'' (ks_store due_state)) = (Draining, SnapshotDue, 1, 2, 0, False, Inl ErrKeyNotFound)"
    by code_simp
  then show "al_pc (ks_loop due_state) = Draining" "ks_reader due_state = SnapshotDue"
    "lastApplied (ks_node due_state) = 1" "commitIndex (ks_node due_state) = 2"
    "snapshotIndex (rlog (ks_node due_state)) = 0" "\<not> le_IsConfig (log_get (rlog (ks_node due_state)) 2)"
    "kv_Get ''y'' (ks_store due_state) = Inl ErrKeyNotFound" by simp_all
qed

text \<open>The disk of the node works all along.\<close>

fun keeps_disk :: "kv_label \<Rightarrow> bool" where
  "keeps_disk (KNode f) \<longleftrightarrow> (\<forall>n. disk_works n \<longrightarrow> disk_works (f n))"
| "keeps_disk KTake \<longleftrightarrow> False"
| "keeps_disk _ \<longleftrightarrow> True"

lemma apply_step_disk: "apply_step m now l a = Some a' \<Longrightarrow> disk (al_node a') = disk (al_node a)"
  by (cases l) (auto simp: apply_next_def applyConfigEntry_def Let_def case_prod_beta
      split: apply_pc.splits if_splits option.splits)

lemma keeps_disk_step:
  assumes "keeps_disk l" "kv_step g l s = Some s'" "disk_works (ks_node s)"
  shows "disk_works (ks_node s')"
proof -
  have "disk_works (fst (snd (call_submit g o' n)))" if "disk_works n" for o' n
    using that disk_works_persist [of "n\<lparr>rlog := l\<rparr>" for l] disk_works_upd [of "n\<lparr>rlog := l\<rparr>" n for l]
    by (simp add: call_submit_def Submit_def Let_def)
  then show ?thesis
    using assms apply_step_disk [of "kv_machine g" _ _ "ks_loop s"]
    by (cases l) (auto simp: kv_call_def kv_register_def kv_receive_def kv_timeout_def kv_loop_def kv_route_def kv_take_data_def
        set_ks_node_def set_phase_def set_store_def case_prod_beta Let_def disk_works_def
        split: if_splits option.splits call_phase.splits reader_pc.splits list.splits)
qed

lemma keeps_disk_run:
  "list_all keeps_disk ls \<Longrightarrow> kv_run g ls s = Some s' \<Longrightarrow> disk_works (ks_node s) \<Longrightarrow> disk_works (ks_node s')"
  by (induction ls arbitrary: s) (auto split: option.splits intro: keeps_disk_step)

lemma acked_works: "disk_works n \<Longrightarrow> disk_works (acked n)"
  by (simp add: acked_def sendToPeer_reply_def Let_def heard_from_def disk_works_def)

lemma due_state_works: "disk_works (ks_node due_state)"
proof -
  let ?s0 = "kv_start kv_leader (SetSnapshotThreshold 1 kv_New)"
  have "disk_works (becomeCandidate (fresh_node i a ps))" for i a ps
    unfolding becomeCandidate_def by (rule disk_works_persist) (simp add: disk_works_upd [of _ "fresh_node i a ps"])
  then have "disk_works (ks_node ?s0)"
    by (simp add: kv_start_def kv_leader_def becomeLeader_def heard_from_def disk_works_def Let_def)
  moreover have "kv_run plain_gob snapshot_due ?s0 \<noteq> None" by code_simp
  then have "kv_run plain_gob snapshot_due ?s0 = Some due_state" by (auto simp: due_state_def)
  moreover have "list_all keeps_disk snapshot_due" by (simp add: snapshot_due_def apply_one_labels_def acked_works)
  ultimately show ?thesis using keeps_disk_run by blast
qed


section \<open>A snapshot can overtake later entries\<close>

definition x_snapshot :: InstallSnapshotArgs where
  "x_snapshot = \<lparr>is_Term = 1, is_LeaderID = ''b'', is_LastIncludedIndex = 1, is_LastIncludedTerm = 1,
     is_Data = data_enc plain_gob (fmupd ''x'' ''1'' fmempty)\<rparr>"

definition y_entry :: AppendEntriesArgs where
  "y_entry = \<lparr>ae_Term = 1, ae_LeaderID = ''b'', ae_PrevLogIndex = 1, ae_PrevLogTerm = 1,
     ae_Entries = [(mark_entry 2 1)\<lparr>le_Command := encodeOp plain_gob (Set_op ''y'' ''1'')\<rparr>], ae_LeaderCommit = 2\<rparr>"

text \<open>
  When a snapshot and a commit are both waiting, the \<open>select\<close> of \<open>applyLoop\<close> may take the commit first and
  apply the entries after the snapshot; the snapshot is restored on top of them. In this run of a
  follower (InstallSnapshot, then AppendEntries) everything committed counts as applied and the store
  lacks the last entry.
\<close>

lemma kv_restore_overtaken:
  "\<exists>s. kv_run plain_gob
      ([KNode (\<lambda>n. snd (HandleInstallSnapshot x_snapshot n)), KNode (\<lambda>n. snd (HandleAppendEntries 0 y_entry n)),
        KLoop 0 OnCommit] @ apply_one_labels @ [KRoute [], KLoop 0 DoNext, KLoop 0 OnSnapshot, KLoop 0 DoRestore])
      (kv_start (fresh_node ''n1'' ''a'' [''b'']) kv_New) = Some s
     \<and> lastApplied (ks_node s) = 2 \<and> commitIndex (ks_node s) = 2
     \<and> (2, 1, ok_result) \<in> set (ks_hist s) \<and> kv_Get ''y'' (ks_store s) = Inl ErrKeyNotFound"
  by (rule run_someI) code_simp

end
