(* ===== verification/Transport.thy ===== *)
theory Transport
  imports Client Codec
begin

text \<open>
  The transports of \<open>src/raft\<close>: the interface (\<open>transport.go\<close>), the in-memory network
  (\<open>transport_memory.go\<close>), gRPC (\<open>transport_grpc.go\<close>) and HTTP with JSON (\<open>transport_http.go\<close>). Nodes
  are reached by their RPC address. The locale \<open>transport\<close> is what a caller may rely on: the handler
  of the addressee runs at most once, nobody else changes, and a call without error returns the reply
  of that handler. The libraries \<open>net/http\<close>, \<open>grpc\<close> and \<open>encoding/json\<close> are represented by what
  became of a call and by a codec.
\<close>

section \<open>The contract of a transport\<close>

datatype transport_error =
    Disconnected string
  | NotFound string
  | ContextDone
  | Dropped string string
  | Unreachable
  | BadStatus nat
  | BadBody

definition rv_handler :: "instant \<Rightarrow> RequestVoteArgs \<Rightarrow> RaftNode \<Rightarrow> RequestVoteReply \<times> RaftNode" where
  "rv_handler now args n = HandleRequestVote now args n"

definition ae_handler :: "instant \<Rightarrow> AppendEntriesArgs \<Rightarrow> RaftNode \<Rightarrow> AppendEntriesReply \<times> RaftNode" where
  "ae_handler now args n = HandleAppendEntries now args n"

definition is_handler :: "instant \<Rightarrow> InstallSnapshotArgs \<Rightarrow> RaftNode \<Rightarrow> InstallSnapshotReply \<times> RaftNode" where
  "is_handler now args n = HandleInstallSnapshot args n"

locale transport =
  fixes node_at :: "'s \<Rightarrow> string \<Rightarrow> RaftNode option"
    and lawful :: "'e \<Rightarrow> 'a \<Rightarrow> bool"
    and handler :: "instant \<Rightarrow> 'a \<Rightarrow> RaftNode \<Rightarrow> 'r \<times> RaftNode"
    and rpc :: "'e \<Rightarrow> string \<Rightarrow> 'a \<Rightarrow> 's \<Rightarrow> (transport_error + 'r) \<times> 's"
  assumes delivered: "lawful e args \<Longrightarrow> rpc e addr args s = (Inr r, s') \<Longrightarrow>
      \<exists>now n. node_at s addr = Some n \<and> r = fst (handler now args n)
        \<and> node_at s' = (node_at s)(addr \<mapsto> snd (handler now args n))"
    and failed: "lawful e args \<Longrightarrow> rpc e addr args s = (Inl err, s') \<Longrightarrow>
      node_at s' = node_at s
      \<or> (\<exists>now n. node_at s addr = Some n \<and> node_at s' = (node_at s)(addr \<mapsto> snd (handler now args n)))"
begin

lemma at_most_once:
  assumes "lawful e args"
  shows "node_at (snd (rpc e addr args s)) = node_at s
     \<or> (\<exists>now n. node_at s addr = Some n
          \<and> node_at (snd (rpc e addr args s)) = (node_at s)(addr \<mapsto> snd (handler now args n)))"
proof (cases "rpc e addr args s")
  case (Pair res s')
  then show ?thesis
    using delivered [OF assms, of addr s _ s'] failed [OF assms, of addr s _ s'] by (cases res) auto
qed

lemma others_untouched:
  "lawful e args \<Longrightarrow> q \<noteq> addr \<Longrightarrow> node_at (snd (rpc e addr args s)) q = node_at s q"
  using at_most_once [of e args addr s] by auto

text \<open>Whatever the handler keeps of every node, a call keeps of every node.\<close>

lemma call_preserves:
  assumes "lawful e args" and "\<And>now n. I n \<Longrightarrow> I (snd (handler now args n))"
    and "\<forall>q n. node_at s q = Some n \<longrightarrow> I n"
  shows "\<forall>q n. node_at (snd (rpc e addr args s)) q = Some n \<longrightarrow> I n"
  using at_most_once [OF assms(1), of addr s] assms(2,3) by (auto split: if_splits)

text \<open>How one node moves: not at all, or by one run of the handler.\<close>

lemma call_relates:
  assumes "lawful e args" and "\<And>n. R n n" and "\<And>now n. R n (snd (handler now args n))"
    and "node_at s q = Some n" "node_at (snd (rpc e addr args s)) q = Some n'"
  shows "R n n'"
  using at_most_once [OF assms(1), of addr s] assms(2-) by (auto split: if_splits)

end

section \<open>The in-memory network\<close>

record MemoryNetwork =
  mn_nodes :: "string \<rightharpoonup> RaftNode"
  mn_disconnected :: "string \<Rightarrow> bool"

definition NewMemoryNetwork :: MemoryNetwork where
  "NewMemoryNetwork = \<lparr>mn_nodes = Map.empty, mn_disconnected = (\<lambda>_. False)\<rparr>"

definition mem_Register :: "string \<Rightarrow> RaftNode \<Rightarrow> MemoryNetwork \<Rightarrow> MemoryNetwork" where
  "mem_Register ident node net = net\<lparr>mn_nodes := (mn_nodes net)(ident \<mapsto> node)\<rparr>"

definition Disconnect :: "string \<Rightarrow> MemoryNetwork \<Rightarrow> MemoryNetwork" where
  "Disconnect ident net = net\<lparr>mn_disconnected := (mn_disconnected net)(ident := True)\<rparr>"

definition Reconnect :: "string \<Rightarrow> MemoryNetwork \<Rightarrow> MemoryNetwork" where
  "Reconnect ident net = net\<lparr>mn_disconnected := (mn_disconnected net)(ident := False)\<rparr>"

text \<open>A call: the transport's own id, the time, and the deadline of the context.\<close>

record MemoryTransport =
  mt_id :: string
  mt_now :: instant
  mt_deadline :: instant

definition mem_lookup :: "string \<Rightarrow> string \<Rightarrow> MemoryNetwork \<Rightarrow> transport_error + RaftNode" where
  "mem_lookup ident addr net =
     (if mn_disconnected net ident then Inl (Disconnected ident)
      else if mn_disconnected net addr then Inl (Disconnected addr)
      else case mn_nodes net addr of None \<Rightarrow> Inl (NotFound addr) | Some node \<Rightarrow> Inr node)"

definition mem_call ::
    "(instant \<Rightarrow> 'a \<Rightarrow> RaftNode \<Rightarrow> 'r \<times> RaftNode) \<Rightarrow> MemoryTransport \<Rightarrow> string \<Rightarrow> 'a \<Rightarrow> MemoryNetwork
      \<Rightarrow> (transport_error + 'r) \<times> MemoryNetwork" where
  "mem_call handler t addr args net =
     (case mem_lookup (mt_id t) addr net of
        Inl err \<Rightarrow> (Inl err, net)
      | Inr node \<Rightarrow>
          if mt_deadline t \<le> mt_now t then (Inl ContextDone, net)
          else let (reply, node') = handler (mt_now t) args node
               in (Inr reply, net\<lparr>mn_nodes := (mn_nodes net)(addr \<mapsto> node')\<rparr>))"

definition mem_RequestVote where "mem_RequestVote = mem_call rv_handler"
definition mem_AppendEntries where "mem_AppendEntries = mem_call ae_handler"
definition mem_InstallSnapshot where "mem_InstallSnapshot = mem_call is_handler"

lemmas mem_calls = mem_RequestVote_def mem_AppendEntries_def mem_InstallSnapshot_def

lemma mem_call_transport: "transport mn_nodes (\<lambda>_ _. True) handler (mem_call handler)"
proof
  fix e :: MemoryTransport and addr args net r net'
  assume "mem_call handler e addr args net = (Inr r, net')"
  then obtain n where "mn_nodes net addr = Some n" "r = fst (handler (mt_now e) args n)"
      "mn_nodes net' = (mn_nodes net)(addr \<mapsto> snd (handler (mt_now e) args n))"
    by (auto simp: mem_call_def mem_lookup_def case_prod_beta split: sum.splits if_splits option.splits)
  then show "\<exists>now n. mn_nodes net addr = Some n \<and> r = fst (handler now args n)
      \<and> mn_nodes net' = (mn_nodes net)(addr \<mapsto> snd (handler now args n))" by blast
next
  fix e :: MemoryTransport and addr args net err net'
  assume "mem_call handler e addr args net = (Inl err, net')"
  then show "mn_nodes net' = mn_nodes net
      \<or> (\<exists>now n. mn_nodes net addr = Some n \<and> mn_nodes net' = (mn_nodes net)(addr \<mapsto> snd (handler now args n)))"
    by (auto simp: mem_call_def case_prod_beta split: sum.splits if_splits)
qed

interpretation mem_rv: transport mn_nodes "\<lambda>_ _. True" rv_handler mem_RequestVote
  unfolding mem_calls by (rule mem_call_transport)

interpretation mem_ae: transport mn_nodes "\<lambda>_ _. True" ae_handler mem_AppendEntries
  unfolding mem_calls by (rule mem_call_transport)

interpretation mem_is: transport mn_nodes "\<lambda>_ _. True" is_handler mem_InstallSnapshot
  unfolding mem_calls by (rule mem_call_transport)

section \<open>gRPC\<close>

text \<open>
  The messages that \<open>protoc\<close> generates from \<open>src/proto/raft.proto\<close>, as far as the transport uses them.
\<close>

record pb_LogEntry =
  pbe_Term :: u64
  pbe_Index :: u64
  pbe_Command :: bytes
  pbe_IsConfig :: bool
  pbe_ConfigOp :: string
  pbe_ConfigPeer :: string

record pb_RequestVoteArgs =
  pbv_Term :: u64
  pbv_CandidateId :: string
  pbv_LastLogIndex :: u64
  pbv_LastLogTerm :: u64
  pbv_IsPreVote :: bool

record pb_RequestVoteReply =
  pbvr_Term :: u64
  pbvr_VoteGranted :: bool

record pb_AppendEntriesArgs =
  pba_Term :: u64
  pba_LeaderId :: string
  pba_PrevLogIndex :: u64
  pba_PrevLogTerm :: u64
  pba_Entries :: "pb_LogEntry list"
  pba_LeaderCommit :: u64

record pb_AppendEntriesReply =
  pbar_Term :: u64
  pbar_Success :: bool
  pbar_ConflictTerm :: u64
  pbar_ConflictIndex :: u64

record pb_InstallSnapshotArgs =
  pbs_Term :: u64
  pbs_LeaderId :: string
  pbs_LastIncludedIndex :: u64
  pbs_LastIncludedTerm :: u64
  pbs_Data :: bytes

record pb_InstallSnapshotReply =
  pbsr_Term :: u64

definition toProtoEntries :: "LogEntry list \<Rightarrow> pb_LogEntry list" where
  "toProtoEntries es = map (\<lambda>e. \<lparr>pbe_Term = le_Term e, pbe_Index = le_Index e, pbe_Command = le_Command e,
     pbe_IsConfig = le_IsConfig e, pbe_ConfigOp = le_ConfigOp e, pbe_ConfigPeer = le_ConfigPeer e\<rparr>) es"

definition fromProtoEntries :: "pb_LogEntry list \<Rightarrow> LogEntry list" where
  "fromProtoEntries es = map (\<lambda>e. \<lparr>le_Term = pbe_Term e, le_Index = pbe_Index e, le_Command = pbe_Command e,
     le_IsConfig = pbe_IsConfig e, le_ConfigOp = pbe_ConfigOp e, le_ConfigPeer = pbe_ConfigPeer e\<rparr>) es"

lemma proto_entries [simp]: "fromProtoEntries (toProtoEntries es) = es"
  by (induction es) (simp_all add: fromProtoEntries_def toProtoEntries_def)

text \<open>The server side.\<close>

definition grpcHandler_RequestVote ::
    "instant \<Rightarrow> pb_RequestVoteArgs \<Rightarrow> RaftNode \<Rightarrow> pb_RequestVoteReply \<times> RaftNode" where
  "grpcHandler_RequestVote now req n =
     (let (reply, n') = HandleRequestVote now
        \<lparr>rv_Term = pbv_Term req, rv_CandidateID = pbv_CandidateId req, rv_LastLogIndex = pbv_LastLogIndex req,
         rv_LastLogTerm = pbv_LastLogTerm req, rv_IsPreVote = pbv_IsPreVote req\<rparr> n
      in (\<lparr>pbvr_Term = rvr_Term reply, pbvr_VoteGranted = rvr_VoteGranted reply\<rparr>, n'))"

definition grpcHandler_AppendEntries ::
    "instant \<Rightarrow> pb_AppendEntriesArgs \<Rightarrow> RaftNode \<Rightarrow> pb_AppendEntriesReply \<times> RaftNode" where
  "grpcHandler_AppendEntries now req n =
     (let (reply, n') = HandleAppendEntries now
        \<lparr>ae_Term = pba_Term req, ae_LeaderID = pba_LeaderId req, ae_PrevLogIndex = pba_PrevLogIndex req,
         ae_PrevLogTerm = pba_PrevLogTerm req, ae_Entries = fromProtoEntries (pba_Entries req),
         ae_LeaderCommit = pba_LeaderCommit req\<rparr> n
      in (\<lparr>pbar_Term = aer_Term reply, pbar_Success = aer_Success reply,
           pbar_ConflictTerm = aer_ConflictTerm reply, pbar_ConflictIndex = aer_ConflictIndex reply\<rparr>, n'))"

definition grpcHandler_InstallSnapshot ::
    "instant \<Rightarrow> pb_InstallSnapshotArgs \<Rightarrow> RaftNode \<Rightarrow> pb_InstallSnapshotReply \<times> RaftNode" where
  "grpcHandler_InstallSnapshot now req n =
     (let (reply, n') = HandleInstallSnapshot
        \<lparr>is_Term = pbs_Term req, is_LeaderID = pbs_LeaderId req,
         is_LastIncludedIndex = pbs_LastIncludedIndex req, is_LastIncludedTerm = pbs_LastIncludedTerm req,
         is_Data = pbs_Data req\<rparr> n
      in (\<lparr>pbsr_Term = isr_Term reply\<rparr>, n'))"

text \<open>
  What the libraries make of a call: the connection fails, the request is lost, the answer is lost
  after the handler ran, or the answer arrives. \<open>invoke\<close> is a call over the wire with the handler that
  the server registered; without a server at the address the call fails.
\<close>

datatype rpc_outcome = DialFails | RequestLost | AnswerLost | Delivered

record net_call =
  nc_now :: instant
  nc_outcome :: rpc_outcome

type_synonym servers = "string \<rightharpoonup> RaftNode"

definition invoke ::
    "('p \<Rightarrow> RaftNode \<Rightarrow> 'q \<times> RaftNode) \<Rightarrow> rpc_outcome \<Rightarrow> string \<Rightarrow> 'p \<Rightarrow> servers \<Rightarrow> (transport_error + 'q) \<times> servers" where
  "invoke h out addr req s =
     (case s addr of
        None \<Rightarrow> (Inl Unreachable, s)
      | Some n \<Rightarrow>
          (case out of
             DialFails \<Rightarrow> (Inl Unreachable, s)
           | RequestLost \<Rightarrow> (Inl ContextDone, s)
           | AnswerLost \<Rightarrow> (Inl ContextDone, s(addr \<mapsto> snd (h req n)))
           | Delivered \<Rightarrow> (Inr (fst (h req n)), s(addr \<mapsto> snd (h req n)))))"

text \<open>The client side: translate the arguments, call, translate the reply.\<close>

definition grpc_RequestVote ::
    "net_call \<Rightarrow> string \<Rightarrow> RequestVoteArgs \<Rightarrow> servers \<Rightarrow> (transport_error + RequestVoteReply) \<times> servers" where
  "grpc_RequestVote c addr args s =
     (case invoke (grpcHandler_RequestVote (nc_now c)) (nc_outcome c) addr
        \<lparr>pbv_Term = rv_Term args, pbv_CandidateId = rv_CandidateID args, pbv_LastLogIndex = rv_LastLogIndex args,
         pbv_LastLogTerm = rv_LastLogTerm args, pbv_IsPreVote = rv_IsPreVote args\<rparr> s of
        (Inl err, s') \<Rightarrow> (Inl err, s')
      | (Inr resp, s') \<Rightarrow> (Inr \<lparr>rvr_Term = pbvr_Term resp, rvr_VoteGranted = pbvr_VoteGranted resp\<rparr>, s'))"

definition grpc_AppendEntries ::
    "net_call \<Rightarrow> string \<Rightarrow> AppendEntriesArgs \<Rightarrow> servers \<Rightarrow> (transport_error + AppendEntriesReply) \<times> servers" where
  "grpc_AppendEntries c addr args s =
     (case invoke (grpcHandler_AppendEntries (nc_now c)) (nc_outcome c) addr
        \<lparr>pba_Term = ae_Term args, pba_LeaderId = ae_LeaderID args, pba_PrevLogIndex = ae_PrevLogIndex args,
         pba_PrevLogTerm = ae_PrevLogTerm args, pba_Entries = toProtoEntries (ae_Entries args),
         pba_LeaderCommit = ae_LeaderCommit args\<rparr> s of
        (Inl err, s') \<Rightarrow> (Inl err, s')
      | (Inr resp, s') \<Rightarrow> (Inr \<lparr>aer_Term = pbar_Term resp, aer_Success = pbar_Success resp,
          aer_ConflictTerm = pbar_ConflictTerm resp, aer_ConflictIndex = pbar_ConflictIndex resp\<rparr>, s'))"

definition grpc_InstallSnapshot ::
    "net_call \<Rightarrow> string \<Rightarrow> InstallSnapshotArgs \<Rightarrow> servers \<Rightarrow> (transport_error + InstallSnapshotReply) \<times> servers" where
  "grpc_InstallSnapshot c addr args s =
     (case invoke (grpcHandler_InstallSnapshot (nc_now c)) (nc_outcome c) addr
        \<lparr>pbs_Term = is_Term args, pbs_LeaderId = is_LeaderID args,
         pbs_LastIncludedIndex = is_LastIncludedIndex args, pbs_LastIncludedTerm = is_LastIncludedTerm args,
         pbs_Data = is_Data args\<rparr> s of
        (Inl err, s') \<Rightarrow> (Inl err, s')
      | (Inr resp, s') \<Rightarrow> (Inr \<lparr>isr_Term = pbsr_Term resp\<rparr>, s'))"

lemma rebuild [simp]:
  "\<lparr>rv_Term = rv_Term a, rv_CandidateID = rv_CandidateID a, rv_LastLogIndex = rv_LastLogIndex a,
     rv_LastLogTerm = rv_LastLogTerm a, rv_IsPreVote = rv_IsPreVote a\<rparr> = a"
  "\<lparr>rvr_Term = rvr_Term b, rvr_VoteGranted = rvr_VoteGranted b\<rparr> = b"
  "\<lparr>ae_Term = ae_Term c, ae_LeaderID = ae_LeaderID c, ae_PrevLogIndex = ae_PrevLogIndex c,
     ae_PrevLogTerm = ae_PrevLogTerm c, ae_Entries = ae_Entries c, ae_LeaderCommit = ae_LeaderCommit c\<rparr> = c"
  "\<lparr>aer_Term = aer_Term d, aer_Success = aer_Success d, aer_ConflictTerm = aer_ConflictTerm d,
     aer_ConflictIndex = aer_ConflictIndex d\<rparr> = d"
  "\<lparr>is_Term = is_Term e, is_LeaderID = is_LeaderID e, is_LastIncludedIndex = is_LastIncludedIndex e,
     is_LastIncludedTerm = is_LastIncludedTerm e, is_Data = is_Data e\<rparr> = e"
  "\<lparr>isr_Term = isr_Term f\<rparr> = f"
  "\<lparr>le_Term = le_Term g, le_Index = le_Index g, le_Command = le_Command g, le_IsConfig = le_IsConfig g,
     le_ConfigOp = le_ConfigOp g, le_ConfigPeer = le_ConfigPeer g\<rparr> = g"
  by simp_all

text \<open>The translation to protobuf messages and back loses nothing.\<close>

lemma grpc_RequestVote_direct:
  "grpc_RequestVote c addr args s = invoke (rv_handler (nc_now c)) (nc_outcome c) addr args s"
  by (simp add: grpc_RequestVote_def invoke_def grpcHandler_RequestVote_def rv_handler_def case_prod_beta
      split: option.split rpc_outcome.split)

lemma grpc_AppendEntries_direct:
  "grpc_AppendEntries c addr args s = invoke (ae_handler (nc_now c)) (nc_outcome c) addr args s"
  by (simp add: grpc_AppendEntries_def invoke_def grpcHandler_AppendEntries_def ae_handler_def case_prod_beta
      split: option.split rpc_outcome.split)

lemma grpc_InstallSnapshot_direct:
  "grpc_InstallSnapshot c addr args s = invoke (is_handler (nc_now c)) (nc_outcome c) addr args s"
  by (simp add: grpc_InstallSnapshot_def invoke_def grpcHandler_InstallSnapshot_def is_handler_def case_prod_beta
      split: option.split rpc_outcome.split)

lemmas grpc_direct = grpc_RequestVote_direct grpc_AppendEntries_direct grpc_InstallSnapshot_direct

lemma invoke_Inr:
  "invoke h out addr req s = (Inr r, s') \<Longrightarrow> \<exists>n. s addr = Some n \<and> r = fst (h req n) \<and> s' = s(addr \<mapsto> snd (h req n))"
  by (auto simp: invoke_def split: option.splits rpc_outcome.splits)

lemma invoke_Inl:
  "invoke h out addr req s = (Inl err, s') \<Longrightarrow> s' = s \<or> (\<exists>n. s addr = Some n \<and> s' = s(addr \<mapsto> snd (h req n)))"
  by (auto simp: invoke_def split: option.splits rpc_outcome.splits)

interpretation grpc_rv: transport "\<lambda>s. s" "\<lambda>_ _. True" rv_handler grpc_RequestVote
  by unfold_locales (auto simp: grpc_direct dest!: invoke_Inr invoke_Inl)

interpretation grpc_ae: transport "\<lambda>s. s" "\<lambda>_ _. True" ae_handler grpc_AppendEntries
  by unfold_locales (auto simp: grpc_direct dest!: invoke_Inr invoke_Inl)

interpretation grpc_is: transport "\<lambda>s. s" "\<lambda>_ _. True" is_handler grpc_InstallSnapshot
  by unfold_locales (auto simp: grpc_direct dest!: invoke_Inr invoke_Inl)

section \<open>HTTP and JSON\<close>

record 'a codec =
  c_enc :: "'a \<Rightarrow> bytes"
  c_dec :: "bytes \<Rightarrow> 'a option"

definition codec_ok :: "('a \<Rightarrow> bool) \<Rightarrow> 'a codec \<Rightarrow> bool" where
  "codec_ok valid c \<longleftrightarrow> (\<forall>x. valid x \<longrightarrow> c_dec c (c_enc c x) = Some x)"

text \<open>
  JSON strings are Unicode: \<open>encoding/json\<close> replaces what is not valid UTF-8, so that only valid strings
  survive a round trip. \<open>utf8_rest lo hi k\<close> expects \<open>k\<close> more bytes of a sequence, the next of them
  between \<open>lo\<close> and \<open>hi\<close>.
\<close>

fun utf8_rest :: "nat \<Rightarrow> nat \<Rightarrow> nat \<Rightarrow> nat list \<Rightarrow> bool" where
  "utf8_rest lo hi 0 [] \<longleftrightarrow> True"
| "utf8_rest lo hi (Suc k) [] \<longleftrightarrow> False"
| "utf8_rest lo hi (Suc k) (b # bs) \<longleftrightarrow> lo \<le> b \<and> b \<le> hi \<and> utf8_rest 128 191 k bs"
| "utf8_rest lo hi 0 (b # bs) \<longleftrightarrow>
     (if b < 128 then utf8_rest 0 0 0 bs
      else if 194 \<le> b \<and> b \<le> 223 then utf8_rest 128 191 1 bs
      else if b = 224 then utf8_rest 160 191 2 bs
      else if b = 237 then utf8_rest 128 159 2 bs
      else if 225 \<le> b \<and> b \<le> 239 then utf8_rest 128 191 2 bs
      else if b = 240 then utf8_rest 144 191 3 bs
      else if 241 \<le> b \<and> b \<le> 243 then utf8_rest 128 191 3 bs
      else if b = 244 then utf8_rest 128 143 3 bs
      else False)"

definition valid_utf8 :: "string \<Rightarrow> bool" where
  "valid_utf8 s = utf8_rest 0 0 0 (map of_char s)"

definition rv_text :: "RequestVoteArgs \<Rightarrow> bool" where
  "rv_text a \<longleftrightarrow> valid_utf8 (rv_CandidateID a)"

definition ae_text :: "AppendEntriesArgs \<Rightarrow> bool" where
  "ae_text a \<longleftrightarrow> valid_utf8 (ae_LeaderID a)
     \<and> (\<forall>e \<in> set (ae_Entries a). valid_utf8 (le_ConfigOp e) \<and> valid_utf8 (le_ConfigPeer e))"

definition is_text :: "InstallSnapshotArgs \<Rightarrow> bool" where
  "is_text a \<longleftrightarrow> valid_utf8 (is_LeaderID a)"

text \<open>\<open>encoding/json\<close> on the six structs; the replies have no strings.\<close>

record json =
  j_rv :: "RequestVoteArgs codec"
  j_rvr :: "RequestVoteReply codec"
  j_ae :: "AppendEntriesArgs codec"
  j_aer :: "AppendEntriesReply codec"
  j_is :: "InstallSnapshotArgs codec"
  j_isr :: "InstallSnapshotReply codec"

definition json_ok :: "json \<Rightarrow> bool" where
  "json_ok j \<longleftrightarrow> codec_ok rv_text (j_rv j) \<and> codec_ok (\<lambda>_. True) (j_rvr j) \<and> codec_ok ae_text (j_ae j)
     \<and> codec_ok (\<lambda>_. True) (j_aer j) \<and> codec_ok is_text (j_is j) \<and> codec_ok (\<lambda>_. True) (j_isr j)"

text \<open>A response: status 200 with a body, or another status.\<close>

datatype http_response = StatusOK bytes | Status nat

text \<open>The body of one registered handler: decode, call the node, encode the reply.\<close>

definition http_endpoint ::
    "'a codec \<Rightarrow> 'r codec \<Rightarrow> ('a \<Rightarrow> RaftNode \<Rightarrow> 'r \<times> RaftNode) \<Rightarrow> bytes \<Rightarrow> RaftNode \<Rightarrow> http_response \<times> RaftNode" where
  "http_endpoint ca cr h body n =
     (case c_dec ca body of
        None \<Rightarrow> (Status 400, n)
      | Some args \<Rightarrow> let (reply, n') = h args n in (StatusOK (c_enc cr reply), n'))"

text \<open>\<open>Register\<close>: the three routes of the mux.\<close>

definition http_Register :: "json \<Rightarrow> instant \<Rightarrow> string \<times> bytes \<Rightarrow> RaftNode \<Rightarrow> http_response \<times> RaftNode" where
  "http_Register j now req n =
     (let (path, body) = req in
      if path = ''/raft/request-vote'' then http_endpoint (j_rv j) (j_rvr j) (HandleRequestVote now) body n
      else if path = ''/raft/append-entries'' then http_endpoint (j_ae j) (j_aer j) (HandleAppendEntries now) body n
      else if path = ''/raft/install-snapshot'' then http_endpoint (j_is j) (j_isr j) HandleInstallSnapshot body n
      else (Status 404, n))"

text \<open>
  \<open>post\<close> writes the decoded reply through a pointer. The callers are written
  \<open>return reply, t.post(..., &reply)\<close>, and Go does not fix whether \<open>reply\<close> is read before or after the
  call: \<open>hc_late\<close> is the choice of the compiler.
\<close>

record http_call = net_call +
  hc_json :: json
  hc_late :: bool

definition post ::
    "http_call \<Rightarrow> string \<Rightarrow> string \<Rightarrow> bytes \<Rightarrow> 'r codec \<Rightarrow> servers \<Rightarrow> (transport_error + 'r) \<times> servers" where
  "post c addr path body cr s =
     (case invoke (http_Register (hc_json c) (nc_now c)) (nc_outcome c) addr (path, body) s of
        (Inl err, s') \<Rightarrow> (Inl err, s')
      | (Inr (Status code), s') \<Rightarrow> (Inl (BadStatus code), s')
      | (Inr (StatusOK resp), s') \<Rightarrow>
          (case c_dec cr resp of None \<Rightarrow> (Inl BadBody, s') | Some reply \<Rightarrow> (Inr reply, s')))"

definition http_RequestVote ::
    "http_call \<Rightarrow> string \<Rightarrow> RequestVoteArgs \<Rightarrow> servers \<Rightarrow> (transport_error + RequestVoteReply) \<times> servers" where
  "http_RequestVote c addr args s =
     (let (res, s') = post c addr ''/raft/request-vote'' (c_enc (j_rv (hc_json c)) args) (j_rvr (hc_json c)) s
      in (map_sum id (\<lambda>reply. if hc_late c then reply else zero_rv_reply) res, s'))"

definition http_AppendEntries ::
    "http_call \<Rightarrow> string \<Rightarrow> AppendEntriesArgs \<Rightarrow> servers \<Rightarrow> (transport_error + AppendEntriesReply) \<times> servers" where
  "http_AppendEntries c addr args s =
     (let (res, s') = post c addr ''/raft/append-entries'' (c_enc (j_ae (hc_json c)) args) (j_aer (hc_json c)) s
      in (map_sum id (\<lambda>reply. if hc_late c then reply else zero_ae_reply) res, s'))"

definition http_InstallSnapshot ::
    "http_call \<Rightarrow> string \<Rightarrow> InstallSnapshotArgs \<Rightarrow> servers \<Rightarrow> (transport_error + InstallSnapshotReply) \<times> servers" where
  "http_InstallSnapshot c addr args s =
     (let (res, s') = post c addr ''/raft/install-snapshot'' (c_enc (j_is (hc_json c)) args) (j_isr (hc_json c)) s
      in (map_sum id (\<lambda>reply. if hc_late c then reply else zero_is_reply) res, s'))"

lemma post_direct:
  assumes "codec_ok V ca" "V args" "codec_ok (\<lambda>_. True) cr"
    and "\<And>n. http_Register (hc_json c) (nc_now c) (path, c_enc ca args) n = http_endpoint ca cr h (c_enc ca args) n"
  shows "post c addr path (c_enc ca args) cr s = invoke h (nc_outcome c) addr args s"
  using assms(1-3)
  by (simp add: post_def invoke_def assms(4) http_endpoint_def codec_ok_def case_prod_beta
      split: option.split rpc_outcome.split)

text \<open>What the caller gets when the reply is read early: the zero value instead of a reply.\<close>

definition as_read :: "bool \<Rightarrow> 'r \<Rightarrow> (transport_error + 'r) \<times> servers \<Rightarrow> (transport_error + 'r) \<times> servers" where
  "as_read late zero = map_prod (map_sum id (\<lambda>reply. if late then reply else zero)) id"

lemma as_read_late [simp]: "as_read True zero x = x"
  by (cases x; cases "fst x") (auto simp: as_read_def)

lemma http_direct:
  assumes "json_ok (hc_json c)"
  shows "rv_text rv \<Longrightarrow> http_RequestVote c addr rv s
      = as_read (hc_late c) zero_rv_reply (invoke (rv_handler (nc_now c)) (nc_outcome c) addr rv s)"
    and "ae_text ae \<Longrightarrow> http_AppendEntries c addr ae s
      = as_read (hc_late c) zero_ae_reply (invoke (ae_handler (nc_now c)) (nc_outcome c) addr ae s)"
    and "is_text is \<Longrightarrow> http_InstallSnapshot c addr is s
      = as_read (hc_late c) zero_is_reply (invoke (is_handler (nc_now c)) (nc_outcome c) addr is s)"
proof -
  have j: "codec_ok rv_text (j_rv (hc_json c))" "codec_ok (\<lambda>_. True) (j_rvr (hc_json c))"
      "codec_ok ae_text (j_ae (hc_json c))" "codec_ok (\<lambda>_. True) (j_aer (hc_json c))"
      "codec_ok is_text (j_is (hc_json c))" "codec_ok (\<lambda>_. True) (j_isr (hc_json c))"
    using assms by (simp_all add: json_ok_def)
  show "http_RequestVote c addr rv s
      = as_read (hc_late c) zero_rv_reply (invoke (rv_handler (nc_now c)) (nc_outcome c) addr rv s)" if "rv_text rv"
    by (simp add: http_RequestVote_def post_direct [OF j(1) that j(2), of _ _ "rv_handler (nc_now c)"]
        http_Register_def rv_handler_def [abs_def] case_prod_beta as_read_def map_prod_def)
  show "http_AppendEntries c addr ae s
      = as_read (hc_late c) zero_ae_reply (invoke (ae_handler (nc_now c)) (nc_outcome c) addr ae s)" if "ae_text ae"
    by (simp add: http_AppendEntries_def post_direct [OF j(3) that j(4), of _ _ "ae_handler (nc_now c)"]
        http_Register_def ae_handler_def [abs_def] case_prod_beta as_read_def map_prod_def)
  show "http_InstallSnapshot c addr is s
      = as_read (hc_late c) zero_is_reply (invoke (is_handler (nc_now c)) (nc_outcome c) addr is s)" if "is_text is"
    by (simp add: http_InstallSnapshot_def post_direct [OF j(5) that j(6), of _ _ "is_handler (nc_now c)"]
        http_Register_def is_handler_def [abs_def] case_prod_beta as_read_def map_prod_def)
qed

text \<open>
  The contract needs the reply read late, and strings that survive.
\<close>

definition http_lawful :: "('a \<Rightarrow> bool) \<Rightarrow> http_call \<Rightarrow> 'a \<Rightarrow> bool" where
  "http_lawful valid c args \<longleftrightarrow> json_ok (hc_json c) \<and> hc_late c \<and> valid args"

interpretation http_rv: transport "\<lambda>s. s" "http_lawful rv_text" rv_handler http_RequestVote
  by unfold_locales (auto simp: http_lawful_def http_direct dest!: invoke_Inr invoke_Inl)

interpretation http_ae: transport "\<lambda>s. s" "http_lawful ae_text" ae_handler http_AppendEntries
  by unfold_locales (auto simp: http_lawful_def http_direct dest!: invoke_Inr invoke_Inl)

interpretation http_is: transport "\<lambda>s. s" "http_lawful is_text" is_handler http_InstallSnapshot
  by unfold_locales (auto simp: http_lawful_def http_direct dest!: invoke_Inr invoke_Inl)

section \<open>A JSON codec for examples\<close>

definition entry_enc :: "LogEntry \<Rightarrow> bytes" where
  "entry_enc e = fields_enc [u64_bytes (le_Term e), u64_bytes (le_Index e), le_Command e,
     bool_bytes (le_IsConfig e), str_bytes (le_ConfigOp e), str_bytes (le_ConfigPeer e)]"

definition entry_dec :: "bytes \<Rightarrow> LogEntry" where
  "entry_dec bs = (case fields_dec bs of
     Some [t, i, c, f, opn, p] \<Rightarrow> \<lparr>le_Term = bytes_u64 t, le_Index = bytes_u64 i, le_Command = c,
       le_IsConfig = bytes_bool f, le_ConfigOp = bytes_str opn, le_ConfigPeer = bytes_str p\<rparr>
   | _ \<Rightarrow> zero_entry)"

definition plain_json :: json where
  "plain_json = \<lparr>
     j_rv = \<lparr>c_enc = (\<lambda>a. fields_enc [u64_bytes (rv_Term a), str_bytes (rv_CandidateID a),
         u64_bytes (rv_LastLogIndex a), u64_bytes (rv_LastLogTerm a), bool_bytes (rv_IsPreVote a)]),
       c_dec = (\<lambda>bs. case fields_dec bs of Some [t, c, i, l, p] \<Rightarrow> Some \<lparr>rv_Term = bytes_u64 t,
         rv_CandidateID = bytes_str c, rv_LastLogIndex = bytes_u64 i, rv_LastLogTerm = bytes_u64 l,
         rv_IsPreVote = bytes_bool p\<rparr> | _ \<Rightarrow> None)\<rparr>,
     j_rvr = \<lparr>c_enc = (\<lambda>a. fields_enc [u64_bytes (rvr_Term a), bool_bytes (rvr_VoteGranted a)]),
       c_dec = (\<lambda>bs. case fields_dec bs of Some [t, g] \<Rightarrow>
         Some \<lparr>rvr_Term = bytes_u64 t, rvr_VoteGranted = bytes_bool g\<rparr> | _ \<Rightarrow> None)\<rparr>,
     j_ae = \<lparr>c_enc = (\<lambda>a. fields_enc [u64_bytes (ae_Term a), str_bytes (ae_LeaderID a), u64_bytes (ae_PrevLogIndex a),
         u64_bytes (ae_PrevLogTerm a), fields_enc (map entry_enc (ae_Entries a)), u64_bytes (ae_LeaderCommit a)]),
       c_dec = (\<lambda>bs. case fields_dec bs of Some [t, l, i, p, es, c] \<Rightarrow>
         map_option (\<lambda>xs. \<lparr>ae_Term = bytes_u64 t, ae_LeaderID = bytes_str l, ae_PrevLogIndex = bytes_u64 i,
           ae_PrevLogTerm = bytes_u64 p, ae_Entries = map entry_dec xs, ae_LeaderCommit = bytes_u64 c\<rparr>) (fields_dec es)
         | _ \<Rightarrow> None)\<rparr>,
     j_aer = \<lparr>c_enc = (\<lambda>a. fields_enc [u64_bytes (aer_Term a), bool_bytes (aer_Success a),
         u64_bytes (aer_ConflictTerm a), u64_bytes (aer_ConflictIndex a)]),
       c_dec = (\<lambda>bs. case fields_dec bs of Some [t, s, c, i] \<Rightarrow> Some \<lparr>aer_Term = bytes_u64 t,
         aer_Success = bytes_bool s, aer_ConflictTerm = bytes_u64 c, aer_ConflictIndex = bytes_u64 i\<rparr> | _ \<Rightarrow> None)\<rparr>,
     j_is = \<lparr>c_enc = (\<lambda>a. fields_enc [u64_bytes (is_Term a), str_bytes (is_LeaderID a),
         u64_bytes (is_LastIncludedIndex a), u64_bytes (is_LastIncludedTerm a), is_Data a]),
       c_dec = (\<lambda>bs. case fields_dec bs of Some [t, l, i, p, d] \<Rightarrow> Some \<lparr>is_Term = bytes_u64 t, is_LeaderID = bytes_str l,
         is_LastIncludedIndex = bytes_u64 i, is_LastIncludedTerm = bytes_u64 p, is_Data = d\<rparr> | _ \<Rightarrow> None)\<rparr>,
     j_isr = \<lparr>c_enc = (\<lambda>a. fields_enc [u64_bytes (isr_Term a)]),
       c_dec = (\<lambda>bs. case fields_dec bs of Some [t] \<Rightarrow> Some \<lparr>isr_Term = bytes_u64 t\<rparr> | _ \<Rightarrow> None)\<rparr>\<rparr>"

lemma entry_field [simp]: "entry_dec (entry_enc e) = e"
  by (simp add: entry_dec_def entry_enc_def)

lemma plain_json_ok: "json_ok plain_json"
  by (simp add: json_ok_def codec_ok_def plain_json_def o_def)

section \<open>Results\<close>

text \<open>
  C18: for arguments whose strings are valid UTF-8, and for each of the three RPCs, a call over gRPC has
  exactly the effect and the result of calling the handler of the addressee on the original arguments:
  the translation of arguments, log entries and replies loses nothing. Over HTTP, with a JSON codec that
  decodes what it encodes whenever the strings are valid UTF-8, the effect is the same; the caller gets the
  reply of the handler when \<open>reply\<close> is read after the call in \<open>return reply, t.post(..., &reply)\<close>, and the
  zero reply when it is read before, a choice that Go leaves open.
\<close>

theorem wire_calls_direct:
  assumes "json_ok (hc_json c)" and "rv_text rv" and "ae_text ae" and "is_text is"
  shows "grpc_RequestVote d addr rv s = invoke (HandleRequestVote (nc_now d)) (nc_outcome d) addr rv s
     \<and> grpc_AppendEntries d addr ae s = invoke (HandleAppendEntries (nc_now d)) (nc_outcome d) addr ae s
     \<and> grpc_InstallSnapshot d addr is s = invoke HandleInstallSnapshot (nc_outcome d) addr is s
     \<and> http_RequestVote c addr rv s
         = as_read (hc_late c) zero_rv_reply (invoke (HandleRequestVote (nc_now c)) (nc_outcome c) addr rv s)
     \<and> http_AppendEntries c addr ae s
         = as_read (hc_late c) zero_ae_reply (invoke (HandleAppendEntries (nc_now c)) (nc_outcome c) addr ae s)
     \<and> http_InstallSnapshot c addr is s
         = as_read (hc_late c) zero_is_reply (invoke HandleInstallSnapshot (nc_outcome c) addr is s)"
  unfolding grpc_direct http_direct(1) [OF assms(1,2)] http_direct(2) [OF assms(1,3)] http_direct(3) [OF assms(1,4)]
  by (simp add: rv_handler_def [abs_def] ae_handler_def [abs_def] is_handler_def [abs_def])

definition example_http_call :: "bool \<Rightarrow> http_call" where
  "example_http_call late = \<lparr>nc_now = 0, nc_outcome = Delivered, hc_json = plain_json, hc_late = late\<rparr>"

definition example_servers :: servers where
  "example_servers = [''a'' \<mapsto> fresh_node ''n1'' ''a'' [''b'']]"

definition example_vote :: RequestVoteArgs where
  "example_vote = \<lparr>rv_Term = 1, rv_CandidateID = ''n2'', rv_LastLogIndex = 0, rv_LastLogTerm = 0, rv_IsPreVote = False\<rparr>"

definition example_batch :: AppendEntriesArgs where
  "example_batch = \<lparr>ae_Term = 1, ae_LeaderID = ''n2'', ae_PrevLogIndex = 0, ae_PrevLogTerm = 0,
     ae_Entries = [(mark_entry 1 1)\<lparr>le_IsConfig := True, le_ConfigOp := ''add'', le_ConfigPeer := ''c:7001''\<rparr>],
     ae_LeaderCommit = 0\<rparr>"

definition example_install :: InstallSnapshotArgs where
  "example_install = \<lparr>is_Term = 1, is_LeaderID = ''n2'', is_LastIncludedIndex = 1, is_LastIncludedTerm = 1, is_Data = [1, 200]\<rparr>"

lemma example_texts: "rv_text example_vote" "ae_text example_batch" "is_text example_install"
  by code_simp+

lemma example_json: "json_ok (hc_json (example_http_call late))"
  by (simp add: example_http_call_def plain_json_ok)

theorem wire_calls_direct_witness:
  "fst (http_RequestVote (example_http_call True) ''a'' example_vote example_servers)
       = Inr \<lparr>rvr_Term = 1, rvr_VoteGranted = True\<rparr>
   \<and> fst (http_AppendEntries (example_http_call True) ''a'' example_batch example_servers)
       = Inr \<lparr>aer_Term = 1, aer_Success = True, aer_ConflictTerm = 0, aer_ConflictIndex = 0\<rparr>"
proof -
  have "fst (invoke (HandleRequestVote 0) Delivered ''a'' example_vote example_servers) = Inr \<lparr>rvr_Term = 1, rvr_VoteGranted = True\<rparr>"
      "fst (invoke (HandleAppendEntries 0) Delivered ''a'' example_batch example_servers)
        = Inr \<lparr>aer_Term = 1, aer_Success = True, aer_ConflictTerm = 0, aer_ConflictIndex = 0\<rparr>"
    by code_simp+
  then show ?thesis
    using wire_calls_direct [OF example_json [of True] example_texts, of undefined "''a''" example_servers]
    by (simp add: example_http_call_def)
qed

text \<open>
  Read before the call, a delivered vote request still takes effect at the receiver, and the caller
  gets a zero reply: term 0 and no vote.
\<close>

lemma http_reply_read_early:
  assumes "json_ok (hc_json c)" and "rv_text args" and "\<not> hc_late c" and "nc_outcome c = Delivered" and "s addr = Some n"
  shows "http_RequestVote c addr args s
     = (Inr \<lparr>rvr_Term = 0, rvr_VoteGranted = False\<rparr>, s(addr \<mapsto> snd (HandleRequestVote (nc_now c) args n)))"
  using http_direct(1) [OF assms(1,2), of addr s] assms(3-)
  by (simp add: as_read_def invoke_def rv_handler_def zero_rv_reply_def)

end
