(* ===== verification/Chaos.thy ===== *)
theory Chaos
  imports Complex_Main Transport "HOL-Library.List_Lexorder" "HOL-Library.Char_ord"
begin

text \<open>
  Fault injection, \<open>src/chaos\<close>: the rule engine and the transport that consults it (\<open>network.go\<close>), the
  injector that adds and removes rules (\<open>injector.go\<close>), and the recorder that runs scenarios
  (\<open>harness.go\<close>). A random draw is an argument. The text of an observation is kept as its kind and
  arguments.
\<close>

section \<open>The rule engine\<close>

datatype action = ActionDrop | ActionLoss | ActionDelay

record rule =
  r_id :: string
  r_from :: string
  r_to :: string
  r_act :: action
  r_prob :: real
  r_d :: duration

record ChaosNetwork =
  cn_base :: MemoryNetwork
  cn_rules :: "rule list"

definition NewChaosNetwork :: ChaosNetwork where
  "NewChaosNetwork = \<lparr>cn_base = NewMemoryNetwork, cn_rules = []\<rparr>"

definition chaos_Register :: "string \<Rightarrow> RaftNode \<Rightarrow> ChaosNetwork \<Rightarrow> ChaosNetwork" where
  "chaos_Register ident node cn = cn\<lparr>cn_base := mem_Register ident node (cn_base cn)\<rparr>"

definition addRule :: "rule \<Rightarrow> ChaosNetwork \<Rightarrow> ChaosNetwork" where
  "addRule r cn = cn\<lparr>cn_rules := cn_rules cn @ [r]\<rparr>"

definition removeRule :: "string \<Rightarrow> ChaosNetwork \<Rightarrow> ChaosNetwork" where
  "removeRule ident cn = cn\<lparr>cn_rules := filter (\<lambda>r. r_id r \<noteq> ident) (cn_rules cn)\<rparr>"

definition clearRules :: "ChaosNetwork \<Rightarrow> ChaosNetwork" where
  "clearRules cn = cn\<lparr>cn_rules := []\<rparr>"

datatype evalResult = EvalForward | EvalDrop

text \<open>The loop over the rules: the first match decides; the second result is the time slept.\<close>

fun evaluate :: "real \<Rightarrow> string \<Rightarrow> string \<Rightarrow> rule list \<Rightarrow> evalResult \<times> duration" where
  "evaluate draw frm to [] = (EvalForward, 0)"
| "evaluate draw frm to (r # rs) =
     (if r_from r \<noteq> '''' \<and> r_from r \<noteq> frm then evaluate draw frm to rs
      else if r_to r \<noteq> '''' \<and> r_to r \<noteq> to then evaluate draw frm to rs
      else case r_act r of
        ActionDrop \<Rightarrow> (EvalDrop, 0)
      | ActionLoss \<Rightarrow> (if draw < r_prob r then EvalDrop else EvalForward, 0)
      | ActionDelay \<Rightarrow> (EvalForward, max 0 (r_d r)))"

text \<open>A call: consult the rules, then the in-memory transport, at the time after the sleep.\<close>

record ChaosTransport = MemoryTransport +
  ct_draw :: real

definition chaos_call ::
    "(instant \<Rightarrow> 'a \<Rightarrow> RaftNode \<Rightarrow> 'r \<times> RaftNode) \<Rightarrow> ChaosTransport \<Rightarrow> string \<Rightarrow> 'a \<Rightarrow> ChaosNetwork
      \<Rightarrow> (transport_error + 'r) \<times> ChaosNetwork" where
  "chaos_call handler t addr args cn =
     (case evaluate (ct_draw t) (mt_id t) addr (cn_rules cn) of
        (EvalDrop, _) \<Rightarrow> (Inl (Dropped (mt_id t) addr), cn)
      | (EvalForward, d) \<Rightarrow>
          let (res, base) = mem_call handler
                \<lparr>mt_id = mt_id t, mt_now = mt_now t + d, mt_deadline = mt_deadline t\<rparr> addr args (cn_base cn)
          in (res, cn\<lparr>cn_base := base\<rparr>))"

definition chaos_RequestVote where "chaos_RequestVote = chaos_call rv_handler"
definition chaos_AppendEntries where "chaos_AppendEntries = chaos_call ae_handler"
definition chaos_InstallSnapshot where "chaos_InstallSnapshot = chaos_call is_handler"

lemmas chaos_calls = chaos_RequestVote_def chaos_AppendEntries_def chaos_InstallSnapshot_def

definition chaos_nodes :: "ChaosNetwork \<Rightarrow> string \<Rightarrow> RaftNode option" where
  "chaos_nodes cn = mn_nodes (cn_base cn)"

lemma chaos_call_transport: "transport chaos_nodes (\<lambda>_ _. True) handler (chaos_call handler)"
proof
  fix e :: ChaosTransport and addr args and cn cn' :: ChaosNetwork and r
  assume "chaos_call handler e addr args cn = (Inr r, cn')"
  then obtain t where "mem_call handler t addr args (cn_base cn) = (Inr r, cn_base cn')"
    by (auto simp: chaos_call_def case_prod_beta prod_eq_iff split: prod.splits evalResult.splits)
  from transport.delivered [OF mem_call_transport TrueI this]
  show "\<exists>now n. chaos_nodes cn addr = Some n \<and> r = fst (handler now args n)
      \<and> chaos_nodes cn' = (chaos_nodes cn)(addr \<mapsto> snd (handler now args n))"
    by (simp add: chaos_nodes_def)
next
  fix e :: ChaosTransport and addr args and cn cn' :: ChaosNetwork and err
  assume "chaos_call handler e addr args cn = (Inl err, cn')"
  then have "cn' = cn \<or> (\<exists>t. mem_call handler t addr args (cn_base cn) = (Inl err, cn_base cn'))"
    by (auto simp: chaos_call_def case_prod_beta prod_eq_iff split: prod.splits evalResult.splits)
  then show "chaos_nodes cn' = chaos_nodes cn
      \<or> (\<exists>now n. chaos_nodes cn addr = Some n \<and> chaos_nodes cn' = (chaos_nodes cn)(addr \<mapsto> snd (handler now args n)))"
    using transport.failed [OF mem_call_transport TrueI, of handler _ addr args "cn_base cn" err "cn_base cn'"]
    by (auto simp: chaos_nodes_def)
qed

interpretation chaos_rv: transport chaos_nodes "\<lambda>_ _. True" rv_handler chaos_RequestVote
  unfolding chaos_calls by (rule chaos_call_transport)

interpretation chaos_ae: transport chaos_nodes "\<lambda>_ _. True" ae_handler chaos_AppendEntries
  unfolding chaos_calls by (rule chaos_call_transport)

interpretation chaos_is: transport chaos_nodes "\<lambda>_ _. True" is_handler chaos_InstallSnapshot
  unfolding chaos_calls by (rule chaos_call_transport)

section \<open>The injector\<close>

text \<open>\<open>%d\<close>: the decimal digits of a number.\<close>

fun dec :: "nat \<Rightarrow> string" where
  "dec n = (if n < 10 then [char_of (48 + n)] else dec (n div 10) @ [char_of (48 + n mod 10)])"

declare dec.simps [simp del]

datatype observation =
    Isolated string | Healed string
  | AsymDropped string string | AsymHealed string string
  | HealedAll
  | LossInjected string string real | LossRemoved string string
  | DelayInjected string string duration | DelayRemoved string string
  | Crashed string

record ChaosInjector =
  ci_net :: ChaosNetwork
  ci_nodes :: "string \<rightharpoonup> RaftNode"
  ci_obs :: "(instant \<times> observation) list"
  ci_rseq :: u64

definition NewInjector :: "ChaosNetwork \<Rightarrow> (string \<rightharpoonup> RaftNode) \<Rightarrow> ChaosInjector" where
  "NewInjector net nodes = \<lparr>ci_net = net, ci_nodes = nodes, ci_obs = [], ci_rseq = 0\<rparr>"

definition record_obs :: "instant \<Rightarrow> observation \<Rightarrow> ChaosInjector \<Rightarrow> ChaosInjector" where
  "record_obs now msg ci = ci\<lparr>ci_obs := ci_obs ci @ [(now, msg)]\<rparr>"

definition nextID :: "string \<Rightarrow> ChaosInjector \<Rightarrow> string \<times> ChaosInjector" where
  "nextID prefix ci = (let k = ci_rseq ci + 1 in (prefix @ ''-'' @ dec (unat k), ci\<lparr>ci_rseq := k\<rparr>))"

definition add_net_rule :: "rule \<Rightarrow> ChaosInjector \<Rightarrow> ChaosInjector" where
  "add_net_rule r ci = ci\<lparr>ci_net := addRule r (ci_net ci)\<rparr>"

text \<open>The cleanup functions: the rules to remove and what to record.\<close>

record cleanup =
  cu_ids :: "string list"
  cu_obs :: observation

definition run_cleanup :: "instant \<Rightarrow> cleanup \<Rightarrow> ChaosInjector \<Rightarrow> ChaosInjector" where
  "run_cleanup now c ci = record_obs now (cu_obs c) (ci\<lparr>ci_net := fold removeRule (cu_ids c) (ci_net ci)\<rparr>)"

definition PartitionNode :: "instant \<Rightarrow> string \<Rightarrow> ChaosInjector \<Rightarrow> cleanup \<times> ChaosInjector" where
  "PartitionNode now nodeID ci =
     (let (outID, ci1) = nextID ''part-out'' ci;
          (inID, ci2) = nextID ''part-in'' ci1;
          ci3 = add_net_rule \<lparr>r_id = outID, r_from = nodeID, r_to = '''', r_act = ActionDrop, r_prob = 0, r_d = 0\<rparr> ci2;
          ci4 = add_net_rule \<lparr>r_id = inID, r_from = '''', r_to = nodeID, r_act = ActionDrop, r_prob = 0, r_d = 0\<rparr> ci3
      in (\<lparr>cu_ids = [outID, inID], cu_obs = Healed nodeID\<rparr>, record_obs now (Isolated nodeID) ci4))"

definition PartitionAsymmetric :: "instant \<Rightarrow> string \<Rightarrow> string \<Rightarrow> ChaosInjector \<Rightarrow> cleanup \<times> ChaosInjector" where
  "PartitionAsymmetric now src dst ci =
     (let (ident, ci1) = nextID ''part-asym'' ci;
          ci2 = add_net_rule \<lparr>r_id = ident, r_from = src, r_to = dst, r_act = ActionDrop, r_prob = 0, r_d = 0\<rparr> ci1
      in (\<lparr>cu_ids = [ident], cu_obs = AsymHealed src dst\<rparr>, record_obs now (AsymDropped src dst) ci2))"

definition HealAll :: "instant \<Rightarrow> ChaosInjector \<Rightarrow> ChaosInjector" where
  "HealAll now ci = record_obs now HealedAll (ci\<lparr>ci_net := clearRules (ci_net ci)\<rparr>)"

definition InjectPacketLoss :: "instant \<Rightarrow> string \<Rightarrow> string \<Rightarrow> real \<Rightarrow> ChaosInjector \<Rightarrow> cleanup \<times> ChaosInjector" where
  "InjectPacketLoss now src dst prob ci =
     (let (ident, ci1) = nextID ''loss'' ci;
          ci2 = add_net_rule \<lparr>r_id = ident, r_from = src, r_to = dst, r_act = ActionLoss, r_prob = prob, r_d = 0\<rparr> ci1
      in (\<lparr>cu_ids = [ident], cu_obs = LossRemoved src dst\<rparr>, record_obs now (LossInjected src dst prob) ci2))"

definition InjectDelay :: "instant \<Rightarrow> string \<Rightarrow> string \<Rightarrow> duration \<Rightarrow> ChaosInjector \<Rightarrow> cleanup \<times> ChaosInjector" where
  "InjectDelay now src dst d ci =
     (let (ident, ci1) = nextID ''delay'' ci;
          ci2 = add_net_rule \<lparr>r_id = ident, r_from = src, r_to = dst, r_act = ActionDelay, r_prob = 0, r_d = d\<rparr> ci1
      in (\<lparr>cu_ids = [ident], cu_obs = DelayRemoved src dst\<rparr>, record_obs now (DelayInjected src dst d) ci2))"

text \<open>\<open>Stop\<close> closes \<open>stopCh\<close>; closing it twice panics (\<open>None\<close>).\<close>

definition node_Stop :: "RaftNode \<Rightarrow> RaftNode option" where
  "node_Stop n = (if stopCh_closed n then None else Some (n\<lparr>stopCh_closed := True\<rparr>))"

text \<open>
  \<open>CrashNode\<close> takes the node from the injector's own table. The table and the network hold the same node, so
  that stopping it shows in both.
\<close>

definition stop_in_net :: "string \<Rightarrow> MemoryNetwork \<Rightarrow> MemoryNetwork" where
  "stop_in_net nodeID net =
     net\<lparr>mn_nodes := (mn_nodes net)(nodeID := map_option (\<lambda>n. n\<lparr>stopCh_closed := True\<rparr>) (mn_nodes net nodeID))\<rparr>"

definition CrashNode :: "instant \<Rightarrow> string \<Rightarrow> ChaosInjector \<Rightarrow> ChaosInjector option" where
  "CrashNode now nodeID ci =
     (case ci_nodes ci nodeID of
        None \<Rightarrow> Some ci
      | Some n \<Rightarrow>
          (case node_Stop n of
             None \<Rightarrow> None
           | Some n' \<Rightarrow>
               let net = (ci_net ci)\<lparr>cn_base := Disconnect nodeID (stop_in_net nodeID (cn_base (ci_net ci)))\<rparr>
               in Some (record_obs now (Crashed nodeID)
                    (ci\<lparr>ci_nodes := (ci_nodes ci)(nodeID \<mapsto> n'), ci_net := net\<rparr>))))"

section \<open>Rule identifiers are unique\<close>

definition undec :: "string \<Rightarrow> nat" where
  "undec s = foldl (\<lambda>v c. v * 10 + (of_char c - 48)) 0 s"

lemma digit_char: "n < 10 \<Longrightarrow> of_char (char_of (48 + n) :: char) = (48 + n :: nat)"
  by simp

lemma undec_dec [simp]: "undec (dec n) = n"
proof (induction n rule: dec.induct)
  case (1 n)
  show ?case
  proof (cases "n < 10")
    case True
    then show ?thesis using digit_char [OF True] by (simp add: undec_def dec.simps [of n])
  next
    case False
    have "undec (dec n) = undec (dec (n div 10)) * 10 + n mod 10"
      using False digit_char [of "n mod 10"] by (simp add: undec_def dec.simps [of n])
    also have "\<dots> = n" using 1 [OF False] by simp
    finally show ?thesis .
  qed
qed

lemma dec_no_dash: "CHR ''-'' \<notin> set (dec n)"
proof (induction n rule: dec.induct)
  case (1 n)
  have "CHR ''-'' \<noteq> char_of (48 + k)" if "k < 10" for k :: nat
  proof
    assume "CHR ''-'' = char_of (48 + k)"
    then have "(of_char CHR ''-'' :: nat) = 48 + k" using digit_char [OF that] by metis
    then show False by simp
  qed
  then show ?case using 1 by (simp add: dec.simps [of n])
qed

text \<open>The number in an identifier made by \<open>nextID\<close>.\<close>

definition id_seq :: "string \<Rightarrow> nat" where
  "id_seq s = undec (rev (takeWhile (\<lambda>c. c \<noteq> CHR ''-'') (rev s)))"

lemma id_seq_next [simp]: "id_seq (prefix @ CHR ''-'' # dec k) = k"
proof -
  have "takeWhile (\<lambda>c. c \<noteq> CHR ''-'') (rev (dec k) @ CHR ''-'' # rev prefix) = rev (dec k)"
    using dec_no_dash [of k] by (subst takeWhile_append2) auto
  then show ?thesis by (simp add: id_seq_def)
qed

text \<open>Every rule was numbered by the injector.\<close>

definition ci_wf :: "ChaosInjector \<Rightarrow> bool" where
  "ci_wf ci \<longleftrightarrow> (\<forall>r \<in> set (cn_rules (ci_net ci)). id_seq (r_id r) \<le> unat (ci_rseq ci))"

abbreviation ci_rules :: "ChaosInjector \<Rightarrow> rule list" where
  "ci_rules ci \<equiv> cn_rules (ci_net ci)"

definition matches :: "string \<Rightarrow> string \<Rightarrow> rule \<Rightarrow> bool" where
  "matches frm to r \<longleftrightarrow> (r_from r = '''' \<or> r_from r = frm) \<and> (r_to r = '''' \<or> r_to r = to)"

lemma evaluate_skip: "\<not> matches frm to r \<Longrightarrow> evaluate draw frm to (rs @ r # rs') = evaluate draw frm to (rs @ rs')"
  by (induction rs) (auto simp: matches_def)

lemma evaluate_drops:
  "\<forall>r \<in> set rs. r_act r = ActionDrop \<Longrightarrow> \<exists>r \<in> set rs. matches frm to r \<Longrightarrow> evaluate draw frm to rs = (EvalDrop, 0)"
  by (induction rs) (auto simp: matches_def)

lemma evaluate_first:
  "evaluate draw frm to rs = (case filter (matches frm to) rs of [] \<Rightarrow> (EvalForward, 0) | r # _ \<Rightarrow>
     (case r_act r of ActionDrop \<Rightarrow> (EvalDrop, 0)
      | ActionLoss \<Rightarrow> (if draw < r_prob r then EvalDrop else EvalForward, 0)
      | ActionDelay \<Rightarrow> (EvalForward, max 0 (r_d r))))"
  by (induction rs) (auto simp: matches_def)

section \<open>Partitions\<close>

lemma PartitionNode_rules:
  assumes "PartitionNode now a ci = (heal, ci')" and "unat (ci_rseq ci) + 2 < 2 ^ 64"
  shows "\<exists>r r'. ci_rules ci' = ci_rules ci @ [r, r'] \<and> cu_ids heal = [r_id r, r_id r']
     \<and> r_from r = a \<and> r_to r = '''' \<and> r_act r = ActionDrop \<and> id_seq (r_id r) = unat (ci_rseq ci) + 1
     \<and> r_from r' = '''' \<and> r_to r' = a \<and> r_act r' = ActionDrop \<and> id_seq (r_id r') = unat (ci_rseq ci) + 2
     \<and> unat (ci_rseq ci') = unat (ci_rseq ci) + 2"
proof -
  have k: "unat (ci_rseq ci + 1) = unat (ci_rseq ci) + 1" using assms(2) by (intro unat_u64_plus1) simp
  then have "unat (ci_rseq ci + 1 + 1) = unat (ci_rseq ci) + 2"
    using unat_u64_plus1 [of "ci_rseq ci + 1"] assms(2) by simp
  then show ?thesis
    using assms(1) k id_seq_next [of "''part-out''"] id_seq_next [of "''part-in''"]
    by (auto simp: PartitionNode_def nextID_def add_net_rule_def addRule_def record_obs_def Let_def)
qed

lemma run_cleanup_rules:
  "ci_rules (run_cleanup now c ci) = filter (\<lambda>r. r_id r \<notin> set (cu_ids c)) (ci_rules ci)"
proof -
  have "cn_rules (fold removeRule ids cn) = filter (\<lambda>r. r_id r \<notin> set ids) (cn_rules cn)" for ids cn
    by (induction ids arbitrary: cn) (simp_all add: removeRule_def conj_commute)
  then show ?thesis by (simp add: run_cleanup_def record_obs_def)
qed

text \<open>
  C19: a partition isolates a node, provided that every rule already in place drops (an earlier delay or
  loss rule decides first and may let messages pass). After \<open>PartitionNode\<close> every call of each of the
  three RPCs from or to that node returns an error and changes no node, the fate of all other messages
  is what it was, and the function it returns restores the rules.
\<close>

theorem partition_isolates:
  assumes "ci_wf ci" and "unat (ci_rseq ci) + 2 < 2 ^ 64" and "a \<noteq> ''''"
    and "\<forall>r \<in> set (ci_rules ci). r_act r = ActionDrop"
    and "PartitionNode now a ci = (heal, ci')"
  shows "(\<forall>t addr rv ae snap. mt_id t = a \<or> addr = a \<longrightarrow>
            chaos_RequestVote t addr rv (ci_net ci') = (Inl (Dropped (mt_id t) addr), ci_net ci')
            \<and> chaos_AppendEntries t addr ae (ci_net ci') = (Inl (Dropped (mt_id t) addr), ci_net ci')
            \<and> chaos_InstallSnapshot t addr snap (ci_net ci') = (Inl (Dropped (mt_id t) addr), ci_net ci'))
     \<and> (\<forall>draw x y. x \<noteq> a \<and> y \<noteq> a \<longrightarrow> evaluate draw x y (ci_rules ci') = evaluate draw x y (ci_rules ci))
     \<and> ci_rules (run_cleanup now' heal ci') = ci_rules ci \<and> ci_wf ci'"
proof -
  obtain r r' where r: "ci_rules ci' = ci_rules ci @ [r, r']" "cu_ids heal = [r_id r, r_id r']"
      "r_from r = a" "r_to r = ''''" "r_act r = ActionDrop" "id_seq (r_id r) = unat (ci_rseq ci) + 1"
      "r_from r' = ''''" "r_to r' = a" "r_act r' = ActionDrop" "id_seq (r_id r') = unat (ci_rseq ci) + 2"
      "unat (ci_rseq ci') = unat (ci_rseq ci) + 2"
    using PartitionNode_rules [OF assms(5,2)] by blast
  have "evaluate draw x y (ci_rules ci') = (EvalDrop, 0)" if "x = a \<or> y = a" for draw x y
    using that r assms(4) by (intro evaluate_drops) (auto simp: matches_def)
  then have "chaos_RequestVote t addr rv (ci_net ci') = (Inl (Dropped (mt_id t) addr), ci_net ci')
      \<and> chaos_AppendEntries t addr ae (ci_net ci') = (Inl (Dropped (mt_id t) addr), ci_net ci')
      \<and> chaos_InstallSnapshot t addr snap (ci_net ci') = (Inl (Dropped (mt_id t) addr), ci_net ci')"
    if "mt_id t = a \<or> addr = a" for t addr rv ae snap
    using that by (simp add: chaos_calls chaos_call_def)
  moreover have "evaluate draw x y (ci_rules ci') = evaluate draw x y (ci_rules ci)" if "x \<noteq> a" "y \<noteq> a" for draw x y
    using that assms(3) r(1,3,8) evaluate_skip [of x y r draw "ci_rules ci" "[r']"]
      evaluate_skip [of x y r' draw "ci_rules ci" "[]"] by (simp add: matches_def)
  moreover have "id_seq (r_id q) \<le> unat (ci_rseq ci)" if "q \<in> set (ci_rules ci)" for q
    using assms(1) that by (simp add: ci_wf_def)
  then have "r_id q \<noteq> r_id r" "r_id q \<noteq> r_id r'" if "q \<in> set (ci_rules ci)" for q
    using that r(6,10) by (metis Suc_eq_plus1 not_less_eq_eq order_refl, metis add_2_eq_Suc' le_SucI not_less_eq_eq order_refl)
  then have "ci_rules (run_cleanup now' heal ci') = ci_rules ci"
    by (simp add: run_cleanup_rules r(1,2) filter_id_conv)
  moreover have "ci_wf ci'"
    using assms(1) r by (auto simp: ci_wf_def)
  ultimately show ?thesis by blast
qed

text \<open>
  The first matching rule decides, so a partition does nothing behind an earlier rule that lets
  messages pass: with a delay on all links, a node that is then \<open>isolated\<close> still exchanges messages.
\<close>

lemma partition_shadowed:
  "evaluate draw ''node1'' x (ci_rules (snd (PartitionNode now' ''node1''
      (snd (InjectDelay now '''' '''' d (NewInjector NewChaosNetwork nodes)))))) = (EvalForward, max 0 d)
   \<and> evaluate draw x ''node1'' (ci_rules (snd (PartitionNode now' ''node1''
      (snd (InjectDelay now '''' '''' d (NewInjector NewChaosNetwork nodes)))))) = (EvalForward, max 0 d)"
  by (simp add: PartitionNode_def InjectDelay_def nextID_def add_net_rule_def addRule_def record_obs_def
      NewInjector_def NewChaosNetwork_def Let_def)

theorem partition_isolates_witness:
  "\<exists>heal ci'. PartitionNode 0 ''node1'' (NewInjector NewChaosNetwork Map.empty) = (heal, ci')
     \<and> fst (chaos_RequestVote \<lparr>mt_id = ''node2'', mt_now = 0, mt_deadline = 1, ct_draw = 0\<rparr> ''node1'' example_vote (ci_net ci'))
         = Inl (Dropped ''node2'' ''node1'')
     \<and> ci_rules (run_cleanup 1 heal ci') = [] \<and> ci_wf ci'"
proof -
  let ?ci = "NewInjector NewChaosNetwork Map.empty"
  obtain heal ci' where p: "PartitionNode 0 ''node1'' ?ci = (heal, ci')" by fastforce
  have "ci_wf ?ci" "unat (ci_rseq ?ci) + 2 < 2 ^ 64" "\<forall>r \<in> set (ci_rules ?ci). r_act r = ActionDrop" "ci_rules ?ci = []"
    by (simp_all add: ci_wf_def NewInjector_def NewChaosNetwork_def)
  then show ?thesis using partition_isolates [of ?ci "''node1''" 0 heal ci' 1] p by simp
qed

text \<open>The other operations of the injector keep the numbering.\<close>

lemma ci_wf_kept:
  assumes "ci_wf ci" and "unat (ci_rseq ci) + 1 < 2 ^ 64"
  shows "ci_wf (snd (PartitionAsymmetric now src dst ci))" "ci_wf (snd (InjectPacketLoss now src dst p ci))"
    "ci_wf (snd (InjectDelay now src dst d ci))" "ci_wf (HealAll now ci)" "ci_wf (run_cleanup now c ci)"
proof -
  have "unat (ci_rseq ci + 1) = unat (ci_rseq ci) + 1" using assms(2) by (rule unat_u64_plus1)
  then show "ci_wf (snd (PartitionAsymmetric now src dst ci))" "ci_wf (snd (InjectPacketLoss now src dst p ci))"
      "ci_wf (snd (InjectDelay now src dst d ci))"
    using assms(1) id_seq_next [of "''part-asym''"] id_seq_next [of "''loss''"] id_seq_next [of "''delay''"]
    by (auto simp: ci_wf_def PartitionAsymmetric_def InjectPacketLoss_def InjectDelay_def nextID_def
        add_net_rule_def addRule_def record_obs_def Let_def)
  show "ci_wf (HealAll now ci)" by (simp add: ci_wf_def HealAll_def clearRules_def record_obs_def)
  have "ci_rseq (run_cleanup now c ci) = ci_rseq ci" by (simp add: run_cleanup_def record_obs_def)
  then show "ci_wf (run_cleanup now c ci)" using assms(1) by (simp add: ci_wf_def run_cleanup_rules)
qed

section \<open>Every transport\<close>

text \<open>Whatever becomes of a call, over whichever transport, only the addressee can change.\<close>

lemma calls_leave_others:
  assumes "q \<noteq> addr"
  shows "chaos_nodes (snd (chaos_RequestVote t addr rv cn)) q = chaos_nodes cn q"
    "chaos_nodes (snd (chaos_AppendEntries t addr ae cn)) q = chaos_nodes cn q"
    "chaos_nodes (snd (chaos_InstallSnapshot t addr snap cn)) q = chaos_nodes cn q"
    "snd (grpc_RequestVote gc addr rv s) q = s q" "snd (grpc_AppendEntries gc addr ae s) q = s q"
    "snd (grpc_InstallSnapshot gc addr snap s) q = s q"
    "http_lawful rv_text hc rv \<Longrightarrow> snd (http_RequestVote hc addr rv s) q = s q"
    "http_lawful ae_text hc ae \<Longrightarrow> snd (http_AppendEntries hc addr ae s) q = s q"
    "http_lawful is_text hc snap \<Longrightarrow> snd (http_InstallSnapshot hc addr snap s) q = s q"
proof -
  note q = assms
  show "chaos_nodes (snd (chaos_RequestVote t addr rv cn)) q = chaos_nodes cn q"
    "chaos_nodes (snd (chaos_AppendEntries t addr ae cn)) q = chaos_nodes cn q"
    "chaos_nodes (snd (chaos_InstallSnapshot t addr snap cn)) q = chaos_nodes cn q"
    by (rule chaos_rv.others_untouched [OF TrueI q] chaos_ae.others_untouched [OF TrueI q] chaos_is.others_untouched [OF TrueI q])+
  show "snd (grpc_RequestVote gc addr rv s) q = s q" "snd (grpc_AppendEntries gc addr ae s) q = s q"
    "snd (grpc_InstallSnapshot gc addr snap s) q = s q"
    by (rule grpc_rv.others_untouched [OF TrueI q] grpc_ae.others_untouched [OF TrueI q] grpc_is.others_untouched [OF TrueI q])+
  show "http_lawful rv_text hc rv \<Longrightarrow> snd (http_RequestVote hc addr rv s) q = s q"
    "http_lawful ae_text hc ae \<Longrightarrow> snd (http_AppendEntries hc addr ae s) q = s q"
    "http_lawful is_text hc snap \<Longrightarrow> snd (http_InstallSnapshot hc addr snap s) q = s q"
    by (rule http_rv.others_untouched [OF _ q] http_ae.others_untouched [OF _ q] http_is.others_untouched [OF _ q], assumption)+
qed

section \<open>Running scenarios\<close>

text \<open>What a scenario does with its \<open>TB\<close>: formatted messages, or a panic of another kind.\<close>

datatype tb_call = Logf string | Errorf string | Fatalf string | OtherPanic

record Harness =
  h_logs :: "string list"
  h_failed :: bool

definition h_Logf :: "string \<Rightarrow> Harness \<Rightarrow> Harness" where
  "h_Logf msg h = h\<lparr>h_logs := h_logs h @ [msg]\<rparr>"

definition h_Errorf :: "string \<Rightarrow> Harness \<Rightarrow> Harness" where
  "h_Errorf msg h = h\<lparr>h_logs := h_logs h @ [''ERROR: '' @ msg], h_failed := True\<rparr>"

definition h_Fatalf :: "string \<Rightarrow> Harness \<Rightarrow> Harness" where
  "h_Fatalf msg h = h\<lparr>h_logs := h_logs h @ [''FATAL: '' @ msg], h_failed := True\<rparr>"

text \<open>\<open>Fatalf\<close> unwinds to \<open>RunScenario\<close>, which goes on; any other panic is raised again (\<open>None\<close>).\<close>

fun run_fn :: "tb_call list \<Rightarrow> Harness \<Rightarrow> Harness option" where
  "run_fn [] h = Some h"
| "run_fn (Logf msg # cs) h = run_fn cs (h_Logf msg h)"
| "run_fn (Errorf msg # cs) h = run_fn cs (h_Errorf msg h)"
| "run_fn (Fatalf msg # cs) h = Some (h_Fatalf msg h)"
| "run_fn (OtherPanic # cs) h = None"

record ScenarioMeta =
  sm_ID :: string
  sm_Label :: string
  sm_Desc :: string

record scenarioEntry =
  se_meta :: ScenarioMeta
  se_fn :: "tb_call list"

record ScenarioResult =
  sr_Name :: string
  sr_Passed :: bool
  sr_Error :: string
  sr_DurMs :: int
  sr_Logs :: "string list"

definition register :: "ScenarioMeta \<Rightarrow> tb_call list \<Rightarrow> scenarioEntry list \<Rightarrow> scenarioEntry list" where
  "register meta fn registry = registry @ [\<lparr>se_meta = meta, se_fn = fn\<rparr>]"

definition ListScenarios :: "scenarioEntry list \<Rightarrow> ScenarioMeta list" where
  "ListScenarios registry = sort_key sm_ID (map se_meta registry)"

definition is_failure_log :: "string \<Rightarrow> bool" where
  "is_failure_log l \<longleftrightarrow> take 6 l = ''FATAL:'' \<or> take 6 l = ''ERROR:''"

definition RunScenario :: "int \<Rightarrow> string \<Rightarrow> scenarioEntry list \<Rightarrow> ScenarioResult option" where
  "RunScenario dur ident registry =
     (case find (\<lambda>e. sm_ID (se_meta e) = ident) registry of
        None \<Rightarrow> Some \<lparr>sr_Name = ident, sr_Passed = False, sr_Error = ''unknown scenario: '' @ ident, sr_DurMs = 0, sr_Logs = []\<rparr>
      | Some e \<Rightarrow>
          (case run_fn (se_fn e) \<lparr>h_logs = [], h_failed = False\<rparr> of
             None \<Rightarrow> None
           | Some h \<Rightarrow>
               let err = (if h_failed h then
                            case find is_failure_log (h_logs h) of None \<Rightarrow> '''' | Some l \<Rightarrow> l
                          else '''')
               in Some \<lparr>sr_Name = ident, sr_Passed = \<not> h_failed h, sr_Error = err, sr_DurMs = dur, sr_Logs = h_logs h\<rparr>))"

fun is_failure :: "tb_call \<Rightarrow> bool" where
  "is_failure (Errorf _) \<longleftrightarrow> True"
| "is_failure (Fatalf _) \<longleftrightarrow> True"
| "is_failure _ \<longleftrightarrow> False"

lemma run_fn_failed:
  "run_fn cs h = Some h' \<Longrightarrow> h_failed h' \<longleftrightarrow> h_failed h \<or> (\<exists>c \<in> set cs. is_failure c)"
  by (induction cs h rule: run_fn.induct) (auto simp: h_Logf_def h_Errorf_def h_Fatalf_def)

lemma run_fn_logs: "run_fn cs h = Some h' \<Longrightarrow> (h_failed h \<longrightarrow> (\<exists>l \<in> set (h_logs h). is_failure_log l)) \<Longrightarrow>
     (h_failed h' \<longrightarrow> (\<exists>l \<in> set (h_logs h'). is_failure_log l))"
  by (induction cs h rule: run_fn.induct)
    (auto simp: h_Logf_def h_Errorf_def h_Fatalf_def is_failure_log_def)

text \<open>
  The verdict on a scenario. A scenario passes exactly when it is registered and made no call of
  \<open>Errorf\<close>, \<open>Fatalf\<close> or \<open>Fatal\<close>; a run that did not pass names an error, which is one of its log lines or
  says that the scenario is unknown.
\<close>

lemma scenario_verdict:
  assumes "RunScenario dur ident registry = Some res"
  shows "(sr_Passed res \<longleftrightarrow> (\<exists>e. find (\<lambda>e. sm_ID (se_meta e) = ident) registry = Some e \<and> \<not> (\<exists>c \<in> set (se_fn e). is_failure c)))
     \<and> (sr_Passed res = (sr_Error res = ''''))
     \<and> (\<not> sr_Passed res \<longrightarrow> sr_Error res \<in> set (sr_Logs res) \<or> sr_Error res = ''unknown scenario: '' @ ident)"
proof (cases "find (\<lambda>e. sm_ID (se_meta e) = ident) registry")
  case None
  then show ?thesis using assms by (auto simp: RunScenario_def)
next
  case (Some e)
  then obtain h where h: "run_fn (se_fn e) \<lparr>h_logs = [], h_failed = False\<rparr> = Some h"
    using assms by (auto simp: RunScenario_def split: option.splits)
  have f: "h_failed h \<longleftrightarrow> (\<exists>c \<in> set (se_fn e). is_failure c)" using run_fn_failed [OF h] by simp
  show ?thesis
  proof (cases "h_failed h")
    case False
    then show ?thesis using assms Some h f by (auto simp: RunScenario_def)
  next
    case True
    then have "\<exists>l \<in> set (h_logs h). is_failure_log l" using run_fn_logs [OF h] by simp
    then obtain l where l: "find is_failure_log (h_logs h) = Some l"
      by (cases "find is_failure_log (h_logs h)") (auto simp: find_None_iff)
    then have "l \<in> set (h_logs h)" "is_failure_log l" by (auto simp: find_Some_iff)
    moreover from this(2) have "l \<noteq> ''''" by (auto simp: is_failure_log_def)
    ultimately show ?thesis using assms Some h f True l by (auto simp: RunScenario_def)
  qed
qed

end
