(* ===== verification/Server.thy ===== *)
theory Server
  imports KVStore
begin

text \<open>
  The key-value server, \<open>src/cmd/kvstore/main.go\<close>: its configuration from environment variables and its
  HTTP handlers, and the random election timeout of \<open>src/raft/node.go\<close> that the configuration feeds.
  Strings are the byte strings of Go. A handler that blocks in a call of
  the store is cut there: its result is the call to make, and \<open>write_reply\<close> is what follows.
\<close>

section \<open>Strings\<close>

definition hasPrefix :: "string \<Rightarrow> string \<Rightarrow> bool" where
  "hasPrefix s p \<longleftrightarrow> take (length p) s = p"

text \<open>
  The white space of \<open>unicode.IsSpace\<close> in UTF-8: six ASCII characters and U+0085, U+00A0, U+1680, U+2000 to
  U+200A, U+2028, U+2029, U+202F, U+205F and U+3000. \<open>strings.TrimSpace\<close> removes such encodings from the
  front and then from the end.
\<close>

definition spaces :: "string list" where
  "spaces = ['' '', [CHR 0x09], [CHR 0x0A], [CHR 0x0B], [CHR 0x0C], [CHR 0x0D],
     [CHR 0xC2, CHR 0x85], [CHR 0xC2, CHR 0xA0], [CHR 0xE1, CHR 0x9A, CHR 0x80],
     [CHR 0xE2, CHR 0x80, CHR 0x80], [CHR 0xE2, CHR 0x80, CHR 0x81], [CHR 0xE2, CHR 0x80, CHR 0x82], [CHR 0xE2, CHR 0x80, CHR 0x83], [CHR 0xE2, CHR 0x80, CHR 0x84], [CHR 0xE2, CHR 0x80, CHR 0x85],
     [CHR 0xE2, CHR 0x80, CHR 0x86], [CHR 0xE2, CHR 0x80, CHR 0x87], [CHR 0xE2, CHR 0x80, CHR 0x88], [CHR 0xE2, CHR 0x80, CHR 0x89], [CHR 0xE2, CHR 0x80, CHR 0x8A],
     [CHR 0xE2, CHR 0x80, CHR 0xA8], [CHR 0xE2, CHR 0x80, CHR 0xA9], [CHR 0xE2, CHR 0x80, CHR 0xAF],
     [CHR 0xE2, CHR 0x81, CHR 0x9F], [CHR 0xE3, CHR 0x80, CHR 0x80]]"

lemma hasPrefix_hd: "hasPrefix s p \<Longrightarrow> p \<noteq> [] \<Longrightarrow> s \<noteq> [] \<and> hd p = hd s"
  by (cases p; cases s) (auto simp: hasPrefix_def)

function trim_codes :: "string list \<Rightarrow> string \<Rightarrow> string" where
  "trim_codes codes s =
     (case find (\<lambda>p. p \<noteq> [] \<and> hasPrefix s p) codes of
        None \<Rightarrow> s
      | Some p \<Rightarrow> trim_codes codes (drop (length p) s))"
  by pat_completeness auto

termination trim_codes
proof (relation "measure (length \<circ> snd)")
  fix codes s p
  assume "find (\<lambda>p. p \<noteq> [] \<and> hasPrefix s p) codes = Some p"
  then have "p \<noteq> []" "hasPrefix s p" by (auto simp: find_Some_iff)
  then show "((codes, drop (length p) s), codes, s) \<in> measure (length \<circ> snd)" using hasPrefix_hd by fastforce
qed simp

declare trim_codes.simps [simp del]

definition trimSpace :: "string \<Rightarrow> string" where
  "trimSpace s = rev (trim_codes (map rev spaces) (rev (trim_codes spaces s)))"

text \<open>A string that begins and ends with a visible ASCII character is left alone.\<close>

definition visible :: "char \<Rightarrow> bool" where
  "visible c \<longleftrightarrow> 32 < (of_char c :: nat) \<and> (of_char c :: nat) < 127"

lemma spaces_invisible: "\<forall>p \<in> set spaces. p \<noteq> [] \<and> \<not> visible (hd p) \<and> \<not> visible (last p)"
  by code_simp

lemma trim_codes_same:
  assumes "s \<noteq> []" "visible (hd s)" "\<forall>p \<in> set codes. p = [] \<or> \<not> visible (hd p)"
  shows "trim_codes codes s = s"
proof -
  have "\<not> hasPrefix s p" if "p \<in> set codes" "p \<noteq> []" for p
    using that assms hasPrefix_hd [of s p] by metis
  then have "find (\<lambda>p. p \<noteq> [] \<and> hasPrefix s p) codes = None" by (auto simp: find_None_iff)
  then show ?thesis by (simp add: trim_codes.simps)
qed

lemma trimSpace_same: "s \<noteq> [] \<Longrightarrow> visible (hd s) \<Longrightarrow> visible (last s) \<Longrightarrow> trimSpace s = s"
  using spaces_invisible by (simp add: trimSpace_def trim_codes_same hd_rev)

definition trimPrefix :: "string \<Rightarrow> string \<Rightarrow> string" where
  "trimPrefix s p = (if hasPrefix s p then drop (length p) s else s)"

text \<open>\<open>strings.Split\<close> at one character, and \<open>strings.SplitN(s, c, 2)\<close>.\<close>

fun splitOn :: "char \<Rightarrow> string \<Rightarrow> string list" where
  "splitOn c [] = [[]]"
| "splitOn c (x # xs) =
     (if x = c then [] # splitOn c xs
      else case splitOn c xs of [] \<Rightarrow> [[x]] | w # ws \<Rightarrow> (x # w) # ws)"

definition splitN2 :: "char \<Rightarrow> string \<Rightarrow> string list" where
  "splitN2 c s = (if c \<in> set s then [takeWhile (\<lambda>x. x \<noteq> c) s, tl (dropWhile (\<lambda>x. x \<noteq> c) s)] else [s])"

text \<open>\<open>strconv.Atoi\<close>: an optional sign and digits, in the range of a 64-bit integer.\<close>

definition is_digit :: "char \<Rightarrow> bool" where
  "is_digit c \<longleftrightarrow> 48 \<le> (of_char c :: nat) \<and> (of_char c :: nat) \<le> 57"

definition digits_value :: "string \<Rightarrow> int" where
  "digits_value s = foldl (\<lambda>v c. v * 10 + (of_char c - 48)) 0 s"

definition atoi :: "string \<Rightarrow> int option" where
  "atoi s =
     (let neg = (s \<noteq> [] \<and> hd s = CHR ''-'');
          ds = (if s \<noteq> [] \<and> (hd s = CHR ''-'' \<or> hd s = CHR ''+'') then tl s else s);
          v = (if neg then - digits_value ds else digits_value ds)
      in if ds \<noteq> [] \<and> list_all is_digit ds \<and> - (2 ^ 63) \<le> v \<and> v < 2 ^ 63 then Some v else None)"

section \<open>Configuration\<close>

type_synonym env = "string \<Rightarrow> string"

text \<open>\<open>log.Fatalf\<close> ends the process: the missing variable is the error.\<close>

definition mustEnv :: "env \<Rightarrow> string \<Rightarrow> string + string" where
  "mustEnv env key = (if env key = '''' then Inl key else Inr (env key))"

definition splitNonEmpty :: "string \<Rightarrow> char \<Rightarrow> string list" where
  "splitNonEmpty s sep = (if s = '''' then [] else splitOn sep s)"

definition envIntOrDefault :: "env \<Rightarrow> string \<Rightarrow> int \<Rightarrow> int" where
  "envIntOrDefault env key def' =
     (if env key \<noteq> '''' then
        case atoi (env key) of Some n \<Rightarrow> if n > 0 then n else def' | None \<Rightarrow> def'
      else def')"

definition add_pair :: "string \<Rightarrow> (string \<rightharpoonup> string) \<Rightarrow> (string \<rightharpoonup> string)" where
  "add_pair pair m =
     (case splitN2 (CHR ''='') pair of
        [k, v] \<Rightarrow> m(trimSpace k \<mapsto> trimSpace v)
      | _ \<Rightarrow> m)"

definition parsePeerHTTPAddrs :: "string \<Rightarrow> (string \<rightharpoonup> string)" where
  "parsePeerHTTPAddrs raw = fold add_pair (splitNonEmpty raw (CHR '','')) Map.empty"

text \<open>The first part of \<open>main\<close>, up to the node's configuration.\<close>

definition main_config :: "env \<Rightarrow> string + Config \<times> (string \<rightharpoonup> string)" where
  "main_config env =
     (case mustEnv env ''NODE_ID'' of Inl e \<Rightarrow> Inl e | Inr nodeID \<Rightarrow>
      case mustEnv env ''RAFT_RPC_ADDR'' of Inl e \<Rightarrow> Inl e | Inr raftRPCAddr \<Rightarrow>
      case mustEnv env ''HTTP_ADDR'' of Inl e \<Rightarrow> Inl e | Inr httpAddr \<Rightarrow>
      case mustEnv env ''DATA_DIR'' of Inl e \<Rightarrow> Inl e | Inr dataDir \<Rightarrow>
      let peers' = splitNonEmpty (env ''RAFT_PEERS'') (CHR '','');
          self0 = env ''NODE_RPC_ADDR'';
          self = (if self0 = '''' \<and> hasPrefix raftRPCAddr '':'' then nodeID @ raftRPCAddr else self0)
      in Inr (\<lparr>cfg_ID = nodeID, cfg_Peers = peers',
               cfg_ElectionTimeoutMinMs = envIntOrDefault env ''ELECTION_TIMEOUT_MIN_MS'' 150,
               cfg_ElectionTimeoutMaxMs = envIntOrDefault env ''ELECTION_TIMEOUT_MAX_MS'' 300,
               cfg_HeartbeatIntervalMs = envIntOrDefault env ''HEARTBEAT_INTERVAL_MS'' 50,
               cfg_SelfAddr = self\<rparr>, parsePeerHTTPAddrs (env ''PEER_HTTP_ADDRS'')))"

text \<open>
  The election timeout of a node: \<open>min + rand.Intn(max - min)\<close> milliseconds. \<open>rand.Intn\<close> panics (\<open>None\<close>)
  unless its argument is positive; \<open>draw\<close> is what it returns for an argument.
\<close>

definition randomElectionTimeout :: "(int \<Rightarrow> int) \<Rightarrow> Config \<Rightarrow> duration option" where
  "randomElectionTimeout draw cfg =
     (let spread = wrap64 (cfg_ElectionTimeoutMaxMs cfg - cfg_ElectionTimeoutMinMs cfg) in
      if spread \<le> 0 then None
      else Some (millis (wrap64 (cfg_ElectionTimeoutMinMs cfg + draw spread))))"

section \<open>Handlers\<close>

record request =
  rq_Method :: string
  rq_Path :: string
  rq_URI :: string
  rq_Body :: string
  rq_Value :: string

datatype handled =
    Reply nat string
  | RedirectTo string
  | CallSet string string
  | CallDelete string

text \<open>\<open>fmt.Fprintln\<close> and \<open>http.Error\<close> end their text with a newline.\<close>

definition line :: "string \<Rightarrow> string" where
  "line s = s @ [CHR 0x0A]"

text \<open>The redirect of a request to the leader that the node knows; 307 keeps the method.\<close>

definition to_leader :: "(string \<rightharpoonup> string) \<Rightarrow> string \<Rightarrow> request \<Rightarrow> handled" where
  "to_leader addrs leader req =
     (if leader = '''' then Reply 503 (line ''no leader elected yet, retry shortly'')
      else case addrs leader of
        None \<Rightarrow> Reply 500 (line ''unknown leader address'')
      | Some addr \<Rightarrow> RedirectTo (''http://'' @ addr @ rq_URI req))"

text \<open>\<open>n1\<close> is the node when \<open>State\<close> is read, \<open>n2\<close> when \<open>LeaderID\<close> is read.\<close>

definition makeHandler ::
    "(string \<rightharpoonup> string) \<Rightarrow> RaftNode \<Rightarrow> RaftNode \<Rightarrow> KVStore \<Rightarrow> request \<Rightarrow> handled" where
  "makeHandler addrs n1 n2 kv req =
     (let key = trimPrefix (rq_Path req) ''/keys/'' in
      if key = '''' then Reply 400 (line ''missing key in path'')
      else if rq_Method req \<noteq> ''GET'' \<and> nstate n1 \<noteq> Leader then to_leader addrs (leaderID n2) req
      else if rq_Method req = ''GET'' then
        (case kv_Get key kv of
           Inl _ \<Rightarrow> Reply 404 (line ''not found'')
         | Inr val \<Rightarrow> Reply 200 (line val))
      else if rq_Method req = ''PUT'' then
        let body = trimSpace (rq_Body req)
        in CallSet key (if body = '''' then rq_Value req else body)
      else if rq_Method req = ''DELETE'' then CallDelete key
      else Reply 405 (line ''method not allowed''))"

text \<open>The texts of the errors; \<open>gob_text\<close> is that of the decoder.\<close>

definition kv_error_text :: "string \<Rightarrow> kv_error \<Rightarrow> string" where
  "kv_error_text gob_text e = (case e of
      KVNotLeader \<Rightarrow> ''kvstore: not the leader''
    | ErrKeyNotFound \<Rightarrow> ''kvstore: key not found''
    | ErrTimeout \<Rightarrow> ''kvstore: timed out waiting for commit''
    | DecodeError \<Rightarrow> gob_text
    | UnknownOp t \<Rightarrow> ''unknown op: '' @ t)"

text \<open>What follows a call of \<open>Set\<close> or \<open>Delete\<close>.\<close>

definition write_reply :: "string \<Rightarrow> kv_error + string \<Rightarrow> handled" where
  "write_reply gob_text res = (case res of Inl e \<Rightarrow> Reply 503 (line (kv_error_text gob_text e)) | Inr _ \<Rightarrow> Reply 200 (line ''OK''))"

text \<open>
  \<open>/admin/add-node\<close> and \<open>/admin/remove-node\<close>. \<open>body\<close> is the decoded field \<open>addr\<close>, \<open>None\<close> when the body is
  not JSON; \<open>n3\<close> is the node when the change is made, and is returned changed.
\<close>

definition makeAdminHandler ::
    "(string \<rightharpoonup> string) \<Rightarrow> string \<Rightarrow> instant \<Rightarrow> RaftNode \<Rightarrow> RaftNode \<Rightarrow> string option \<Rightarrow> request \<Rightarrow> RaftNode
      \<Rightarrow> handled \<times> RaftNode" where
  "makeAdminHandler addrs opn now n1 n2 body req n3 =
     (if rq_Method req \<noteq> ''POST'' then (Reply 405 (line ''method not allowed''), n3)
      else if nstate n1 \<noteq> Leader then (to_leader addrs (leaderID n2) req, n3)
      else if body = None \<or> body = Some '''' then (Reply 400 (line ''body must be JSON with an \"addr\" field''), n3)
      else
        let (err, n4) =
          (if opn = ''add'' then let (e, n', _) = AddPeer now (the body) n3 in (e, n')
           else if opn = ''remove'' then let (e, n', _) = RemovePeer now (the body) n3 in (e, n')
           else (None, n3))
        in (case err of None \<Rightarrow> Reply 200 (line ''OK'') | Some _ \<Rightarrow> Reply 500 (line ''raft: not the leader''), n4))"

definition corsMiddleware :: "(request \<Rightarrow> handled) \<Rightarrow> request \<Rightarrow> handled" where
  "corsMiddleware next' req = (if rq_Method req = ''OPTIONS'' then Reply 204 '''' else next' req)"

text \<open>\<open>/status\<close>: every field is read under the lock on its own; \<open>r i\<close> is the node at the \<open>i\<close>-th read.\<close>

record status_json =
  st_node_id :: string
  st_state :: string
  st_term :: u64
  st_leader :: string
  st_commit_index :: u64
  st_last_applied :: u64
  st_heartbeats_received :: u64
  st_heartbeats_sent :: u64
  st_peers :: "string list"
  st_snapshot_index :: u64

definition makeStatusHandler :: "string \<Rightarrow> (nat \<Rightarrow> RaftNode) \<Rightarrow> status_json" where
  "makeStatusHandler nodeID r =
     \<lparr>st_node_id = nodeID, st_state = NodeState_String (nstate (r 0)), st_term = currentTerm (r 1),
      st_leader = leaderID (r 2), st_commit_index = commitIndex (r 3), st_last_applied = lastApplied (r 4),
      st_heartbeats_received = heartbeatsRecv (r 5), st_heartbeats_sent = heartbeatsSent (r 6),
      st_peers = Peers (r 7), st_snapshot_index = snapshotIndex (rlog (r 8))\<rparr>"

record log_json =
  lj_index :: u64
  lj_term :: u64
  lj_is_config :: bool
  lj_config_op :: string
  lj_config_peer :: string
  lj_command :: string

definition makeLogHandler :: "RaftNode \<Rightarrow> log_json list" where
  "makeLogHandler n =
     map (\<lambda>e. \<lparr>lj_index = le_Index e, lj_term = le_Term e, lj_is_config = le_IsConfig e,
                lj_config_op = le_ConfigOp e, lj_config_peer = le_ConfigPeer e,
                lj_command = bytes_str (le_Command e)\<rparr>) (LogEntries n)"

section \<open>Parsing\<close>

fun join :: "char \<Rightarrow> string list \<Rightarrow> string" where
  "join c [] = []"
| "join c [w] = w"
| "join c (w # ws) = w @ c # join c ws"

lemma splitOn_nonempty: "splitOn c s \<noteq> []"
  by (induction s) (auto split: list.splits)

lemma splitOn_word: "c \<notin> set w \<Longrightarrow> splitOn c w = [w]"
  by (induction w) auto

lemma splitOn_append: "c \<notin> set w \<Longrightarrow> splitOn c (w @ c # s) = w # splitOn c s"
  by (induction w) auto

lemma splitOn_join: "ws \<noteq> [] \<Longrightarrow> \<forall>w \<in> set ws. c \<notin> set w \<Longrightarrow> splitOn c (join c ws) = ws"
  by (induction c ws rule: join.induct) (auto simp: splitOn_word splitOn_append)

lemma splitN2_pair: "c \<notin> set k \<Longrightarrow> splitN2 c (k @ c # v) = [k, v]"
  by (induction k) (auto simp: splitN2_def)

text \<open>An entry \<open>id=host:port\<close> of \<open>PEER_HTTP_ADDRS\<close>.\<close>

definition addr_pair :: "string \<times> string \<Rightarrow> string" where
  "addr_pair kv = fst kv @ ''='' @ snd kv"

definition addr_ok :: "string \<times> string \<Rightarrow> bool" where
  "addr_ok kv \<longleftrightarrow> CHR '','' \<notin> set (fst kv) \<and> CHR '','' \<notin> set (snd kv) \<and> CHR ''='' \<notin> set (fst kv)
     \<and> trimSpace (fst kv) = fst kv \<and> trimSpace (snd kv) = snd kv"

text \<open>
  \<open>PEER_HTTP_ADDRS\<close> is read back as it was written: of a comma-separated list of \<open>id=address\<close>
  entries (no comma in either part, no \<open>=\<close> in an id, no white space around them) every entry is found
  under its id, the last one when an id is repeated.
\<close>

lemma peer_addrs_roundtrip:
  assumes "\<forall>kv \<in> set kvs. addr_ok kv"
  shows "parsePeerHTTPAddrs (join (CHR '','') (map addr_pair kvs)) = map_of (rev kvs)"
proof -
  have "add_pair (addr_pair kv) m = m(fst kv \<mapsto> snd kv)" if "addr_ok kv" for kv m
    using that splitN2_pair [of "CHR ''=''" "fst kv" "snd kv"] by (simp add: add_pair_def addr_pair_def addr_ok_def)
  then have "fold add_pair (map addr_pair kvs) m = fold (\<lambda>kv m. m(fst kv \<mapsto> snd kv)) kvs m" for m
    using assms by (induction kvs arbitrary: m) simp_all
  also have "fold (\<lambda>kv m. m(fst kv \<mapsto> snd kv)) kvs Map.empty = map_of (rev kvs)"
  proof -
    have "fold (\<lambda>kv m. m(fst kv \<mapsto> snd kv)) kvs m = m ++ map_of (rev kvs)" for m
      by (induction kvs arbitrary: m) (auto simp: map_add_def fun_eq_iff split: option.split)
    then show ?thesis by simp
  qed
  finally have f: "fold add_pair (map addr_pair kvs) Map.empty = map_of (rev kvs)" .
  show ?thesis
  proof (cases "kvs = []")
    case False
    have "\<forall>w \<in> set (map addr_pair kvs). CHR '','' \<notin> set w"
      using assms by (auto simp: addr_pair_def addr_ok_def)
    moreover have "join (CHR '','') (map addr_pair kvs) \<noteq> ''''"
      using False by (cases kvs; cases "tl kvs") (auto simp: addr_pair_def)
    ultimately show ?thesis
      using f False by (simp add: parsePeerHTTPAddrs_def splitNonEmpty_def splitOn_join)
  qed (simp add: parsePeerHTTPAddrs_def splitNonEmpty_def)
qed

section \<open>Timeouts\<close>

lemma wrap64_id: "- (2 ^ 63) \<le> x \<Longrightarrow> x < 2 ^ 63 \<Longrightarrow> wrap64 x = x"
  by (simp add: wrap64_def)

text \<open>
  C33: with a minimum below the maximum (and both small enough for nanoseconds in 64 bits) the election
  timeout is a duration from the minimum up to before the maximum. With a minimum that is not below
  the maximum the node panics when it starts its timer.
\<close>

theorem election_timeout_range:
  assumes "0 \<le> cfg_ElectionTimeoutMinMs cfg" and "0 \<le> cfg_ElectionTimeoutMaxMs cfg"
    and "cfg_ElectionTimeoutMinMs cfg * 1000000 < 2 ^ 63" and "cfg_ElectionTimeoutMaxMs cfg * 1000000 < 2 ^ 63"
    and "\<forall>k > 0. 0 \<le> draw k \<and> draw k < k"
  shows "case randomElectionTimeout draw cfg of
      None \<Rightarrow> cfg_ElectionTimeoutMaxMs cfg \<le> cfg_ElectionTimeoutMinMs cfg
    | Some d \<Rightarrow> cfg_ElectionTimeoutMinMs cfg * 1000000 \<le> d \<and> d < cfg_ElectionTimeoutMaxMs cfg * 1000000"
proof -
  let ?a = "cfg_ElectionTimeoutMinMs cfg" and ?b = "cfg_ElectionTimeoutMaxMs cfg"
  have s: "wrap64 (?b - ?a) = ?b - ?a" using assms(1-4) by (intro wrap64_id) linarith+
  show ?thesis
  proof (cases "?b - ?a \<le> 0")
    case True
    then show ?thesis by (simp add: randomElectionTimeout_def s)
  next
    case False
    then have d: "0 \<le> draw (?b - ?a)" "draw (?b - ?a) < ?b - ?a" using assms(5) by simp_all
    have "wrap64 (?a + draw (?b - ?a)) = ?a + draw (?b - ?a)"
      using assms(1-4) d by (intro wrap64_id) linarith+
    moreover have "millis (?a + draw (?b - ?a)) = (?a + draw (?b - ?a)) * 1000000"
      unfolding millis_def distrib_right using assms(1-4) d by (intro wrap64_id) linarith+
    ultimately show ?thesis using False d by (simp add: randomElectionTimeout_def s)
  qed
qed

theorem election_timeout_range_witness:
  "case randomElectionTimeout (\<lambda>k. k - 1) \<lparr>cfg_ID = ''n'', cfg_Peers = [], cfg_ElectionTimeoutMinMs = 150,
     cfg_ElectionTimeoutMaxMs = 300, cfg_HeartbeatIntervalMs = 50, cfg_SelfAddr = ''''\<rparr> of
     None \<Rightarrow> False | Some d \<Rightarrow> 150000000 \<le> d \<and> d < 300000000"
  using election_timeout_range [of "\<lparr>cfg_ID = ''n'', cfg_Peers = [], cfg_ElectionTimeoutMinMs = 150,
     cfg_ElectionTimeoutMaxMs = 300, cfg_HeartbeatIntervalMs = 50, cfg_SelfAddr = ''''\<rparr>" "\<lambda>k. k - 1"]
  by (simp split: option.splits)

text \<open>
  A minimum timeout of 300 ms or more in the environment, with the maximum left at its default, is
  accepted by the configuration and makes every node panic.
\<close>

lemma timeout_env_panics:
  "case main_config ((\<lambda>_. '''')(''NODE_ID'' := ''node1'', ''RAFT_RPC_ADDR'' := '':7001'', ''HTTP_ADDR'' := '':8081'',
      ''DATA_DIR'' := ''/data'', ''ELECTION_TIMEOUT_MIN_MS'' := ''300'')) of
     Inl _ \<Rightarrow> False
   | Inr (cfg, _) \<Rightarrow> cfg_SelfAddr cfg = ''node1:7001'' \<and> randomElectionTimeout (\<lambda>k. 0) (cfg_defaults cfg) = None"
  by code_simp

section \<open>Requests\<close>

text \<open>The operation that a call of the store submits.\<close>

fun handled_op :: "handled \<Rightarrow> op option" where
  "handled_op (CallSet key value) = Some (Set_op key value)"
| "handled_op (CallDelete key) = Some (Delete_op key)"
| "handled_op _ = None"

definition key_request :: "string \<Rightarrow> string \<Rightarrow> string \<Rightarrow> request" where
  "key_request meth key body = \<lparr>rq_Method = meth, rq_Path = ''/keys/'' @ key, rq_URI = ''/keys/'' @ key,
     rq_Body = body, rq_Value = ''''\<rparr>"

lemma key_of_request: "trimPrefix (''/keys/'' @ key) ''/keys/'' = key"
  by (simp add: trimPrefix_def hasPrefix_def)

lemmas key_of_path [simp] = key_of_request [simplified]

lemma kv_Get_unwritten:
  assumes "gob_ok g" and "\<forall>o' \<in> set os. \<not> writes key o'"
  shows "kv_Get key (replay (kv_machine g) (map (encodeOp g) os) kv) = kv_Get key kv"
  using assms(2) by (induction os arbitrary: kv) (simp_all add: kv_Get_Apply [OF assms(1)])



end
