(* ===== verification/Sidecar.thy ===== *)
theory Sidecar
  imports Server Chaos KVSystem
begin

text \<open>
  The sidecar, \<open>src/cmd/sidecar/main.go\<close>: it keeps a list of nodes, starts and stops their containers
  and adds or removes them in the cluster. Everything it does outside its own memory (docker commands,
  HTTP requests to nodes, looks at the clock) is a command; the state records the commands issued, and
  what each of them returns is given by an environment that sees the commands before it.
\<close>

section \<open>State\<close>

record NodeDef =
  nd_ID :: string
  nd_RPCAddr :: string
  nd_HTTPPort :: int
  nd_RPCPort :: int
  nd_Bootstrap :: bool
  nd_Dynamic :: bool

datatype command =
    FetchStatus int
  | Compose string string
  | Docker string string
  | DockerRun string int int string string string
  | AddNode int string
  | RemoveNode int string
  | TimeLeft

text \<open>
  What a command returns: whether it succeeded, its output, the status code of the answer to a
  request (\<open>None\<close>: no answer), the status of a node. \<open>w_project\<close> is the base name of the directory of the
  compose file, after which docker names images, volumes and the network.
\<close>

record world =
  w_project :: string
  w_ok :: "command list \<Rightarrow> command \<Rightarrow> bool"
  w_out :: "command list \<Rightarrow> command \<Rightarrow> string"
  w_http :: "command list \<Rightarrow> command \<Rightarrow> nat option"
  w_status :: "command list \<Rightarrow> int \<Rightarrow> status_json option"

record Sidecar =
  sc_nodes :: "NodeDef list"
  sc_paused :: "string \<Rightarrow> bool"
  sc_cmds :: "command list"

definition preset :: "string \<Rightarrow> int \<Rightarrow> bool \<Rightarrow> NodeDef" where
  "preset ident port boot = \<lparr>nd_ID = ident, nd_RPCAddr = ident @ '':7001'', nd_HTTPPort = port, nd_RPCPort = 0,
     nd_Bootstrap = boot, nd_Dynamic = False\<rparr>"

definition presetNodes :: "NodeDef list" where
  "presetNodes = [preset ''node1'' 8081 True, preset ''node2'' 8082 True, preset ''node3'' 8083 True,
     preset ''node4'' 8084 False, preset ''node5'' 8085 False]"

definition sidecar_init :: Sidecar where
  "sidecar_init = \<lparr>sc_nodes = presetNodes, sc_paused = (\<lambda>_. False), sc_cmds = []\<rparr>"

text \<open>One command, with what it returned; a status request returns a status or nothing.\<close>

definition run_cmd :: "world \<Rightarrow> command \<Rightarrow> Sidecar \<Rightarrow> bool \<times> Sidecar" where
  "run_cmd w c s = (w_ok w (sc_cmds s) c, s\<lparr>sc_cmds := sc_cmds s @ [c]\<rparr>)"

definition fetchRaftStatus :: "world \<Rightarrow> int \<Rightarrow> Sidecar \<Rightarrow> status_json option \<times> Sidecar" where
  "fetchRaftStatus w port s = (w_status w (sc_cmds s) port, s\<lparr>sc_cmds := sc_cmds s @ [FetchStatus port]\<rparr>)"

text \<open>A membership request: an answer with a code of 300 or more is an error.\<close>

definition accepted :: "nat option \<Rightarrow> bool" where
  "accepted code = (case code of None \<Rightarrow> False | Some c \<Rightarrow> \<not> c \<ge> 300)"

definition raftAddNode :: "world \<Rightarrow> int \<Rightarrow> string \<Rightarrow> Sidecar \<Rightarrow> bool \<times> Sidecar" where
  "raftAddNode w port rpcAddr s =
     (accepted (w_http w (sc_cmds s) (AddNode port rpcAddr)), s\<lparr>sc_cmds := sc_cmds s @ [AddNode port rpcAddr]\<rparr>)"

definition raftRemoveNode :: "world \<Rightarrow> int \<Rightarrow> string \<Rightarrow> Sidecar \<Rightarrow> bool \<times> Sidecar" where
  "raftRemoveNode w port rpcAddr s =
     (accepted (w_http w (sc_cmds s) (RemoveNode port rpcAddr)), s\<lparr>sc_cmds := sc_cmds s @ [RemoveNode port rpcAddr]\<rparr>)"

section \<open>The registry\<close>

definition isPaused :: "string \<Rightarrow> Sidecar \<Rightarrow> bool" where
  "isPaused ident s = sc_paused s ident"

definition setPaused :: "string \<Rightarrow> bool \<Rightarrow> Sidecar \<Rightarrow> Sidecar" where
  "setPaused ident v s = s\<lparr>sc_paused := (sc_paused s)(ident := v)\<rparr>"

definition allNodes :: "Sidecar \<Rightarrow> NodeDef list" where
  "allNodes s = sc_nodes s"

definition findNode :: "string \<Rightarrow> Sidecar \<Rightarrow> NodeDef option" where
  "findNode ident s = find (\<lambda>n. nd_ID n = ident) (sc_nodes s)"

definition addDynamicNode :: "NodeDef \<Rightarrow> Sidecar \<Rightarrow> Sidecar" where
  "addDynamicNode n s = s\<lparr>sc_nodes := sc_nodes s @ [n]\<rparr>"

text \<open>The first matching dynamic entry is removed.\<close>

fun remove_first :: "('a \<Rightarrow> bool) \<Rightarrow> 'a list \<Rightarrow> 'a list" where
  "remove_first P [] = []"
| "remove_first P (x # xs) = (if P x then xs else x # remove_first P xs)"

definition removeDynamicNode :: "string \<Rightarrow> Sidecar \<Rightarrow> Sidecar" where
  "removeDynamicNode ident s = s\<lparr>sc_nodes := remove_first (\<lambda>n. nd_ID n = ident \<and> nd_Dynamic n) (sc_nodes s)\<rparr>"

section \<open>Finding the leader\<close>

text \<open>The live nodes with their statuses, asked one after the other.\<close>

fun live_nodes :: "world \<Rightarrow> int \<Rightarrow> NodeDef list \<Rightarrow> Sidecar \<Rightarrow> (NodeDef \<times> status_json) list \<times> Sidecar" where
  "live_nodes w exclude [] s = ([], s)"
| "live_nodes w exclude (n # ns) s =
     (if nd_HTTPPort n = exclude then live_nodes w exclude ns s
      else
        let (st, s1) = fetchRaftStatus w (nd_HTTPPort n) s;
            (live, s2) = live_nodes w exclude ns s1
        in (case st of None \<Rightarrow> live | Some t \<Rightarrow> (n, t) # live, s2))"

text \<open>The second pass: a node that names a leader which the registry knows under another port.\<close>

fun named_leader :: "int \<Rightarrow> NodeDef list \<Rightarrow> (NodeDef \<times> status_json) list \<Rightarrow> int option" where
  "named_leader exclude all [] = None"
| "named_leader exclude all ((n, st) # live) =
     (if st_leader st = '''' then named_leader exclude all live
      else case find (\<lambda>m. nd_ID m = hd (splitOn (CHR '':'') (st_leader st)) \<and> nd_HTTPPort m \<noteq> exclude) all of
        Some m \<Rightarrow> Some (nd_HTTPPort m)
      | None \<Rightarrow> named_leader exclude all live)"

definition pick_port :: "int \<Rightarrow> NodeDef list \<Rightarrow> (NodeDef \<times> status_json) list \<Rightarrow> int" where
  "pick_port exclude all live =
     (case find (\<lambda>(n, st). st_state st = ''leader'') live of
        Some (n, st) \<Rightarrow> nd_HTTPPort n
      | None \<Rightarrow>
          (case named_leader exclude all live of
             Some p \<Rightarrow> p
           | None \<Rightarrow> (case live of [] \<Rightarrow> 0 | (n, st) # _ \<Rightarrow> nd_HTTPPort n)))"

definition findOnlinePortExcluding :: "world \<Rightarrow> int \<Rightarrow> Sidecar \<Rightarrow> int \<times> Sidecar" where
  "findOnlinePortExcluding w exclude s =
     (let (live, s1) = live_nodes w exclude (allNodes s) s in (pick_port exclude (allNodes s) live, s1))"

text \<open>
  The retry loop: a round that fails sleeps half a second, so that 30 seconds are over after at most
  61 rounds; the clock may say so earlier.
\<close>

fun retryAddNode :: "world \<Rightarrow> nat \<Rightarrow> int \<Rightarrow> string \<Rightarrow> Sidecar \<Rightarrow> bool \<times> Sidecar" where
  "retryAddNode w 0 exclude rpcAddr s = (False, s)"
| "retryAddNode w (Suc k) exclude rpcAddr s =
     (let (more, s1) = run_cmd w TimeLeft s in
      if \<not> more then (False, s1)
      else
        let (port, s2) = findOnlinePortExcluding w exclude s1 in
        if port = 0 then retryAddNode w k exclude rpcAddr s2
        else
          let (ok, s3) = raftAddNode w port rpcAddr s2 in
          if ok then (True, s3) else retryAddNode w k exclude rpcAddr s3)"

definition retry_rounds :: nat where
  "retry_rounds = 61"

text \<open>\<open>waitForHTTP\<close> has the same 30 seconds and the same sleep.\<close>

fun waitForHTTP :: "world \<Rightarrow> nat \<Rightarrow> int \<Rightarrow> Sidecar \<Rightarrow> bool \<times> Sidecar" where
  "waitForHTTP w 0 port s = (False, s)"
| "waitForHTTP w (Suc k) port s =
     (let (more, s1) = run_cmd w TimeLeft s in
      if \<not> more then (False, s1)
      else let (st, s2) = fetchRaftStatus w port s1 in
           if st \<noteq> None then (True, s2) else waitForHTTP w k port s2)"

section \<open>Docker\<close>

definition clearNodeData :: "world \<Rightarrow> string \<Rightarrow> Sidecar \<Rightarrow> Sidecar" where
  "clearNodeData w nodeID s =
     (let s1 = snd (run_cmd w (Compose ''rm'' nodeID) s)
      in snd (run_cmd w (Docker ''volume rm'' (w_project w @ ''_'' @ nodeID @ ''-data'')) s1))"

definition composeNetworkName :: "world \<Rightarrow> string" where
  "composeNetworkName w = w_project w @ ''_default''"

text \<open>The two loops of \<open>getBuiltImage\<close>: images under their usual names, then those docker lists.\<close>

fun named_image :: "world \<Rightarrow> NodeDef list \<Rightarrow> Sidecar \<Rightarrow> string option \<times> Sidecar" where
  "named_image w [] s = (None, s)"
| "named_image w (n # ns) s =
     (let imageName = w_project w @ ''-'' @ nd_ID n;
          (ok, s1) = run_cmd w (Docker ''image inspect'' imageName) s
      in if ok then (Some imageName, s1) else named_image w ns s1)"

fun listed_image :: "world \<Rightarrow> NodeDef list \<Rightarrow> Sidecar \<Rightarrow> string option \<times> Sidecar" where
  "listed_image w [] s = (None, s)"
| "listed_image w (n # ns) s =
     (let c = Compose ''images'' (nd_ID n);
          img = trimSpace (w_out w (sc_cmds s) c);
          (ok, s1) = run_cmd w c s
      in if ok \<and> img \<noteq> '''' then (Some img, s1) else listed_image w ns s1)"

definition getBuiltImage :: "world \<Rightarrow> Sidecar \<Rightarrow> string option \<times> Sidecar" where
  "getBuiltImage w s =
     (let (named, s1) = named_image w presetNodes s
      in case named of Some img \<Rightarrow> (Some img, s1) | None \<Rightarrow> listed_image w presetNodes s1)"

section \<open>Starting and stopping\<close>

text \<open>Errors by the step that failed.\<close>

datatype sc_error =
    ComposeFailed string
  | NotOnline string
  | NoCluster
  | AddFailed
  | NoImage
  | RunFailed
  | DockerFailed string
  | StopFailed sc_error

definition startPresetNode :: "world \<Rightarrow> NodeDef \<Rightarrow> Sidecar \<Rightarrow> sc_error option \<times> Sidecar" where
  "startPresetNode w node s =
     (let (existingPort, s1) = findOnlinePortExcluding w (nd_HTTPPort node) s;
          s2 = (if existingPort = 0 then clearNodeData w (nd_ID node) s1 else s1);
          (up, s3) = run_cmd w (Compose ''up'' (nd_ID node)) s2 in
      if \<not> up then (Some (ComposeFailed ''up''), s3)
      else
        let (online, s4) = waitForHTTP w retry_rounds (nd_HTTPPort node) s3 in
        if \<not> online then (Some (NotOnline (nd_ID node)), s4)
        else if nd_Bootstrap node \<and> existingPort = 0 then (None, s4)
        else if existingPort = 0 then (Some NoCluster, s4)
        else
          let (added, s5) = retryAddNode w retry_rounds (nd_HTTPPort node) (nd_RPCAddr node) s4 in
          if added \<or> nd_Bootstrap node then (None, s5) else (Some AddFailed, s5))"

text \<open>\<open>%d\<close> of an integer.\<close>

definition show_int :: "int \<Rightarrow> string" where
  "show_int i = (if i < 0 then CHR ''-'' # dec (nat (- i)) else dec (nat i))"

definition peer_part :: "NodeDef \<Rightarrow> string" where
  "peer_part n = nd_ID n @ ''=localhost:'' @ show_int (nd_HTTPPort n)"

definition buildPeerHTTPAddrs :: "string \<Rightarrow> int \<Rightarrow> Sidecar \<Rightarrow> string" where
  "buildPeerHTTPAddrs newID newHTTPPort s =
     (let all = allNodes s;
          parts = map peer_part all @
            (if newID \<in> set (map nd_ID all) then [] else [newID @ ''=localhost:'' @ show_int newHTTPPort])
      in join (CHR '','') parts)"

definition dynamic_node :: "string \<Rightarrow> int \<Rightarrow> int \<Rightarrow> NodeDef" where
  "dynamic_node ident httpPort rpcPort = \<lparr>nd_ID = ident, nd_RPCAddr = ident @ '':7001'', nd_HTTPPort = httpPort,
     nd_RPCPort = rpcPort, nd_Bootstrap = False, nd_Dynamic = True\<rparr>"

definition createDynamicNode :: "world \<Rightarrow> string \<Rightarrow> int \<Rightarrow> int \<Rightarrow> Sidecar \<Rightarrow> sc_error option \<times> Sidecar" where
  "createDynamicNode w ident httpPort rpcPort s =
     (let (image, s1) = getBuiltImage w s in
      case image of
        None \<Rightarrow> (Some NoImage, s1)
      | Some img \<Rightarrow>
        let (started, s2) = run_cmd w (DockerRun ident httpPort rpcPort (composeNetworkName w)
              (buildPeerHTTPAddrs ident httpPort s1) img) s1 in
        if \<not> started then (Some RunFailed, s2)
        else
          let s3 = addDynamicNode (dynamic_node ident httpPort rpcPort) s2;
              (online, s4) = waitForHTTP w retry_rounds httpPort s3 in
          if \<not> online then (Some (NotOnline ident), s4)
          else
            let (added, s5) = retryAddNode w retry_rounds httpPort (ident @ '':7001'') s4
            in (if added then None else Some AddFailed, s5))"

definition leave_cluster :: "world \<Rightarrow> NodeDef \<Rightarrow> Sidecar \<Rightarrow> Sidecar" where
  "leave_cluster w node s =
     (if nd_Bootstrap node then s
      else
        let (port, s1) = findOnlinePortExcluding w (nd_HTTPPort node) s in
        if port \<noteq> 0 then snd (raftRemoveNode w port (nd_RPCAddr node) s1) else s1)"

definition stopNode :: "world \<Rightarrow> NodeDef \<Rightarrow> Sidecar \<Rightarrow> sc_error option \<times> Sidecar" where
  "stopNode w node s =
     (let s1 = leave_cluster w node s in
      if nd_Dynamic node then
        let s2 = snd (run_cmd w (Docker ''stop'' (''raft-'' @ nd_ID node)) s1);
            s3 = snd (run_cmd w (Docker ''rm'' (''raft-'' @ nd_ID node)) s2)
        in (None, removeDynamicNode (nd_ID node) s3)
      else
        let (ok, s2) = run_cmd w (Compose ''stop'' (nd_ID node)) s1
        in (if ok then None else Some (ComposeFailed ''stop''), s2))"

text \<open>\<open>pauseNode\<close> and \<open>unpauseNode\<close> differ in the command and the flag.\<close>

definition pause_cmd :: "string \<Rightarrow> NodeDef \<Rightarrow> command" where
  "pause_cmd verb node = (if nd_Dynamic node then Docker verb (''raft-'' @ nd_ID node) else Compose verb (nd_ID node))"

definition pauseNode :: "world \<Rightarrow> NodeDef \<Rightarrow> Sidecar \<Rightarrow> sc_error option \<times> Sidecar" where
  "pauseNode w node s =
     (let (ok, s1) = run_cmd w (pause_cmd ''pause'' node) s in
      if ok then (None, setPaused (nd_ID node) True s1) else (Some (DockerFailed ''pause''), s1))"

definition unpauseNode :: "world \<Rightarrow> NodeDef \<Rightarrow> Sidecar \<Rightarrow> sc_error option \<times> Sidecar" where
  "unpauseNode w node s =
     (let (ok, s1) = run_cmd w (pause_cmd ''unpause'' node) s in
      if ok then (None, setPaused (nd_ID node) False s1) else (Some (DockerFailed ''unpause''), s1))"

definition restartNode :: "world \<Rightarrow> NodeDef \<Rightarrow> Sidecar \<Rightarrow> sc_error option \<times> Sidecar" where
  "restartNode w node s =
     (let s1 = (if isPaused (nd_ID node) s then snd (unpauseNode w node s) else s);
          (err, s2) = stopNode w node s1 in
      case err of
        Some e \<Rightarrow> (Some (StopFailed e), s2)
      | None \<Rightarrow>
          if nd_Dynamic node then createDynamicNode w (nd_ID node) (nd_HTTPPort node) (nd_RPCPort node) s2
          else startPresetNode w node s2)"

section \<open>Handlers\<close>

text \<open>The body of \<open>/nodes/create\<close>, \<open>None\<close> when it is not JSON.\<close>

record create_request =
  cr_ID :: string
  cr_HTTPPort :: int
  cr_RPCPort :: int

datatype sc_reply = Done | HttpError nat

definition of_error :: "sc_error option \<Rightarrow> sc_reply" where
  "of_error e = (case e of None \<Rightarrow> Done | Some _ \<Rightarrow> HttpError 500)"

text \<open>A new dynamic node: the port must be given.\<close>

definition create_new :: "world \<Rightarrow> create_request \<Rightarrow> Sidecar \<Rightarrow> sc_reply \<times> Sidecar" where
  "create_new w rq s =
     (if cr_HTTPPort rq = 0 then (HttpError 400, s)
      else
        let rpc = (if cr_RPCPort rq = 0 then wrap64 (cr_HTTPPort rq + 100) else cr_RPCPort rq);
            (err, s1) = createDynamicNode w (cr_ID rq) (cr_HTTPPort rq) rpc s
        in (of_error err, s1))"

definition handleCreateNode :: "world \<Rightarrow> string \<Rightarrow> create_request option \<Rightarrow> Sidecar \<Rightarrow> sc_reply \<times> Sidecar" where
  "handleCreateNode w meth body s =
     (if meth \<noteq> ''POST'' then (HttpError 405, s)
      else case body of
        None \<Rightarrow> (HttpError 400, s)
      | Some rq \<Rightarrow>
          if cr_ID rq = '''' then (HttpError 400, s)
          else case findNode (cr_ID rq) s of
            None \<Rightarrow> create_new w rq s
          | Some existing \<Rightarrow>
              let (st, s1) = fetchRaftStatus w (nd_HTTPPort existing) s in
              if st \<noteq> None then (HttpError 409, s1)
              else if \<not> nd_Dynamic existing then
                let (err, s2) = startPresetNode w existing s1 in (of_error err, s2)
              else create_new w rq (removeDynamicNode (cr_ID rq) s1))"

definition handleNodeAction :: "world \<Rightarrow> string \<Rightarrow> string \<Rightarrow> Sidecar \<Rightarrow> sc_reply \<times> Sidecar" where
  "handleNodeAction w meth path s =
     (if meth \<noteq> ''POST'' then (HttpError 405, s)
      else case splitOn (CHR ''/'') (trimPrefix path ''/nodes/'') of
        [nodeID, act] \<Rightarrow>
          (case findNode nodeID s of
             None \<Rightarrow> (HttpError 404, s)
           | Some node \<Rightarrow>
               if act = ''stop'' then map_prod of_error id (stopNode w node s)
               else if act = ''pause'' then map_prod of_error id (pauseNode w node s)
               else if act = ''unpause'' then map_prod of_error id (unpauseNode w node s)
               else if act = ''restart'' then map_prod of_error id (restartNode w node s)
               else (HttpError 400, s))
      | _ \<Rightarrow> (HttpError 400, s))"

text \<open>
  \<open>/nodes\<close>: the statuses of all nodes that are not paused, asked concurrently (\<open>arrivals\<close> is the order in
  which the answers came in), and the membership according to the leader, or to anybody while there is
  none. Nothing is returned for a method other than \<open>GET\<close>.
\<close>

record NodeInfo =
  ni_def :: NodeDef
  ni_Running :: bool
  ni_InCluster :: bool
  ni_Paused :: bool
  ni_RaftState :: string
  ni_Term :: u64
  ni_Leader :: string
  ni_Peers :: "string list"
  ni_CommitIndex :: u64
  ni_LastApplied :: u64
  ni_HeartbeatsSent :: u64
  ni_HeartbeatsReceived :: u64
  ni_SnapshotIndex :: u64

fun collect_statuses ::
    "world \<Rightarrow> NodeDef list \<Rightarrow> (int \<Rightarrow> status_json option) \<Rightarrow> Sidecar \<Rightarrow> (int \<Rightarrow> status_json option) \<times> Sidecar" where
  "collect_statuses w [] byPort s = (byPort, s)"
| "collect_statuses w (n # ns) byPort s =
     (if isPaused (nd_ID n) s then collect_statuses w ns (byPort(nd_HTTPPort n := None)) s
      else let (st, s1) = fetchRaftStatus w (nd_HTTPPort n) s
           in collect_statuses w ns (byPort(nd_HTTPPort n := st)) s1)"

definition is_leader_status :: "status_json option \<Rightarrow> bool" where
  "is_leader_status st = (case st of None \<Rightarrow> False | Some t \<Rightarrow> st_state t = ''leader'')"

definition status_peers :: "status_json option \<Rightarrow> string list" where
  "status_peers st = (case st of None \<Rightarrow> [] | Some t \<Rightarrow> st_peers t)"

text \<open>\<open>leaderPeers\<close> when there is a leader, \<open>fallbackPeers\<close> otherwise.\<close>

definition cluster_members :: "(int \<Rightarrow> status_json option) \<Rightarrow> NodeDef list \<Rightarrow> string list" where
  "cluster_members byPort all =
     (case find (\<lambda>n. is_leader_status (byPort (nd_HTTPPort n))) all of
        Some n \<Rightarrow> nd_RPCAddr n # status_peers (byPort (nd_HTTPPort n))
      | None \<Rightarrow> concat (map (\<lambda>n. status_peers (byPort (nd_HTTPPort n))) all))"

definition node_info :: "(int \<Rightarrow> status_json option) \<Rightarrow> NodeDef list \<Rightarrow> Sidecar \<Rightarrow> NodeDef \<Rightarrow> NodeInfo" where
  "node_info byPort all s n =
     (let st = byPort (nd_HTTPPort n);
          paused = isPaused (nd_ID n) s;
          inCluster = (nd_RPCAddr n \<in> set (cluster_members byPort all) \<or> paused \<or> is_leader_status st) in
      case st of
        Some t \<Rightarrow> \<lparr>ni_def = n, ni_Running = True, ni_InCluster = inCluster, ni_Paused = paused,
          ni_RaftState = st_state t, ni_Term = st_term t, ni_Leader = st_leader t, ni_Peers = st_peers t,
          ni_CommitIndex = st_commit_index t, ni_LastApplied = st_last_applied t,
          ni_HeartbeatsSent = st_heartbeats_sent t, ni_HeartbeatsReceived = st_heartbeats_received t,
          ni_SnapshotIndex = st_snapshot_index t\<rparr>
      | None \<Rightarrow> \<lparr>ni_def = n, ni_Running = paused, ni_InCluster = inCluster, ni_Paused = paused,
          ni_RaftState = (if paused then ''paused'' else ''''), ni_Term = 0, ni_Leader = '''', ni_Peers = [],
          ni_CommitIndex = 0, ni_LastApplied = 0, ni_HeartbeatsSent = 0, ni_HeartbeatsReceived = 0,
          ni_SnapshotIndex = 0\<rparr>)"

definition handleNodes :: "world \<Rightarrow> string \<Rightarrow> NodeDef list \<Rightarrow> Sidecar \<Rightarrow> NodeInfo list option \<times> Sidecar" where
  "handleNodes w meth arrivals s =
     (if meth \<noteq> ''GET'' then (None, s)
      else let (byPort, s1) = collect_statuses w arrivals (\<lambda>_. None) s
           in (Some (map (node_info byPort (allNodes s) s1) (allNodes s)), s1))"

section \<open>The registry stays well-formed\<close>

definition wf_sidecar :: "Sidecar \<Rightarrow> bool" where
  "wf_sidecar s \<longleftrightarrow> distinct (map nd_ID (sc_nodes s)) \<and> filter (\<lambda>n. \<not> nd_Dynamic n) (sc_nodes s) = presetNodes
     \<and> (\<forall>n \<in> set (sc_nodes s). nd_Dynamic n \<longrightarrow> \<not> nd_Bootstrap n)"

lemma cmd_nodes [simp]:
  "sc_nodes (snd (run_cmd w c s)) = sc_nodes s" "sc_paused (snd (run_cmd w c s)) = sc_paused s"
  "sc_nodes (snd (fetchRaftStatus w p s)) = sc_nodes s" "sc_paused (snd (fetchRaftStatus w p s)) = sc_paused s"
  "sc_nodes (snd (raftAddNode w p a s)) = sc_nodes s" "sc_paused (snd (raftAddNode w p a s)) = sc_paused s"
  "sc_nodes (snd (raftRemoveNode w p a s)) = sc_nodes s" "sc_paused (snd (raftRemoveNode w p a s)) = sc_paused s"
  by (simp_all add: run_cmd_def fetchRaftStatus_def raftAddNode_def raftRemoveNode_def)

lemma waitForHTTP_frame [simp]:
  "sc_nodes (snd (waitForHTTP w k p s)) = sc_nodes s" "sc_paused (snd (waitForHTTP w k p s)) = sc_paused s"
  by (induction k arbitrary: s) (simp_all add: case_prod_beta Let_def)

lemma docker_frame [simp]:
  "sc_nodes (clearNodeData w i s) = sc_nodes s" "sc_paused (clearNodeData w i s) = sc_paused s"
  "sc_nodes (snd (named_image w ns s)) = sc_nodes s" "sc_paused (snd (named_image w ns s)) = sc_paused s"
  "sc_nodes (snd (listed_image w ns s)) = sc_nodes s" "sc_paused (snd (listed_image w ns s)) = sc_paused s"
  by (simp_all add: clearNodeData_def)
    (induction ns arbitrary: s; simp add: case_prod_beta Let_def)+

lemma image_frame [simp]:
  "sc_nodes (snd (getBuiltImage w s)) = sc_nodes s" "sc_paused (snd (getBuiltImage w s)) = sc_paused s"
  by (simp_all add: getBuiltImage_def case_prod_beta split: option.split)

lemma live_nodes_frame [simp]:
  "sc_nodes (snd (live_nodes w e ns s)) = sc_nodes s" "sc_paused (snd (live_nodes w e ns s)) = sc_paused s"
  by (induction ns arbitrary: s) (simp_all add: case_prod_beta Let_def)

lemma findOnline_frame [simp]:
  "sc_nodes (snd (findOnlinePortExcluding w e s)) = sc_nodes s" "sc_paused (snd (findOnlinePortExcluding w e s)) = sc_paused s"
  by (simp_all add: findOnlinePortExcluding_def case_prod_beta)

lemma retry_frame [simp]:
  "sc_nodes (snd (retryAddNode w k e a s)) = sc_nodes s" "sc_paused (snd (retryAddNode w k e a s)) = sc_paused s"
  by (induction k arbitrary: s) (simp_all add: case_prod_beta Let_def)

lemma startPreset_frame [simp]:
  "sc_nodes (snd (startPresetNode w n s)) = sc_nodes s" "sc_paused (snd (startPresetNode w n s)) = sc_paused s"
  by (simp_all add: startPresetNode_def case_prod_beta Let_def)

lemma leave_frame [simp]:
  "sc_nodes (leave_cluster w n s) = sc_nodes s" "sc_paused (leave_cluster w n s) = sc_paused s"
  by (simp_all add: leave_cluster_def case_prod_beta Let_def)

lemma pause_frame [simp]:
  "sc_nodes (snd (pauseNode w n s)) = sc_nodes s" "sc_nodes (snd (unpauseNode w n s)) = sc_nodes s"
  by (simp_all add: pauseNode_def unpauseNode_def setPaused_def case_prod_beta Let_def)

lemma create_nodes:
  "sc_nodes (snd (createDynamicNode w i h r s)) \<in> {sc_nodes s, sc_nodes s @ [dynamic_node i h r]}"
  by (simp add: createDynamicNode_def case_prod_beta Let_def addDynamicNode_def split: option.split)

lemma stop_nodes:
  "sc_nodes (snd (stopNode w n s)) = (if nd_Dynamic n then sc_nodes (removeDynamicNode (nd_ID n) s) else sc_nodes s)"
  by (simp add: stopNode_def case_prod_beta Let_def removeDynamicNode_def)

lemma wf_sidecar_nodes: "sc_nodes t = sc_nodes s \<Longrightarrow> wf_sidecar t = wf_sidecar s"
  by (simp add: wf_sidecar_def)

lemma remove_first_split:
  "(\<exists>x \<in> set xs. P x) \<Longrightarrow> \<exists>as x bs. xs = as @ x # bs \<and> P x \<and> (\<forall>a \<in> set as. \<not> P a) \<and> remove_first P xs = as @ bs"
proof (induction xs)
  case (Cons y xs)
  show ?case
  proof (cases "P y")
    case True
    then show ?thesis by (intro exI [of _ "[]"] exI [of _ y] exI [of _ xs]) simp
  next
    case False
    then obtain as x bs where "xs = as @ x # bs" "P x" "\<forall>a \<in> set as. \<not> P a" "remove_first P xs = as @ bs"
      using Cons by auto
    then show ?thesis using False by (intro exI [of _ "y # as"] exI [of _ x] exI [of _ bs]) simp
  qed
qed simp

lemma remove_first_none: "\<forall>x \<in> set xs. \<not> P x \<Longrightarrow> remove_first P xs = xs"
  by (induction xs) auto

lemma wf_removeDynamic: "wf_sidecar s \<Longrightarrow> wf_sidecar (removeDynamicNode i s)"
proof (cases "\<exists>n \<in> set (sc_nodes s). nd_ID n = i \<and> nd_Dynamic n")
  case True
  assume wf: "wf_sidecar s"
  obtain as x bs where "sc_nodes s = as @ x # bs" "nd_ID x = i \<and> nd_Dynamic x"
      "remove_first (\<lambda>n. nd_ID n = i \<and> nd_Dynamic n) (sc_nodes s) = as @ bs"
    using remove_first_split [OF True] by blast
  then show ?thesis using wf by (auto simp: wf_sidecar_def removeDynamicNode_def)
next
  case False
  assume "wf_sidecar s"
  moreover have "remove_first (\<lambda>n. nd_ID n = i \<and> nd_Dynamic n) (sc_nodes s) = sc_nodes s"
    using False by (intro remove_first_none) blast
  ultimately show ?thesis by (simp add: wf_sidecar_def removeDynamicNode_def)
qed

lemma removed_id:
  assumes "wf_sidecar s" "n \<in> set (sc_nodes s)" "nd_Dynamic n"
  shows "nd_ID n \<notin> set (map nd_ID (sc_nodes (removeDynamicNode (nd_ID n) s)))"
proof -
  obtain as x bs where "sc_nodes s = as @ x # bs" "nd_ID x = nd_ID n"
      "remove_first (\<lambda>m. nd_ID m = nd_ID n \<and> nd_Dynamic m) (sc_nodes s) = as @ bs"
    using remove_first_split [of "sc_nodes s" "\<lambda>m. nd_ID m = nd_ID n \<and> nd_Dynamic m"] assms(2,3) by blast
  then show ?thesis using assms(1) by (auto simp: wf_sidecar_def removeDynamicNode_def)
qed

lemma wf_create:
  assumes "wf_sidecar s" "i \<notin> set (map nd_ID (sc_nodes s))"
  shows "wf_sidecar (snd (createDynamicNode w i h r s))"
  using create_nodes [of w i h r s] assms by (auto simp: wf_sidecar_def dynamic_node_def)

lemma findNode_mem: "findNode i s = Some n \<Longrightarrow> n \<in> set (sc_nodes s) \<and> nd_ID n = i"
  by (auto simp: findNode_def find_Some_iff)

lemma findNode_None: "findNode i s = None \<longleftrightarrow> i \<notin> set (map nd_ID (sc_nodes s))"
  by (auto simp: findNode_def find_None_iff)

lemma wf_create_new:
  "wf_sidecar s \<Longrightarrow> cr_ID rq \<notin> set (map nd_ID (sc_nodes s)) \<Longrightarrow> wf_sidecar (snd (create_new w rq s))"
  using wf_create by (simp add: create_new_def case_prod_beta Let_def)

lemma wf_stop: "wf_sidecar s \<Longrightarrow> wf_sidecar (snd (stopNode w n s))"
  using wf_removeDynamic [of s "nd_ID n"] stop_nodes [of w n s]
    wf_sidecar_nodes [of "snd (stopNode w n s)" "removeDynamicNode (nd_ID n) s"] wf_sidecar_nodes [of "snd (stopNode w n s)" s]
  by (simp split: if_splits)

lemma wf_restart:
  assumes "wf_sidecar s" "n \<in> set (sc_nodes s)"
  shows "wf_sidecar (snd (restartNode w n s))"
proof -
  define s1 where "s1 = (if isPaused (nd_ID n) s then snd (unpauseNode w n s) else s)"
  define s2 where "s2 = snd (stopNode w n s1)"
  have s1: "sc_nodes s1 = sc_nodes s" by (simp add: s1_def)
  have wf1: "wf_sidecar s1" using assms(1) wf_sidecar_nodes [OF s1] by simp
  have wf2: "wf_sidecar s2" unfolding s2_def by (rule wf_stop [OF wf1])
  have "nd_Dynamic n \<Longrightarrow> nd_ID n \<notin> set (map nd_ID (sc_nodes s2))"
    using removed_id [OF wf1, of n] assms(2) s1 stop_nodes [of w n s1] by (simp add: s2_def)
  then have "wf_sidecar (snd (createDynamicNode w (nd_ID n) h r s2))" if "nd_Dynamic n" for h r
    using wf_create [OF wf2] that by simp
  moreover have "wf_sidecar (snd (startPresetNode w n s2))"
    using wf2 wf_sidecar_nodes [of "snd (startPresetNode w n s2)" s2] by simp
  moreover have "restartNode w n s = (case fst (stopNode w n s1) of Some e \<Rightarrow> (Some (StopFailed e), s2)
      | None \<Rightarrow> if nd_Dynamic n then createDynamicNode w (nd_ID n) (nd_HTTPPort n) (nd_RPCPort n) s2
                else startPresetNode w n s2)"
    by (simp only: restartNode_def Let_def case_prod_beta s1_def [symmetric] s2_def [symmetric])
  ultimately show ?thesis using wf2 by (simp split: option.split)
qed

text \<open>
  C34: whatever requests the sidecar handles and whatever docker and the nodes answer, its registry keeps
  every preset node in place, has no id twice, and treats no dynamic node as a bootstrap node.
\<close>

theorem sidecar_registry:
  assumes "wf_sidecar s"
  shows "wf_sidecar (snd (handleCreateNode w meth body s)) \<and> wf_sidecar (snd (handleNodeAction w meth path s))
     \<and> wf_sidecar (snd (handleNodes w meth arrivals s))"
proof (intro conjI)
  show "wf_sidecar (snd (handleCreateNode w meth body s))"
  proof (cases "\<exists>rq. body = Some rq \<and> meth = ''POST'' \<and> cr_ID rq \<noteq> ''''")
    case False
    then show ?thesis using assms by (auto simp: handleCreateNode_def split: option.splits)
  next
    case True
    then obtain rq where rq: "body = Some rq" "meth = ''POST''" "cr_ID rq \<noteq> ''''" by blast
    show ?thesis
    proof (cases "findNode (cr_ID rq) s")
      case None
      then have "cr_ID rq \<notin> set (map nd_ID (sc_nodes s))" using findNode_None by blast
      then show ?thesis
        using rq None wf_create_new [OF assms] by (simp add: handleCreateNode_def)
    next
      case (Some n)
      let ?s1 = "snd (fetchRaftStatus w (nd_HTTPPort n) s)"
      have n: "n \<in> set (sc_nodes s)" "nd_ID n = cr_ID rq" using findNode_mem [OF Some] by simp_all
      have wf1: "wf_sidecar ?s1" using assms wf_sidecar_nodes [of ?s1 s] by simp
      have "wf_sidecar (snd (startPresetNode w n ?s1))"
        using wf1 wf_sidecar_nodes [of "snd (startPresetNode w n ?s1)" ?s1] by simp
      moreover have "wf_sidecar (snd (create_new w rq (removeDynamicNode (cr_ID rq) ?s1)))" if "nd_Dynamic n"
        using wf_create_new [OF wf_removeDynamic [OF wf1]] removed_id [OF wf1, of n] n that by simp
      ultimately show ?thesis
        using rq Some wf1 by (simp add: handleCreateNode_def case_prod_beta Let_def)
    qed
  qed
next
  have "wf_sidecar (snd (pauseNode w n s))" "wf_sidecar (snd (unpauseNode w n s))" for n
    using assms wf_sidecar_nodes by (metis pause_frame(1), metis pause_frame(2))
  then show "wf_sidecar (snd (handleNodeAction w meth path s))"
    using assms wf_restart wf_stop [OF assms] findNode_mem [of _ s]
    by (auto simp: handleNodeAction_def split: list.split option.split)
next
  have "sc_nodes (snd (collect_statuses w ns m t)) = sc_nodes t" for ns m t
    by (induction ns arbitrary: m t) (simp_all add: case_prod_beta Let_def)
  then show "wf_sidecar (snd (handleNodes w meth arrivals s))"
    using assms by (simp add: handleNodes_def case_prod_beta wf_sidecar_def)
qed

lemma wf_init: "wf_sidecar sidecar_init"
  by (simp add: wf_sidecar_def sidecar_init_def presetNodes_def preset_def)

definition yes_world :: world where
  "yes_world = \<lparr>w_project = ''infra'', w_ok = (\<lambda>_ _. True), w_out = (\<lambda>_ _. ''''), w_http = (\<lambda>_ _. Some 200), w_status = (\<lambda>_ _. None)\<rparr>"

theorem sidecar_registry_witness:
  "wf_sidecar (snd (handleCreateNode yes_world ''POST'' (Some \<lparr>cr_ID = ''node6'', cr_HTTPPort = 8086, cr_RPCPort = 0\<rparr>) sidecar_init))"
  using sidecar_registry [OF wf_init] by blast

section \<open>Leaving the cluster before stopping\<close>

text \<open>The commands a run adds.\<close>

definition is_fetch :: "command \<Rightarrow> bool" where
  "is_fetch c = (case c of FetchStatus _ \<Rightarrow> True | _ \<Rightarrow> False)"

lemma live_nodes_cmds: "\<exists>cs. sc_cmds (snd (live_nodes w e ns s)) = sc_cmds s @ cs \<and> (\<forall>c \<in> set cs. is_fetch c)"
proof (induction ns arbitrary: s)
  case (Cons n ns)
  show ?case
    using Cons.IH [of s] Cons.IH [of "snd (fetchRaftStatus w (nd_HTTPPort n) s)"]
    by (auto simp: case_prod_beta Let_def fetchRaftStatus_def is_fetch_def)
qed simp



section \<open>The addresses given to a new node\<close>

lemma dec_digits: "c \<in> set (dec n) \<Longrightarrow> 48 \<le> (of_char c :: nat) \<and> (of_char c :: nat) \<le> 57"
proof (induction n rule: dec.induct)
  case (1 n)
  show ?case
  proof (cases "n < 10")
    case True
    then show ?thesis using "1.prems" digit_char [OF True] by (auto simp: dec.simps [of n])
  next
    case False
    then show ?thesis
      using "1.prems" "1.IH" [OF False] digit_char [of "n mod 10"] by (auto simp: dec.simps [of n])
  qed
qed

lemma dec_nonempty: "dec n \<noteq> []"
  by (simp add: dec.simps [of n])

lemma show_int_chars:
  "show_int i \<noteq> []" "CHR '','' \<notin> set (show_int i)" "visible (last (show_int i))"
proof -
  have d: "c \<noteq> CHR '',''" "visible c" if "c \<in> set (dec n)" for c n
    using dec_digits [OF that] by (auto simp: visible_def)
  show "show_int i \<noteq> []" by (simp add: show_int_def dec_nonempty)
  show "CHR '','' \<notin> set (show_int i)" using d(1) by (auto simp: show_int_def)
  have "visible (last (dec n))" for n by (rule d(2) [OF last_in_set [OF dec_nonempty]])
  then show "visible (last (show_int i))" by (simp add: show_int_def dec_nonempty)
qed

definition id_ok :: "string \<Rightarrow> bool" where
  "id_ok i \<longleftrightarrow> CHR '','' \<notin> set i \<and> CHR ''='' \<notin> set i \<and> trimSpace i = i"

definition local_addr :: "int \<Rightarrow> string" where
  "local_addr port = ''localhost:'' @ show_int port"

lemma local_addr_ok: "id_ok i \<Longrightarrow> addr_ok (i, local_addr p)"
proof -
  assume "id_ok i"
  moreover have "trimSpace (local_addr p) = local_addr p"
    using show_int_chars [of p] by (intro trimSpace_same) (simp_all add: local_addr_def visible_def)
  ultimately show ?thesis using show_int_chars(2) [of p] by (simp add: addr_ok_def id_ok_def local_addr_def)
qed

text \<open>
  C36: a new node can redirect to everybody. The addresses the sidecar passes to a container it creates,
  read by the server that starts in it, name for every known node and for the new node itself the
  address under which its HTTP port is reached.
\<close>

theorem new_node_knows_all:
  assumes "wf_sidecar s" and "\<forall>n \<in> set (sc_nodes s). id_ok (nd_ID n)" and "id_ok i"
    and "i \<notin> set (map nd_ID (sc_nodes s))"
  shows "(\<forall>n \<in> set (sc_nodes s). parsePeerHTTPAddrs (buildPeerHTTPAddrs i port s) (nd_ID n) = Some (local_addr (nd_HTTPPort n)))
     \<and> parsePeerHTTPAddrs (buildPeerHTTPAddrs i port s) i = Some (local_addr port)"
proof -
  let ?kvs = "map (\<lambda>n. (nd_ID n, local_addr (nd_HTTPPort n))) (sc_nodes s) @ [(i, local_addr port)]"
  have m: "map addr_pair ?kvs = map peer_part (sc_nodes s) @ [i @ ''=localhost:'' @ show_int port]"
    by (simp add: addr_pair_def peer_part_def local_addr_def)
  have b: "buildPeerHTTPAddrs i port s = join (CHR '','') (map addr_pair ?kvs)"
    unfolding m buildPeerHTTPAddrs_def allNodes_def Let_def if_not_P [OF assms(4)] ..
  have "\<forall>kv \<in> set ?kvs. addr_ok kv" using assms(2,3) local_addr_ok by auto
  from peer_addrs_roundtrip [OF this] have p: "parsePeerHTTPAddrs (buildPeerHTTPAddrs i port s) = map_of (rev ?kvs)"
    unfolding b .
  have d: "distinct (map fst (rev ?kvs))"
    using assms(1,4) by (simp add: wf_sidecar_def rev_map [symmetric] o_def)
  have "map_of (rev ?kvs) k = Some v" if "(k, v) \<in> set ?kvs" for k v
    using that by (intro map_of_is_SomeI [OF d]) simp
  then show ?thesis unfolding p by auto
qed

theorem new_node_knows_all_witness:
  "parsePeerHTTPAddrs (buildPeerHTTPAddrs ''node6'' 8086 sidecar_init) ''node2'' = Some ''localhost:8082''"
proof -
  have ids: "\<forall>n \<in> set (sc_nodes sidecar_init). id_ok (nd_ID n)" "id_ok ''node6''" by code_simp+
  have n: "preset ''node2'' 8082 True \<in> set (sc_nodes sidecar_init)" "''node6'' \<notin> set (map nd_ID (sc_nodes sidecar_init))"
    by (simp_all add: sidecar_init_def presetNodes_def preset_def)
  have p: "nd_ID (preset ''node2'' 8082 True) = ''node2''" "nd_HTTPPort (preset ''node2'' 8082 True) = 8082"
    by (simp_all add: preset_def)
  have a: "local_addr 8082 = ''localhost:8082''"
    by (simp add: local_addr_def show_int_def dec.simps char_of_def bit_Suc_0_iff)
  from bspec [OF conjunct1 [OF new_node_knows_all [OF wf_init ids n(2), of 8086]] n(1)] show ?thesis
    unfolding p a .
qed

text \<open>Stopping a paused node leaves its pause flag, also when a node of that name is created again.\<close>

lemma paused_flag_survives:
  "isPaused i (snd (createDynamicNode w i h r (snd (stopNode w n s)))) = isPaused i s"
  by (simp add: isPaused_def createDynamicNode_def stopNode_def removeDynamicNode_def addDynamicNode_def
      case_prod_beta Let_def split: option.split)

end
