(* ===== verification/LiveScenarios.thy ===== *)
theory LiveScenarios
  imports Sidecar ElectionSafety
begin

text \<open>
  The live scenarios of the sidecar, \<open>src/cmd/sidecar/main.go\<close>: small programs that pause containers of
  the running cluster, look for a leader, and restore what they paused. A scenario is a function of the
  environment of \<open>Sidecar\<close>; no other request is handled while it runs. Log lines and errors are
  constructors that carry the values of the printed message; time stamps, durations and sleeps are
  left out.
\<close>

section \<open>Results\<close>

record LiveScenarioMeta =
  lm_ID :: string
  lm_Label :: string
  lm_Desc :: string
  lm_MinNodes :: int

datatype log_line =
    FoundLeader string u64
  | PausedLeader string
  | NewLeader string
  | Holding
  | RestoredLeader string
  | FoundFollower string nat
  | PausedFollower string nat nat
  | StillServing string
  | RestoredFollower string
  | ClusterSize nat nat nat
  | PausedOf string nat nat
  | QuorumLost nat nat
  | UnpauseWarning string sc_error
  | Restored string
  | RoundStart nat nat
  | NewLeaderTerm string u64 u64 u64
  | Complete
  | ChurnComplete nat

datatype live_error =
    NoLeaderFound
  | PauseFailed sc_error
  | NotElected
  | UnpauseFailed sc_error
  | NoFollower
  | OnlyOneNode
  | LeaderLost
  | TooFewNodes nat
  | PauseOf string sc_error
  | InRound nat live_error

record LiveScenarioResult =
  lr_Name :: string
  lr_Passed :: bool
  lr_Error :: "live_error option"
  lr_Logs :: "log_line list"

definition passed :: "string \<Rightarrow> log_line list \<Rightarrow> LiveScenarioResult" where
  "passed name logs = \<lparr>lr_Name = name, lr_Passed = True, lr_Error = None, lr_Logs = logs\<rparr>"

definition failed :: "string \<Rightarrow> log_line list \<Rightarrow> live_error \<Rightarrow> LiveScenarioResult" where
  "failed name logs msg = \<lparr>lr_Name = name, lr_Passed = False, lr_Error = Some msg, lr_Logs = logs\<rparr>"

definition liveScenarioList :: "LiveScenarioMeta list" where
  "liveScenarioList =
     [\<lparr>lm_ID = ''isolate_leader'', lm_Label = ''Isolate Leader'',
        lm_Desc = ''Pauses the current leader container. The cluster elects a new leader. After 3 seconds the old leader is restored and rejoins as follower.'',
        lm_MinNodes = 3\<rparr>,
      \<lparr>lm_ID = ''lose_follower'', lm_Label = ''Lose a Follower'',
        lm_Desc = ''Pauses one follower. The remaining nodes still hold quorum and the cluster continues. Follower is restored after 3 seconds.'',
        lm_MinNodes = 3\<rparr>,
      \<lparr>lm_ID = ''quorum_loss'', lm_Label = ''Quorum Loss'',
        lm_Desc = ''Pauses the majority of nodes so the cluster drops below quorum. The leader cannot commit new entries. All nodes are restored after 4 seconds.'',
        lm_MinNodes = 3\<rparr>,
      \<lparr>lm_ID = ''leader_churn'', lm_Label = ''Leader Churn'',
        lm_Desc = ''Performs 3 rapid leader-failover cycles in a row. Each round pauses the current leader, waits for a new one, then restores. Watch the term counter climb.'',
        lm_MinNodes = 3\<rparr>]"

section \<open>Looking at the cluster\<close>

text \<open>The first node that is not paused, is not \<open>exclude\<close> and says that it leads, with its term.\<close>

fun find_leader :: "world \<Rightarrow> string option \<Rightarrow> NodeDef list \<Rightarrow> Sidecar \<Rightarrow> (NodeDef \<times> u64) option \<times> Sidecar" where
  "find_leader w exclude [] s = (None, s)"
| "find_leader w exclude (n # ns) s =
     (if exclude = Some (nd_ID n) \<or> isPaused (nd_ID n) s then find_leader w exclude ns s
      else let (st, s1) = fetchRaftStatus w (nd_HTTPPort n) s in
        case st of
          None \<Rightarrow> find_leader w exclude ns s1
        | Some t \<Rightarrow> if st_state t = ''leader'' then (Some (n, st_term t), s1) else find_leader w exclude ns s1)"

text \<open>
  Polling for another leader until the deadline; nobody is the empty id. The sleep between two rounds
  (300 ms of 12 s, 250 ms of 10 s) leaves room for at most 41 rounds.
\<close>

fun poll_leader :: "world \<Rightarrow> nat \<Rightarrow> string \<Rightarrow> NodeDef list \<Rightarrow> Sidecar \<Rightarrow> (string \<times> u64) \<times> Sidecar" where
  "poll_leader w 0 old all s = (('''', 0), s)"
| "poll_leader w (Suc k) old all s =
     (let (more, s1) = run_cmd w TimeLeft s in
      if \<not> more then (('''', 0), s1)
      else let (found, s2) = find_leader w (Some old) all s1 in
        case found of
          None \<Rightarrow> poll_leader w k old all s2
        | Some (n, term) \<Rightarrow> if nd_ID n \<noteq> '''' then ((nd_ID n, term), s2) else poll_leader w k old all s2)"

definition poll_rounds :: nat where
  "poll_rounds = 41"

text \<open>The nodes that are not paused and answer, with their statuses.\<close>

fun online_nodes :: "world \<Rightarrow> NodeDef list \<Rightarrow> Sidecar \<Rightarrow> (NodeDef \<times> status_json) list \<times> Sidecar" where
  "online_nodes w [] s = ([], s)"
| "online_nodes w (n # ns) s =
     (if isPaused (nd_ID n) s then online_nodes w ns s
      else
        let (st, s1) = fetchRaftStatus w (nd_HTTPPort n) s;
            (online, s2) = online_nodes w ns s1
        in (case st of None \<Rightarrow> online | Some t \<Rightarrow> (n, t) # online, s2))"

section \<open>The scenarios\<close>

definition runScenarioIsolateLeader :: "world \<Rightarrow> Sidecar \<Rightarrow> LiveScenarioResult \<times> Sidecar" where
  "runScenarioIsolateLeader w s =
     (let name = ''isolate_leader'';
          all = allNodes s;
          (found, s1) = find_leader w None all s in
      case found of
        None \<Rightarrow> (failed name [] NoLeaderFound, s1)
      | Some (leader, term) \<Rightarrow>
          let logs1 = [FoundLeader (nd_ID leader) term];
              (err, s2) = pauseNode w leader s1 in
          case err of
            Some e \<Rightarrow> (failed name logs1 (PauseFailed e), s2)
          | None \<Rightarrow>
              let logs2 = logs1 @ [PausedLeader (nd_ID leader)];
                  ((new, newTerm), s3) = poll_leader w poll_rounds (nd_ID leader) all s2 in
              if new = '''' then
                let (_, s4) = unpauseNode w leader s3 in (failed name logs2 NotElected, s4)
              else
                let logs3 = logs2 @ [NewLeader new, Holding];
                    (err', s4) = unpauseNode w leader s3 in
                case err' of
                  Some e \<Rightarrow> (failed name logs3 (UnpauseFailed e), s4)
                | None \<Rightarrow> (passed name (logs3 @ [RestoredLeader (nd_ID leader), Complete]), s4))"

definition runScenarioLoseFollower :: "world \<Rightarrow> Sidecar \<Rightarrow> LiveScenarioResult \<times> Sidecar" where
  "runScenarioLoseFollower w s =
     (let name = ''lose_follower'';
          all = allNodes s;
          (online, s1) = online_nodes w all s;
          onlineCount = length online in
      case find (\<lambda>(n, st). st_state st = ''follower'') online of
        None \<Rightarrow> (failed name [] NoFollower, s1)
      | Some (follower, st) \<Rightarrow>
          if onlineCount < 2 then (failed name [] OnlyOneNode, s1)
          else
            let logs1 = [FoundFollower (nd_ID follower) onlineCount];
                (err, s2) = pauseNode w follower s1 in
            case err of
              Some e \<Rightarrow> (failed name logs1 (PauseFailed e), s2)
            | None \<Rightarrow>
                let logs2 = logs1 @ [PausedFollower (nd_ID follower) (onlineCount - 1) onlineCount, Holding];
                    (leader, s3) = find_leader w (Some (nd_ID follower)) all s2 in
                case leader of
                  None \<Rightarrow> let (_, s4) = unpauseNode w follower s3 in (failed name logs2 LeaderLost, s4)
                | Some (n, term) \<Rightarrow>
                    let logs3 = logs2 @ [StillServing (nd_ID n)];
                        (err', s4) = unpauseNode w follower s3 in
                    case err' of
                      Some e \<Rightarrow> (failed name logs3 (UnpauseFailed e), s4)
                    | None \<Rightarrow> (passed name (logs3 @ [RestoredFollower (nd_ID follower), Complete]), s4))"

text \<open>Pausing one node after the other; a failure restores those before it.\<close>

fun unpause_quietly :: "world \<Rightarrow> NodeDef list \<Rightarrow> Sidecar \<Rightarrow> Sidecar" where
  "unpause_quietly w [] s = s"
| "unpause_quietly w (n # ns) s = unpause_quietly w ns (snd (unpauseNode w n s))"

fun pause_all ::
    "world \<Rightarrow> nat \<Rightarrow> NodeDef list \<Rightarrow> NodeDef list \<Rightarrow> log_line list \<Rightarrow> Sidecar \<Rightarrow> (live_error option \<times> log_line list) \<times> Sidecar" where
  "pause_all w toPause paused [] logs s = ((None, logs), s)"
| "pause_all w toPause paused (n # ns) logs s =
     (let (err, s1) = pauseNode w n s in
      case err of
        Some e \<Rightarrow> ((Some (PauseOf (nd_ID n) e), logs), unpause_quietly w paused s1)
      | None \<Rightarrow> pause_all w toPause (paused @ [n]) ns (logs @ [PausedOf (nd_ID n) (length paused + 1) toPause]) s1)"

fun restore_all :: "world \<Rightarrow> NodeDef list \<Rightarrow> log_line list \<Rightarrow> Sidecar \<Rightarrow> log_line list \<times> Sidecar" where
  "restore_all w [] logs s = (logs, s)"
| "restore_all w (n # ns) logs s =
     (let (err, s1) = unpauseNode w n s
      in restore_all w ns (logs @ [case err of Some e \<Rightarrow> UnpauseWarning (nd_ID n) e | None \<Rightarrow> Restored (nd_ID n)]) s1)"

text \<open>The scenario once the online nodes are known.\<close>

definition break_quorum :: "world \<Rightarrow> NodeDef list \<Rightarrow> Sidecar \<Rightarrow> LiveScenarioResult \<times> Sidecar" where
  "break_quorum w online s =
     (let name = ''quorum_loss'';
          n = length online in
      if n < 3 then (failed name [] (TooFewNodes n), s)
      else
        let quorum = n div 2 + 1;
            toPause = (n + 1) div 2;
            targets = take toPause online;
            ((err, logs1), s1) = pause_all w toPause [] targets [ClusterSize n quorum toPause] s in
        case err of
          Some e \<Rightarrow> (failed name logs1 e, s1)
        | None \<Rightarrow>
            let (logs2, s2) = restore_all w targets (logs1 @ [QuorumLost (n - toPause) n, Holding]) s1
            in (passed name (logs2 @ [Complete]), s2))"

definition runScenarioQuorumLoss :: "world \<Rightarrow> Sidecar \<Rightarrow> LiveScenarioResult \<times> Sidecar" where
  "runScenarioQuorumLoss w s =
     (let (live, s1) = online_nodes w (allNodes s) s in break_quorum w (map fst live) s1)"

text \<open>One round of the churn: the error, or none, with the log and the state after it.\<close>

definition find_settled_leader :: "world \<Rightarrow> NodeDef list \<Rightarrow> Sidecar \<Rightarrow> (NodeDef \<times> u64) option \<times> Sidecar" where
  "find_settled_leader w all s =
     (let (found, s1) = find_leader w None all s
      in case found of Some x \<Rightarrow> (Some x, s1) | None \<Rightarrow> find_leader w None all s1)"

definition churn_round ::
    "world \<Rightarrow> NodeDef list \<Rightarrow> log_line list \<Rightarrow> Sidecar \<Rightarrow> (live_error option \<times> log_line list) \<times> Sidecar" where
  "churn_round w all logs s =
     (let (found, s1) = find_settled_leader w all s in
      case found of
        None \<Rightarrow> ((Some NoLeaderFound, logs), s1)
      | Some (leader, term) \<Rightarrow>
          let logs1 = logs @ [FoundLeader (nd_ID leader) term];
              (err, s2) = pauseNode w leader s1 in
          case err of
            Some e \<Rightarrow> ((Some (PauseOf (nd_ID leader) e), logs1), s2)
          | None \<Rightarrow>
              let logs2 = logs1 @ [PausedLeader (nd_ID leader)];
                  ((new, newTerm), s3) = poll_leader w poll_rounds (nd_ID leader) all s2 in
              if new = '''' then
                let (_, s4) = unpauseNode w leader s3 in ((Some NotElected, logs2), s4)
              else
                let logs3 = logs2 @ [NewLeaderTerm new term newTerm (newTerm - term)];
                    (err', s4) = unpauseNode w leader s3 in
                case err' of
                  Some e \<Rightarrow> ((Some (UnpauseFailed e), logs3), s4)
                | None \<Rightarrow> ((None, logs3 @ [RestoredLeader (nd_ID leader)]), s4))"

definition churn_rounds :: nat where
  "churn_rounds = 3"

fun churn_loop ::
    "world \<Rightarrow> NodeDef list \<Rightarrow> nat list \<Rightarrow> log_line list \<Rightarrow> Sidecar \<Rightarrow> LiveScenarioResult \<times> Sidecar" where
  "churn_loop w all [] logs s = (passed ''leader_churn'' (logs @ [ChurnComplete churn_rounds]), s)"
| "churn_loop w all (rnd # rnds) logs s =
     (let ((err, logs1), s1) = churn_round w all (logs @ [RoundStart rnd churn_rounds]) s in
      case err of
        Some e \<Rightarrow> (failed ''leader_churn'' logs1 (InRound rnd e), s1)
      | None \<Rightarrow> churn_loop w all rnds logs1 s1)"

definition runScenarioLeaderChurn :: "world \<Rightarrow> Sidecar \<Rightarrow> LiveScenarioResult \<times> Sidecar" where
  "runScenarioLeaderChurn w s = churn_loop w (allNodes s) [1..<churn_rounds + 1] [] s"

section \<open>Handlers\<close>

definition handleListLiveScenarios :: "string \<Rightarrow> nat + LiveScenarioMeta list" where
  "handleListLiveScenarios meth = (if meth \<noteq> ''GET'' then Inl 405 else Inr liveScenarioList)"

definition handleRunLiveScenario :: "world \<Rightarrow> string \<Rightarrow> string \<Rightarrow> Sidecar \<Rightarrow> (nat + LiveScenarioResult) \<times> Sidecar" where
  "handleRunLiveScenario w meth path s =
     (if meth \<noteq> ''POST'' then (Inl 405, s)
      else
        let ident = trimPrefix path ''/live-scenarios/'' in
        if ident = '''' then (Inl 400, s)
        else if ident = ''isolate_leader'' then map_prod Inr id (runScenarioIsolateLeader w s)
        else if ident = ''lose_follower'' then map_prod Inr id (runScenarioLoseFollower w s)
        else if ident = ''quorum_loss'' then map_prod Inr id (runScenarioQuorumLoss w s)
        else if ident = ''leader_churn'' then map_prod Inr id (runScenarioLeaderChurn w s)
        else (Inl 404, s))"

section \<open>Everything paused is restored\<close>

definition unpause_works :: "world \<Rightarrow> bool" where
  "unpause_works w \<longleftrightarrow> (\<forall>cs n. w_ok w cs (pause_cmd ''unpause'' n))"

lemma pauseNode_flags:
  "sc_paused (snd (pauseNode w n s)) = (if fst (pauseNode w n s) = None then (sc_paused s)(nd_ID n := True) else sc_paused s)"
  by (simp add: pauseNode_def case_prod_beta setPaused_def)

lemma unpauseNode_works:
  assumes "unpause_works w"
  shows "fst (unpauseNode w n s) = None" "sc_paused (snd (unpauseNode w n s)) = (sc_paused s)(nd_ID n := False)"
  using assms by (simp_all add: unpauseNode_def case_prod_beta setPaused_def unpause_works_def run_cmd_def)

lemma find_leader_frame [simp]:
  "sc_nodes (snd (find_leader w e ns s)) = sc_nodes s" "sc_paused (snd (find_leader w e ns s)) = sc_paused s"
  by (induction ns arbitrary: s) (simp_all add: case_prod_beta Let_def split: option.split)

lemma poll_leader_frame [simp]:
  "sc_nodes (snd (poll_leader w k old ns s)) = sc_nodes s" "sc_paused (snd (poll_leader w k old ns s)) = sc_paused s"
  by (induction k arbitrary: s) (simp_all add: case_prod_beta Let_def split: option.split)

lemma online_nodes_frame [simp]:
  "sc_nodes (snd (online_nodes w ns s)) = sc_nodes s" "sc_paused (snd (online_nodes w ns s)) = sc_paused s"
  by (induction ns arbitrary: s) (simp_all add: case_prod_beta Let_def)

lemma settled_frame [simp]:
  "sc_nodes (snd (find_settled_leader w ns s)) = sc_nodes s" "sc_paused (snd (find_settled_leader w ns s)) = sc_paused s"
  by (simp_all add: find_settled_leader_def case_prod_beta split: option.split)

lemma find_leader_unpaused: "fst (find_leader w e ns s) = Some (n, t) \<Longrightarrow> \<not> sc_paused s (nd_ID n)"
  by (induction ns arbitrary: s)
    (fastforce simp: case_prod_beta Let_def isPaused_def split: option.splits if_splits)+

lemma settled_unpaused: "fst (find_settled_leader w ns s) = Some (n, t) \<Longrightarrow> \<not> sc_paused s (nd_ID n)"
  using find_leader_unpaused [of w None ns s n t] find_leader_unpaused [of w None ns "snd (find_leader w None ns s)" n t]
  by (auto simp: find_settled_leader_def case_prod_beta split: option.splits)

lemma online_unpaused: "x \<in> set (fst (online_nodes w ns s)) \<Longrightarrow> \<not> sc_paused s (nd_ID (fst x))"
  by (induction ns arbitrary: s)
    (fastforce simp: case_prod_beta Let_def isPaused_def split: option.splits if_splits)+

lemma flag_roundtrip: "\<not> f i \<Longrightarrow> f(i := False) = f"
  by (simp add: fun_eq_iff)

lemma isolate_restores:
  assumes "unpause_works w"
  shows "sc_paused (snd (runScenarioIsolateLeader w s)) = sc_paused s"
  using find_leader_unpaused [of w None "allNodes s" s]
  by (auto simp: runScenarioIsolateLeader_def case_prod_beta Let_def pauseNode_flags unpauseNode_works [OF assms] flag_roundtrip split: option.split)

lemma lose_follower_restores:
  assumes "unpause_works w"
  shows "sc_paused (snd (runScenarioLoseFollower w s)) = sc_paused s"
proof -
  have "\<not> sc_paused s (nd_ID n)" if "find P (fst (online_nodes w (allNodes s) s)) = Some (n, st)" for P n st
    using that online_unpaused [of "(n, st)" w "allNodes s" s] by (metis find_Some_iff fst_conv nth_mem)
  then show ?thesis
    by (auto simp: runScenarioLoseFollower_def case_prod_beta Let_def pauseNode_flags unpauseNode_works [OF assms]
        flag_roundtrip split: option.split)
qed

lemma churn_round_restores:
  assumes "unpause_works w"
  shows "sc_paused (snd (churn_round w all logs s)) = sc_paused s"
  using settled_unpaused [of w all s]
  by (auto simp: churn_round_def case_prod_beta Let_def pauseNode_flags unpauseNode_works [OF assms] flag_roundtrip
      split: option.split)

lemma churn_restores:
  assumes "unpause_works w"
  shows "sc_paused (snd (churn_loop w all rnds logs s)) = sc_paused s"
  by (induction rnds arbitrary: logs s)
    (simp_all add: case_prod_beta Let_def churn_round_restores [OF assms] split: option.split)

lemma unpause_quietly_flags:
  assumes "unpause_works w"
  shows "sc_paused (unpause_quietly w ns s) = (\<lambda>i. sc_paused s i \<and> i \<notin> nd_ID ` set ns)"
  by (induction ns arbitrary: s) (auto simp: unpauseNode_works [OF assms] fun_eq_iff)

lemma restore_all_flags:
  assumes "unpause_works w"
  shows "sc_paused (snd (restore_all w ns logs s)) = (\<lambda>i. sc_paused s i \<and> i \<notin> nd_ID ` set ns)"
  by (induction ns arbitrary: s logs) (auto simp: case_prod_beta unpauseNode_works [OF assms] fun_eq_iff)

text \<open>\<open>P\<close> are the flags before anything was paused.\<close>

lemma pause_all_flags:
  assumes "unpause_works w"
    and "\<forall>n \<in> set (paused @ ns). \<not> P (nd_ID n)" and "sc_paused s = (\<lambda>i. P i \<or> i \<in> nd_ID ` set paused)"
  shows "sc_paused (snd (pause_all w k paused ns logs s)) =
     (if fst (fst (pause_all w k paused ns logs s)) = None then (\<lambda>i. P i \<or> i \<in> nd_ID ` set (paused @ ns)) else P)"
  using assms(2,3)
proof (induction ns arbitrary: paused logs s)
  case (Cons n ns)
  show ?case
  proof (cases "fst (pauseNode w n s)")
    case None
    have "sc_paused (snd (pauseNode w n s)) = (\<lambda>i. P i \<or> i \<in> nd_ID ` set (paused @ [n]))"
      using None Cons.prems(2) by (auto simp: pauseNode_flags fun_eq_iff)
    from Cons.IH [OF _ this] show ?thesis using None Cons.prems(1) by (simp add: case_prod_beta)
  next
    case (Some e)
    then have "sc_paused (snd (pauseNode w n s)) = (\<lambda>i. P i \<or> i \<in> nd_ID ` set paused)"
      using Cons.prems(2) by (simp add: pauseNode_flags)
    then show ?thesis
      using Some Cons.prems(1) by (auto simp: case_prod_beta unpause_quietly_flags [OF assms(1)] fun_eq_iff)
  qed
qed auto

lemma break_quorum_restores:
  assumes "unpause_works w" "\<forall>n \<in> set online. \<not> sc_paused s (nd_ID n)"
  shows "sc_paused (snd (break_quorum w online s)) = sc_paused s"
proof -
  let ?n = "length online"
  let ?k = "(?n + 1) div 2"
  obtain e logs s1 where p: "pause_all w ?k [] (take ?k online) [ClusterSize ?n (?n div 2 + 1) ?k] s = ((e, logs), s1)"
    by (metis prod.exhaust)
  have fresh: "\<forall>n \<in> set (take ?k online). \<not> sc_paused s (nd_ID n)" using assms(2) by (blast dest: in_set_takeD)
  have "sc_paused s1 = (if e = None then (\<lambda>i. sc_paused s i \<or> i \<in> nd_ID ` set (take ?k online)) else sc_paused s)"
    using pause_all_flags [OF assms(1), of "[]" "take ?k online" "sc_paused s" s ?k "[ClusterSize ?n (?n div 2 + 1) ?k]"]
      fresh unfolding p by simp
  moreover have "(\<lambda>i. (sc_paused s i \<or> i \<in> nd_ID ` set (take ?k online)) \<and> i \<notin> nd_ID ` set (take ?k online)) = sc_paused s"
    using fresh by auto
  ultimately show ?thesis
    unfolding break_quorum_def Let_def p by (simp add: case_prod_beta restore_all_flags [OF assms(1)] split: option.split)
qed

lemma quorum_loss_restores:
  assumes "unpause_works w"
  shows "sc_paused (snd (runScenarioQuorumLoss w s)) = sc_paused s"
  using break_quorum_restores [OF assms, of "map fst (fst (online_nodes w (allNodes s) s))" "snd (online_nodes w (allNodes s) s)"]
    online_unpaused [of _ w "allNodes s" s]
  by (force simp: runScenarioQuorumLoss_def case_prod_beta)

lemma quorum_parts_frame [simp]:
  "sc_nodes (unpause_quietly w ns s) = sc_nodes s" "sc_nodes (snd (restore_all w ns logs s)) = sc_nodes s"
  "sc_nodes (snd (pause_all w k paused ns logs s)) = sc_nodes s"
proof -
  show q: "sc_nodes (unpause_quietly w ns s) = sc_nodes s" for ns s by (induction ns arbitrary: s) simp_all
  show "sc_nodes (snd (restore_all w ns logs s)) = sc_nodes s"
    by (induction ns arbitrary: s logs) (simp_all add: case_prod_beta)
  show "sc_nodes (snd (pause_all w k paused ns logs s)) = sc_nodes s"
    by (induction ns arbitrary: s logs paused) (simp_all add: case_prod_beta q split: option.split)
qed

lemma churn_frame [simp]:
  "sc_nodes (snd (churn_round w all logs s)) = sc_nodes s" "sc_nodes (snd (churn_loop w all rnds logs s)) = sc_nodes s"
proof -
  show r: "sc_nodes (snd (churn_round w all logs s)) = sc_nodes s" for logs s
    by (simp add: churn_round_def case_prod_beta Let_def split: option.split)
  show "sc_nodes (snd (churn_loop w all rnds logs s)) = sc_nodes s"
    by (induction rnds arbitrary: logs s) (simp_all add: case_prod_beta r split: option.split)
qed

lemma scenarios_frame [simp]:
  "sc_nodes (snd (runScenarioIsolateLeader w s)) = sc_nodes s" "sc_nodes (snd (runScenarioLoseFollower w s)) = sc_nodes s"
  "sc_nodes (snd (runScenarioQuorumLoss w s)) = sc_nodes s" "sc_nodes (snd (runScenarioLeaderChurn w s)) = sc_nodes s"
  by (simp_all add: runScenarioIsolateLeader_def runScenarioLoseFollower_def runScenarioQuorumLoss_def break_quorum_def
      runScenarioLeaderChurn_def case_prod_beta Let_def split: option.split)

text \<open>
  C37: a live scenario leaves nothing behind. Whatever the cluster answers, whether the scenario passes or
  fails and at whichever step, no node is added or removed, and as long as resuming a container works
  exactly the nodes that were paused before are paused afterwards.
\<close>

theorem live_scenarios_restore:
  "sc_nodes (snd (handleRunLiveScenario w meth path s)) = sc_nodes s
   \<and> (unpause_works w \<longrightarrow> sc_paused (snd (handleRunLiveScenario w meth path s)) = sc_paused s)"
  by (simp add: handleRunLiveScenario_def Let_def isolate_restores lose_follower_restores quorum_loss_restores
      runScenarioLeaderChurn_def churn_restores)

section \<open>What a verdict means\<close>

text \<open>Commands that only look.\<close>

definition is_look :: "command \<Rightarrow> bool" where
  "is_look c \<longleftrightarrow> is_fetch c \<or> c = TimeLeft"

lemma is_look_simps [simp]: "is_look (FetchStatus p)" "is_look TimeLeft"
  by (simp_all add: is_look_def is_fetch_def)

lemma look_cmds [simp]:
  "sc_cmds (snd (run_cmd w c s)) = sc_cmds s @ [c]" "sc_cmds (snd (fetchRaftStatus w p s)) = sc_cmds s @ [FetchStatus p]"
  "fst (fetchRaftStatus w p s) = w_status w (sc_cmds s) p" "fst (run_cmd w c s) = w_ok w (sc_cmds s) c"
  by (simp_all add: run_cmd_def fetchRaftStatus_def)

lemma find_leader_cmds: "\<exists>cs. sc_cmds (snd (find_leader w e ns s)) = sc_cmds s @ cs \<and> list_all is_look cs"
proof (induction ns arbitrary: s)
  case (Cons n ns)
  show ?case
    using Cons.IH [of s] Cons.IH [of "snd (fetchRaftStatus w (nd_HTTPPort n) s)"]
    by (auto simp: case_prod_beta Let_def split: option.split)
qed simp

text \<open>\<open>seen_leading\<close>: the last command asked node \<open>n\<close>, other than \<open>old\<close>, which said that it leads.\<close>

definition seen_leading :: "world \<Rightarrow> string option \<Rightarrow> NodeDef \<Rightarrow> command list \<Rightarrow> bool" where
  "seen_leading w old n cs \<longleftrightarrow> old \<noteq> Some (nd_ID n) \<and> cs \<noteq> [] \<and> last cs = FetchStatus (nd_HTTPPort n)
     \<and> is_leader_status (w_status w (butlast cs) (nd_HTTPPort n))"

lemma find_leader_found:
  "fst (find_leader w e ns s) = Some (n, t) \<Longrightarrow> n \<in> set ns \<and> seen_leading w e n (sc_cmds (snd (find_leader w e ns s)))"
proof (induction ns arbitrary: s)
  case (Cons m ns)
  let ?s1 = "snd (fetchRaftStatus w (nd_HTTPPort m) s)"
  show ?case
    using Cons.prems Cons.IH [of s] Cons.IH [of ?s1]
    by (auto simp: case_prod_beta Let_def seen_leading_def is_leader_status_def split: option.splits if_splits)
qed simp

lemma poll_leader_cmds: "\<exists>cs. sc_cmds (snd (poll_leader w k old ns s)) = sc_cmds s @ cs \<and> list_all is_look cs"
proof (induction k arbitrary: s)
  case (Suc k)
  let ?s1 = "snd (run_cmd w TimeLeft s)"
  let ?s2 = "snd (find_leader w (Some old) ns ?s1)"
  obtain cs where "sc_cmds ?s2 = sc_cmds s @ TimeLeft # cs" "list_all is_look cs"
    using find_leader_cmds [of w "Some old" ns ?s1] by auto
  moreover obtain ds where "sc_cmds (snd (poll_leader w k old ns ?s2)) = sc_cmds ?s2 @ ds" "list_all is_look ds"
    using Suc.IH by blast
  ultimately show ?case by (auto simp: case_prod_beta Let_def split: option.split)
qed simp

lemma poll_leader_found:
  "fst (poll_leader w k old ns s) = (i, t) \<Longrightarrow> i \<noteq> '''' \<Longrightarrow>
   \<exists>n \<in> set ns. nd_ID n = i \<and> seen_leading w (Some old) n (sc_cmds (snd (poll_leader w k old ns s)))"
proof (induction k arbitrary: s)
  case (Suc k)
  let ?s1 = "snd (run_cmd w TimeLeft s)"
  let ?s2 = "snd (find_leader w (Some old) ns ?s1)"
  show ?case
    using Suc.prems Suc.IH [of ?s2] find_leader_found [of w "Some old" ns ?s1]
    by (auto simp: case_prod_beta Let_def split: option.splits if_splits)
qed simp

text \<open>
  C38: what a passed \<open>isolate_leader\<close> shows. The scenario paused a node that had just said that it leads;
  while that node was paused, and as its last question before it resumed it, it asked another registered
  node, which said that it leads. Apart from the two docker commands it only looked at the cluster.
\<close>

theorem isolate_leader_verdict:
  assumes "lr_Passed (fst (runScenarioIsolateLeader w s))"
  shows "\<exists>old \<in> set (sc_nodes s). \<exists>new \<in> set (sc_nodes s). \<exists>before during.
       seen_leading w None old (sc_cmds s @ before)
     \<and> seen_leading w (Some (nd_ID old)) new (sc_cmds s @ before @ [pause_cmd ''pause'' old] @ during)
     \<and> list_all is_look (before @ during)
     \<and> sc_cmds (snd (runScenarioIsolateLeader w s)) =
         sc_cmds s @ before @ [pause_cmd ''pause'' old] @ during @ [pause_cmd ''unpause'' old]"
proof -
  obtain found s1 where f: "find_leader w None (allNodes s) s = (found, s1)" by (metis prod.exhaust)
  with assms obtain old t where found: "found = Some (old, t)"
    by (cases found) (auto simp: runScenarioIsolateLeader_def Let_def failed_def)
  obtain err s2 where p: "pauseNode w old s1 = (err, s2)" by (metis prod.exhaust)
  with assms f found have err: "err = None"
    by (cases err) (auto simp: runScenarioIsolateLeader_def Let_def failed_def)
  obtain new nt s3 where l: "poll_leader w poll_rounds (nd_ID old) (allNodes s) s2 = ((new, nt), s3)" by (metis prod.exhaust)
  note run = runScenarioIsolateLeader_def [of w s, unfolded Let_def f found p err l prod.case option.case]
  have new: "new \<noteq> ''''" using assms by (auto simp: run failed_def case_prod_beta)
  have final: "snd (runScenarioIsolateLeader w s) = snd (unpauseNode w old s3)"
    by (simp add: run new case_prod_beta split: option.split)
  obtain before where b: "sc_cmds s1 = sc_cmds s @ before" "list_all is_look before"
    using find_leader_cmds [of w None "allNodes s" s] by (auto simp: f)
  have s2: "sc_cmds s2 = sc_cmds s1 @ [pause_cmd ''pause'' old]"
    using p by (auto simp: pauseNode_def case_prod_beta setPaused_def split: if_splits)
  obtain during where d: "sc_cmds s3 = sc_cmds s2 @ during" "list_all is_look during"
    using poll_leader_cmds [of w poll_rounds "nd_ID old" "allNodes s" s2] by (auto simp: l)
  have "old \<in> set (sc_nodes s)" "seen_leading w None old (sc_cmds s1)"
    using find_leader_found [of w None "allNodes s" s old t] unfolding f found by (simp_all add: allNodes_def)
  moreover obtain n where "n \<in> set (sc_nodes s)" "seen_leading w (Some (nd_ID old)) n (sc_cmds s3)"
    using poll_leader_found [of w poll_rounds "nd_ID old" "allNodes s" s2 new nt] new unfolding l by (auto simp: allNodes_def)
  moreover have "sc_cmds (snd (unpauseNode w old s3)) = sc_cmds s3 @ [pause_cmd ''unpause'' old]"
    by (simp add: unpauseNode_def case_prod_beta setPaused_def)
  ultimately show ?thesis
    unfolding final
    by (intro bexI [of _ old] bexI [of _ n] exI [of _ before] exI [of _ during]) (simp_all add: b s2 d)
qed

lemma pause_all_cmds:
  "fst (fst (pause_all w k paused ns logs s)) = None \<Longrightarrow>
   sc_cmds (snd (pause_all w k paused ns logs s)) = sc_cmds s @ map (pause_cmd ''pause'') ns"
  by (induction ns arbitrary: paused logs s)
    (auto simp: case_prod_beta pauseNode_def setPaused_def split: option.splits if_splits)

lemma restore_all_cmds: "sc_cmds (snd (restore_all w ns logs s)) = sc_cmds s @ map (pause_cmd ''unpause'') ns"
  by (induction ns arbitrary: logs s) (simp_all add: case_prod_beta unpauseNode_def setPaused_def)

lemma online_nodes_cmds: "\<exists>cs. sc_cmds (snd (online_nodes w ns s)) = sc_cmds s @ cs \<and> list_all is_look cs"
proof (induction ns arbitrary: s)
  case (Cons n ns)
  show ?case
    using Cons.IH [of s] Cons.IH [of "snd (fetchRaftStatus w (nd_HTTPPort n) s)"] by (auto simp: case_prod_beta Let_def)
qed simp

text \<open>Half of a list, rounded up, meets every majority of it.\<close>

lemma half_meets_majority:
  assumes "majority_set xs Q"
  shows "Q \<inter> set (take ((length xs + 1) div 2) xs) \<noteq> {}"
proof
  let ?k = "(length xs + 1) div 2"
  assume "Q \<inter> set (take ?k xs) = {}"
  moreover have "set xs = set (take ?k xs) \<union> set (drop ?k xs)" by (metis append_take_drop_id set_append)
  ultimately have "Q \<subseteq> set (drop ?k xs)" using assms by (auto simp: majority_set_def)
  then have "card Q \<le> length xs - ?k" by (metis List.finite_set card_length card_mono le_trans length_drop)
  then have "2 * card Q \<le> length xs" by presburger
  then show False using assms by (simp add: majority_set_def)
qed

text \<open>
  C39: what a passed \<open>quorum_loss\<close> did. At least three nodes answered; it paused half of them, rounded up,
  so that every majority of them contains a paused node; then it tried to resume exactly those. Apart
  from these docker commands it only looked at the cluster.
\<close>

theorem quorum_loss_verdict:
  fixes w s
  defines "online \<equiv> map fst (fst (online_nodes w (sc_nodes s) s))"
  defines "targets \<equiv> take ((length online + 1) div 2) online"
  assumes "lr_Passed (fst (runScenarioQuorumLoss w s))"
  shows "3 \<le> length online
     \<and> (\<forall>Q. majority_set (map nd_ID online) Q \<longrightarrow> Q \<inter> nd_ID ` set targets \<noteq> {})
     \<and> (\<exists>looks. list_all is_look looks \<and> sc_cmds (snd (runScenarioQuorumLoss w s)) =
          sc_cmds s @ looks @ map (pause_cmd ''pause'') targets @ map (pause_cmd ''unpause'') targets)"
proof -
  obtain live s1 where o: "online_nodes w (sc_nodes s) s = (live, s1)" by (metis prod.exhaust)
  have live: "map fst live = online" by (simp add: online_def o)
  have run: "runScenarioQuorumLoss w s = break_quorum w online s1"
    by (simp add: runScenarioQuorumLoss_def allNodes_def o live)
  let ?n = "length online"
  let ?k = "(?n + 1) div 2"
  have n: "3 \<le> ?n" using assms(3) by (auto simp: run break_quorum_def Let_def failed_def split: if_splits)
  obtain e logs s2 where p: "pause_all w ?k [] targets [ClusterSize ?n (?n div 2 + 1) ?k] s1 = ((e, logs), s2)"
    by (metis prod.exhaust)
  note bq = break_quorum_def [of w online s1, unfolded Let_def, folded targets_def, unfolded p prod.case]
  have e: "e = None" using assms(3) n by (auto simp: run bq failed_def split: option.splits)
  have "snd (runScenarioQuorumLoss w s) = snd (restore_all w targets (logs @ [QuorumLost (?n - ?k) ?n, Holding]) s2)"
    using n by (simp add: run bq e case_prod_beta)
  moreover have "sc_cmds s2 = sc_cmds s1 @ map (pause_cmd ''pause'') targets"
    using pause_all_cmds [of w ?k "[]" targets "[ClusterSize ?n (?n div 2 + 1) ?k]" s1] unfolding p e by simp
  moreover obtain looks where "sc_cmds s1 = sc_cmds s @ looks" "list_all is_look looks"
    using online_nodes_cmds [of w "sc_nodes s" s] by (auto simp: o)
  ultimately have "\<exists>looks. list_all is_look looks \<and> sc_cmds (snd (runScenarioQuorumLoss w s)) =
      sc_cmds s @ looks @ map (pause_cmd ''pause'') targets @ map (pause_cmd ''unpause'') targets"
    by (intro exI [of _ looks]) (simp add: restore_all_cmds)
  moreover have "nd_ID ` set targets = set (take ((length (map nd_ID online) + 1) div 2) (map nd_ID online))"
    by (simp add: targets_def take_map)
  ultimately show ?thesis using n half_meets_majority [of "map nd_ID online"] by simp
qed

section \<open>Examples\<close>

text \<open>
  A cluster of the given nodes: the first of them whose container was never paused leads.
  \<open>resume\<close> says whether resuming a container works.
\<close>

definition says :: "string \<Rightarrow> u64 \<Rightarrow> status_json" where
  "says st term = \<lparr>st_node_id = '''', st_state = st, st_term = term, st_leader = '''', st_commit_index = 0, st_last_applied = 0,
     st_heartbeats_received = 0, st_heartbeats_sent = 0, st_peers = [], st_snapshot_index = 0\<rparr>"

definition is_pause :: "string \<Rightarrow> command \<Rightarrow> bool" where
  "is_pause ident c = (c = Compose ''pause'' ident)"

definition live_world :: "bool \<Rightarrow> (int \<times> string) list \<Rightarrow> world" where
  "live_world resume members = \<lparr>w_project = ''infra'',
     w_ok = (\<lambda>_ c. case c of Compose v _ \<Rightarrow> v = ''pause'' \<or> resume | _ \<Rightarrow> True),
     w_out = (\<lambda>_ _. ''''), w_http = (\<lambda>_ _. Some 200),
     w_status = (\<lambda>cs p. case filter (\<lambda>(_, i). \<not> list_ex (is_pause i) cs) members of
        [] \<Rightarrow> None
      | (q, _) # rest \<Rightarrow> if p = q then Some (says ''leader'' 1)
                        else if p \<in> set (map fst rest) then Some (says ''follower'' 1) else None)\<rparr>"

definition three_nodes :: "(int \<times> string) list" where
  "three_nodes = [(8081, ''node1''), (8082, ''node2''), (8083, ''node3'')]"

lemma isolate_example: "lr_Passed (fst (runScenarioIsolateLeader (live_world True three_nodes) sidecar_init))"
  by code_simp

lemma quorum_loss_example: "lr_Passed (fst (runScenarioQuorumLoss (live_world True three_nodes) sidecar_init))"
  by code_simp

text \<open>\<open>quorum_loss\<close> passes although the containers could not be resumed.\<close>

lemma quorum_loss_left_paused:
  "let (r, s) = runScenarioQuorumLoss (live_world False three_nodes) sidecar_init
   in lr_Passed r \<and> isPaused ''node1'' s \<and> isPaused ''node2'' s"
  by code_simp

text \<open>
  With two nodes \<open>lose_follower\<close> passes and reports that one of two nodes holds a quorum, although one
  node is no majority of two.
\<close>

lemma lose_follower_of_two:
  "let (r, s) = runScenarioLoseFollower (live_world True (take 2 three_nodes)) sidecar_init
   in lr_Passed r \<and> PausedFollower ''node2'' 1 2 \<in> set (lr_Logs r)"
  "\<not> majority_set [''node1'', ''node2''] {''node1''}"
  by code_simp (simp add: majority_set_def)

theorem live_scenarios_restore_witness:
  "sc_paused (snd (handleRunLiveScenario (live_world True three_nodes) ''POST'' ''/live-scenarios/quorum_loss'' sidecar_init)) ''node1'' = False"
  using live_scenarios_restore [of "live_world True three_nodes" "''POST''" "''/live-scenarios/quorum_loss''" sidecar_init]
  by (simp add: unpause_works_def live_world_def pause_cmd_def sidecar_init_def)

theorem isolate_leader_verdict_witness:
  "\<exists>new \<in> set (sc_nodes sidecar_init). \<exists>old cs. seen_leading (live_world True three_nodes) (Some old) new cs"
  using isolate_leader_verdict [OF isolate_example] by blast

theorem quorum_loss_verdict_witness:
  "3 \<le> length (map fst (fst (online_nodes (live_world True three_nodes) (sc_nodes sidecar_init) sidecar_init)))"
  using quorum_loss_verdict [OF quorum_loss_example] by blast

end
