(* ===== verification/Spec2Isabelle.thy ===== *)
theory Spec2Isabelle
  imports LogSafety KVSystem Chaos LiveScenarios
begin

text \<open>
  A verification of a Raft implementation in Go and of the key-value store on top of it. The sources
  are under \<open>src/\<close>: the consensus library \<open>src/raft\<close>, the store \<open>src/kvstore\<close>, fault injection
  \<open>src/chaos\<close>, and the programs \<open>src/cmd/kvstore\<close> (a server) and \<open>src/cmd/sidecar\<close> (which starts and stops
  nodes).

  \<^bold>\<open>How the program works.\<close> A \<open>RaftNode\<close> holds a replicated log, its term and its vote, under one
  mutex. \<open>Run\<close> is its event loop (election timer, heartbeats); the handlers of the three RPCs and the
  goroutines that wait for answers take the same mutex. Term, vote and log are written to
  \<open>raft-state.bin\<close>, snapshots to \<open>raft-snapshot.bin\<close>. A separate goroutine, \<open>applyLoop\<close>, hands
  committed entries to a \<open>StateMachine\<close>, which is the \<open>KVStore\<close>; its results travel through a channel
  back to the client calls. Nodes call each other through a \<open>Transport\<close>: in memory, with fault injection,
  over gRPC or over HTTP. The server puts an HTTP interface before a store; the sidecar keeps a list of
  nodes and their containers and changes the membership of the cluster.

  \<^bold>\<open>Theories and what they model.\<close>
  \<^item> \<open>Prelude\<close>: 64-bit integers as words, their reading as naturals, Go maps with a zero value.
  \<^item> \<open>RaftLog\<close> (\<open>raft/log.go\<close>): entries behind a sentinel at the snapshot index; the locale
    \<open>replicated_log\<close> states the log as a partial map, and the operations refine it.
  \<^item> \<open>Files\<close> (\<open>persist\<close>, \<open>saveSnapshot\<close>): a file system with page cache, disk and directory versions,
    power cuts, and calls that fail; the locale \<open>atomic_file\<close> is the contract of a file that is
    replaced by temporary file, fsync and rename, interpreted for both files.
  \<^item> \<open>Rpc\<close> (\<open>raft/rpc.go\<close>) and \<open>Node\<close> (\<open>raft/node.go\<close>, \<open>raft/persist.go\<close>, state changes of
    \<open>raft/election.go\<close>): the node as a record; an operation maps a node to a node, with the files of the
    node as a component. Time is an argument, in nanoseconds.
  \<^item> \<open>Election\<close>, \<open>Replication\<close>, \<open>Snapshot\<close>, \<open>Client\<close>: the functions of \<open>raft/election.go\<close>,
    \<open>raft/replication.go\<close>, \<open>raft/snapshot.go\<close>, and \<open>Submit\<close>, membership changes, quorum check and the
    branches of \<open>Run\<close>. A goroutine that releases the mutex around an RPC is split there: a function
    that builds the request, and one that processes the answer.
  \<^item> \<open>Cluster\<close> and \<open>ElectionSafety\<close>: nodes that exchange calls, one critical section per step, with
    calls delayed, reordered or lost and nodes restarting on their files at any time. \<open>cl_reach\<close> are
    the reachable states; the locale \<open>quorum_system\<close> is interpreted on majorities.
  \<^item> \<open>History\<close>, \<open>LogInvariant\<close>, \<open>LogSafety\<close>: a history of the reigns of leaders, of votes and of
    acknowledgements beside a run of \<open>Cluster\<close>. \<open>History\<close> states when a history is consistent and what then
    holds of chosen entries (locale \<open>node_quorums\<close>, interpreted on majorities); \<open>LogInvariant\<close> shows that
    every step of the cluster keeps nodes, calls in flight and history consistent; \<open>LogSafety\<close> draws the
    conclusions for nodes, and the last section below those for the apply loops.
  \<^item> \<open>Apply\<close> (\<open>raft/apply.go\<close>, \<open>raft/state_machine.go\<close>): the apply loop as a machine with a program
    counter, interleaved with the other goroutines; the locale \<open>state_machine\<close> is the contract of the
    application.
  \<^item> \<open>Codec\<close>: a concrete codec for examples; codecs are otherwise parameters with their round trip as
    hypothesis: \<open>gob_ok\<close>, and \<open>json_ok\<close> for values whose strings are valid UTF-8, since \<open>encoding/json\<close>
    replaces other bytes.
  \<^item> \<open>KVStore\<close> and \<open>KVSystem\<close> (\<open>kvstore/kvstore.go\<close>): the store, which satisfies \<open>state_machine\<close> for every
    codec that decodes what it encodes; and its goroutines (client calls, apply loop, \<open>readApplyCh\<close>)
    interleaved, with the calls split at their locks.
  \<^item> \<open>Transport\<close> (\<open>raft/transport*.go\<close>): the in-memory network, gRPC and HTTP on both sides; the locale
    \<open>transport\<close> (a handler runs at most once, nobody else changes, an answer is the handler's) is
    interpreted for every call of every transport.
  \<^item> \<open>Chaos\<close> (\<open>chaos/network.go\<close>, \<open>chaos/injector.go\<close>, \<open>chaos/harness.go\<close>): rules, injector, the
    transport that consults the rules (again a \<open>transport\<close>), and the scenario runner.
  \<^item> \<open>Server\<close> (\<open>cmd/kvstore/main.go\<close>): configuration from the environment, and the handlers.
  \<^item> \<open>Sidecar\<close> (\<open>cmd/sidecar/main.go\<close>): registry, search for the leader, starting, stopping and pausing
    nodes; docker and the nodes are an environment that answers commands.
  \<^item> \<open>LiveScenarios\<close> (\<open>cmd/sidecar/main.go\<close>): the four scenarios that pause nodes of the running cluster,
    against the same environment, and their handlers.

  \<^bold>\<open>What is shown.\<close> At most one leader per term, and that the quorum check of the leader, which clears
  the vote of the running term, breaks this; for runs without snapshots and without that step-down,
  log matching, leader completeness and state machine safety (no two nodes ever commit or apply
  different entries at an index), so that all apply loops replay one history; exact conditions and effects of the vote, AppendEntries
  and InstallSnapshot handlers; the commit rule, in both directions; that files survive power cuts
  as old or new and that a restart recovers the node, also between the two files of a snapshot; that
  the state machine sees the committed commands once each and in order; that the store answers with
  the last write, and that snapshot and replay agree; that a client gets the result of its own entry;
  that a periodic snapshot can miss any entry that waits to be applied when it is due, that a restored
  snapshot can wipe out later entries and that a timeout drops whatever other call is registered under
  its index; that calls over gRPC and HTTP are calls of the handlers, for strings that are valid UTF-8;
  that a partition isolates a node when the rules before it drop; how requests reach the store; and
  that the registry of the sidecar stays well-formed, what a node that is stopped announces before, and
  that new nodes know all others; and that live scenarios restore what they pause, and what their
  verdicts say of the cluster.

  \<^bold>\<open>Bounds.\<close> Indices and terms are 64-bit words. Operations that add 1 to the last index are stated for
  logs whose last index is below \<open>2 ^ 64 - 2\<close>, and election safety for runs of fewer than \<open>2 ^ 64\<close>
  steps, so that no term wraps; the same bound, less one, keeps log indices from wrapping in the log
  safety theorems, since a step adds at most one entry. Loops recurse over lists or naturals; the only
  bounds are those of loops with a deadline: the rounds of \<open>retryAddNode\<close> and \<open>waitForHTTP\<close> each sleep half a
  second and so are at most 61 in 30 seconds, and those of the live scenarios are at most 41.

  \<^bold>\<open>Not modelled.\<close> Timers (a timer branch may be taken at any time), the scheduling and fairness of
  goroutines, the wire formats (codecs are parameters), the HTTP, gRPC and docker programs themselves,
  the timed scenarios of \<open>chaos/scenarios.go\<close>, which sleep and poll nodes running in the same
  process, the command-line programs \<open>cmd/chaos\<close> and \<open>cmd/readstate\<close>, generated code, and the
  dashboard. In \<open>Cluster\<close> the membership is fixed. The log safety theorems leave out snapshots, because an
  installed snapshot keeps a suffix that may conflict with it. The sidecar handles one request after
  the other.
\<close>


section \<open>Replicas replay one history\<close>

text \<open>The loop of a node that has just started, on a state machine in state \<open>s\<close>.\<close>

definition started :: "(nat \<Rightarrow> LogEntry) \<Rightarrow> 's \<Rightarrow> ('s, 'r) ApplyLoop \<Rightarrow> bool" where
  "started hist s a \<longleftrightarrow> al_pc a = Selecting \<and> al_ch a = [] \<and> al_state a = s \<and> agreed hist (al_node a)
     \<and> snapshotNotifyC (al_node a) = None \<and> lastApplied (al_node a) = 0"

lemma started_replays:
  "apply_run m hist a0 a \<Longrightarrow> started hist s a0 \<Longrightarrow> al_state a = replay m (commands hist 0 (seen a)) s"
  using apply_inv_run [of m hist a0 a 0 s] apply_inv_init [of a0 hist m] by (simp add: started_def apply_inv_def)

lemma commands_split: "i \<le> j \<Longrightarrow> j \<le> k \<Longrightarrow> commands hist i k = commands hist i j @ commands hist j k"
proof (induction k)
  case (Suc k)
  then show ?case by (cases "j = Suc k") (simp_all add: commands_Suc)
qed simp

lemma loops_agree:
  assumes "apply_run m hist x0 x" "started hist s x0" "apply_run m hist y0 y" "started hist s y0" "seen x \<le> seen y"
  shows "al_state y = replay m (commands hist (seen x) (seen y)) (al_state x)"
  using started_replays [OF assms(1,2)] started_replays [OF assms(3,4)] commands_split [of 0, OF _ assms(5), of hist] by simp

lemma one_history:
  assumes "plain_run ms cfgs labs"
  shows "\<exists>hist. \<forall>before after a j. labs = before @ after \<longrightarrow> a \<in> set ms \<longrightarrow>
      j \<le> unat (commitIndex (node_after ms cfgs before a)) \<longrightarrow>
      log_map (rlog (node_after ms cfgs before a)) j = Some (hist j)"
proof -
  let ?known = "\<lambda>j e. \<exists>before after a. labs = before @ after \<and> a \<in> set ms
     \<and> j \<le> unat (commitIndex (node_after ms cfgs before a)) \<and> log_map (rlog (node_after ms cfgs before a)) j = Some e"
  have same: "log_map (rlog (node_after ms cfgs p a)) j = log_map (rlog (node_after ms cfgs q b)) j
       \<and> log_map (rlog (node_after ms cfgs p a)) j \<noteq> None"
    if "labs = p @ p'" "labs = q @ q'" "a \<in> set ms" "b \<in> set ms" "j \<le> unat (commitIndex (node_after ms cfgs p a))"
      "j \<le> unat (commitIndex (node_after ms cfgs q b))" for p p' q q' a b j
  proof -
    have run: "plain_run ms cfgs p" "plain_run ms cfgs q"
      using assms that(1,2) plain_run_prefix by metis+
    have "p @ p' = q @ q'" using that(1,2) by simp
    then obtain r where "p = q @ r \<or> q = p @ r" by (auto simp: append_eq_append_conv2)
    then show ?thesis
    proof
      assume p: "p = q @ r"
      show ?thesis using committed_agree [OF run(1) [unfolded p] that(4,3,6) that(5) [unfolded p]] unfolding p by metis
    next
      assume q: "q = p @ r"
      show ?thesis using committed_agree [OF run(2) [unfolded q] that(3,4,5) that(6) [unfolded q]] unfolding q by metis
    qed
  qed
  have "log_map (rlog (node_after ms cfgs p a)) j = Some (SOME e. ?known j e)"
    if h: "labs = p @ p'" "a \<in> set ms" "j \<le> unat (commitIndex (node_after ms cfgs p a))" for p p' a j
  proof -
    obtain e where e: "log_map (rlog (node_after ms cfgs p a)) j = Some e" using same [OF h(1,1,2,2,3,3)] by blast
    then have "?known j (SOME e. ?known j e)" using h by (intro someI [of "?known j"]) blast
    then obtain q q' b where "labs = q @ q'" "b \<in> set ms" "j \<le> unat (commitIndex (node_after ms cfgs q b))"
        "log_map (rlog (node_after ms cfgs q b)) j = Some (SOME e. ?known j e)" by blast
    with same [OF h(1) this(1) h(2) this(2) h(3) this(3)] show ?thesis by simp
  qed
  then show ?thesis by (intro exI [of _ "\<lambda>j. SOME e. ?known j e"]) blast
qed



end
